(* ===== verification/Tunnel_Prelude.thy ===== *)
theory Tunnel_Prelude
  imports Main "HOL-Library.Word" "HOL-Library.AList"
begin

text \<open>
  Shared vocabulary of the development: the names of the machine types of the Rust sources, the
  \<open>Result\<close> combinators, byte strings, and the generic lemmas on lists, maps and words that the
  component theories use. Nothing here models a part of the program by itself.
\<close>

section \<open>Machine types\<close>

type_synonym u8 = "8 word"
type_synonym u16 = "16 word"
type_synonym u32 = "32 word"
type_synonym u64 = "64 word"
type_synonym i32 = "32 word"
type_synonym i64 = "64 word"
type_synonym bytes = "u8 list"

text \<open>A Rust \<open>Result<T, E>\<close> is \<open>'e + 'a\<close> with \<open>Inl\<close> for \<open>Err\<close>.\<close>

type_synonym ('e, 'a) result = "'e + 'a"

text \<open>\<open>std::env::var(k).ok()\<close>: a missing or non-Unicode variable is \<open>None\<close>.\<close>

type_synonym env = "string \<Rightarrow> string option"

section \<open>Collections\<close>

named_theorems std_defs \<open>definitions of the standard-library layer\<close>
named_theorems frame_lemmas \<open>fields that an operation leaves alone\<close>

section \<open>The question-mark operator\<close>

definition bind_result :: "'e + 'a \<Rightarrow> ('a \<Rightarrow> 'e + 'b) \<Rightarrow> 'e + 'b" where
  "bind_result r f = (case r of Inl e \<Rightarrow> Inl e | Inr a \<Rightarrow> f a)"

lemma bind_result_simps [simp]:
  "bind_result (Inl e) f = Inl e"
  "bind_result (Inr a) f = f a"
  by (simp_all add: bind_result_def)

lemma bind_result_Inr_iff:
  "bind_result r f = Inr b \<longleftrightarrow> (\<exists>a. r = Inr a \<and> f a = Inr b)"
  by (cases r) auto

lemma bind_result_Inl_iff:
  "bind_result r f = Inl e \<longleftrightarrow> r = Inl e \<or> (\<exists>a. r = Inr a \<and> f a = Inl e)"
  by (cases r) auto

lemma bind_result_cong [fundef_cong]:
  "r = r' \<Longrightarrow> (\<And>a. r' = Inr a \<Longrightarrow> f a = g a) \<Longrightarrow> bind_result r f = bind_result r' g"
  by (cases r') auto

text \<open>\<open>map_err\<close>.\<close>

definition map_err :: "('e \<Rightarrow> 'f) \<Rightarrow> 'e + 'a \<Rightarrow> 'f + 'a" where
  "map_err f r = (case r of Inl e \<Rightarrow> Inl (f e) | Inr a \<Rightarrow> Inr a)"

lemma map_err_simps [simp]:
  "map_err f (Inl e) = Inl (f e)"
  "map_err f (Inr a) = Inr a"
  by (simp_all add: map_err_def)

lemma map_err_Inr_iff [simp]: "map_err f r = Inr b \<longleftrightarrow> r = Inr b"
  by (cases r) auto

section \<open>Bytes of a string\<close>

text \<open>
  A Rust \<open>String\<close> is its UTF-8 byte sequence, written as a \<open>string\<close> (one \<open>char\<close> per byte);
  \<open>as_bytes\<close> reads it as a \<open>Vec<u8>\<close>.
\<close>

definition byte_of :: "char \<Rightarrow> u8" where
  "byte_of c = word_of_nat (of_char c)"

definition as_bytes :: "string \<Rightarrow> bytes" where
  "as_bytes s = map byte_of s"

lemma unat_byte_of: "unat (byte_of c) = of_char c"
proof -
  have "of_char c < (256::nat)"
    by simp
  then show ?thesis
    by (simp add: byte_of_def unat_of_nat)
qed

lemma inj_byte_of: "inj byte_of"
proof (rule injI)
  fix c d
  assume "byte_of c = byte_of d"
  then have "(of_char c :: nat) = of_char d"
    using unat_byte_of by metis
  then show "c = d" by simp
qed

lemma as_bytes_eq_iff [simp]: "as_bytes s = as_bytes t \<longleftrightarrow> s = t"
  by (simp add: as_bytes_def inj_byte_of inj_map_eq_map)

lemma as_bytes_Nil_iff [simp]: "as_bytes s = [] \<longleftrightarrow> s = []" "as_bytes [] = []"
  by (simp_all add: as_bytes_def)

lemma length_as_bytes [simp]: "length (as_bytes s) = length s"
  by (simp add: as_bytes_def)

section \<open>Finite maps as functions\<close>

lemma card_dom_upd_new:
  "finite (dom m) \<Longrightarrow> m k = None \<Longrightarrow> card (dom (m(k \<mapsto> v))) = Suc (card (dom m))"
  by (simp add: card_insert_if domIff)

lemma card_dom_upd_old:
  "m k = Some w \<Longrightarrow> card (dom (m(k \<mapsto> v))) = card (dom m)"
  by (simp add: insert_absorb domI)

lemma card_dom_del:
  "finite (dom m) \<Longrightarrow> m k = Some w \<Longrightarrow> Suc (card (dom (m(k := None)))) = card (dom m)"
  by (subst card.remove [of "dom m" k]) auto

lemma card_dom_del_none: "m k = None \<Longrightarrow> m(k := None) = m"
  by auto

section \<open>Words\<close>

lemma unat_u16_less: "unat (w :: u16) < 65536"
  using unsigned_less [of w] by simp

lemma unat_u64_less: "unat (w :: u64) < 2 ^ 64"
  using unsigned_less [of w] by simp

lemma unat_inc64:
  fixes w :: u64
  assumes "unat w + 1 < 2 ^ 64"
  shows "unat (w + 1) = unat w + 1"
  using assms by (simp add: unat_word_ariths)

lemma unat_add_small64:
  fixes w :: u64
  assumes "unat w + n < 2 ^ 64"
  shows "unat (w + word_of_nat n) = unat w + n"
  using assms by (simp add: unat_word_ariths unat_of_nat)

end
