(* ===== verification/Rust_Std.thy ===== *)
theory Rust_Std
  imports Tunnel_Prelude
begin

text \<open>
  The parts of the Rust standard library that the sources call on strings and integers:
  \<open>str::trim\<close>, \<open>split\<close>, \<open>splitn\<close>, \<open>find\<close>, \<open>starts_with\<close>, the ASCII case functions,
  \<open>u16::from_str\<close> and the decimal \<open>Display\<close> of an integer. All are executable. Strings are UTF-8
  byte sequences, so a function on characters whose argument is ASCII works bytewise.
\<close>

section \<open>Whitespace\<close>

text \<open>The UTF-8 encodings of the code points with the property \<open>White_Space\<close>.\<close>

definition ws_encodings :: "string list" where
  [std_defs]: "ws_encodings =
     [[CHR 0x09], [CHR 0x0A], [CHR 0x0B], [CHR 0x0C], [CHR 0x0D], [CHR 0x20],
      [CHR 0xC2, CHR 0x85], [CHR 0xC2, CHR 0xA0],
      [CHR 0xE1, CHR 0x9A, CHR 0x80],
      [CHR 0xE2, CHR 0x80, CHR 0x80], [CHR 0xE2, CHR 0x80, CHR 0x81],
      [CHR 0xE2, CHR 0x80, CHR 0x82], [CHR 0xE2, CHR 0x80, CHR 0x83],
      [CHR 0xE2, CHR 0x80, CHR 0x84], [CHR 0xE2, CHR 0x80, CHR 0x85],
      [CHR 0xE2, CHR 0x80, CHR 0x86], [CHR 0xE2, CHR 0x80, CHR 0x87],
      [CHR 0xE2, CHR 0x80, CHR 0x88], [CHR 0xE2, CHR 0x80, CHR 0x89],
      [CHR 0xE2, CHR 0x80, CHR 0x8A], [CHR 0xE2, CHR 0x80, CHR 0xA8],
      [CHR 0xE2, CHR 0x80, CHR 0xA9], [CHR 0xE2, CHR 0x80, CHR 0xAF],
      [CHR 0xE2, CHR 0x81, CHR 0x9F], [CHR 0xE3, CHR 0x80, CHR 0x80]]"

text \<open>Drop encodings of the list from the front for as long as one matches.\<close>

definition front_match :: "string list \<Rightarrow> string \<Rightarrow> string option" where
  "front_match encs s = find (\<lambda>e. e \<noteq> [] \<and> take (length e) s = e) encs"

lemma front_match_SomeD:
  "front_match encs s = Some e \<Longrightarrow> e \<in> set encs \<and> e \<noteq> [] \<and> take (length e) s = e"
  by (auto simp: front_match_def find_Some_iff)

lemma front_match_None_iff:
  "front_match encs s = None \<longleftrightarrow> (\<forall>e \<in> set encs. e \<noteq> [] \<longrightarrow> take (length e) s \<noteq> e)"
  by (auto simp: front_match_def find_None_iff)

lemma front_match_shorter:
  "front_match encs s = Some e \<Longrightarrow> length (drop (length e) s) < length s"
  using front_match_SomeD [of encs s e] by (cases s) auto

function strip :: "string list \<Rightarrow> string \<Rightarrow> string" where
  "strip encs s =
     (case front_match encs s of
        None \<Rightarrow> s
      | Some e \<Rightarrow> strip encs (drop (length e) s))"
  by pat_completeness auto
termination
  by (relation "measure (\<lambda>(encs, s). length s)") (auto dest: front_match_shorter)

declare strip.simps [simp del]

definition trim_start :: "string \<Rightarrow> string" where
  "trim_start s = strip ws_encodings s"

definition trim_end :: "string \<Rightarrow> string" where
  "trim_end s = rev (strip (map rev ws_encodings) (rev s))"

definition trim :: "string \<Rightarrow> string" where
  "trim s = trim_end (trim_start s)"

lemma strip_fixpoint: "front_match encs (strip encs s) = None"
proof (induction encs s rule: strip.induct)
  case (1 encs s)
  then show ?case
    by (cases "front_match encs s") (simp_all add: strip.simps [of encs s])
qed

lemma strip_id: "front_match encs s = None \<Longrightarrow> strip encs s = s"
  by (simp add: strip.simps [of encs s])

lemma strip_suffix: "\<exists>p. s = p @ strip encs s"
proof (induction encs s rule: strip.induct)
  case (1 encs s)
  show ?case
  proof (cases "front_match encs s")
    case None
    then show ?thesis by (simp add: strip_id)
  next
    case (Some e)
    with "1.IH" obtain p where "drop (length e) s = p @ strip encs (drop (length e) s)"
      by blast
    then have "s = (take (length e) s @ p) @ strip encs (drop (length e) s)"
      by (metis append_assoc append_take_drop_id)
    moreover have "strip encs s = strip encs (drop (length e) s)"
      using Some by (simp add: strip.simps [of encs s])
    ultimately show ?thesis by (metis (no_types))
  qed
qed

lemma set_strip: "set (strip encs s) \<subseteq> set s"
  using strip_suffix [of s encs] by (metis set_append sup_ge2)

lemma set_trim: "set (trim s) \<subseteq> set s"
  using set_strip [of "map rev ws_encodings" "rev (trim_start s)"]
    set_strip [of ws_encodings s]
  by (auto simp: trim_def trim_end_def trim_start_def)

text \<open>
  A string that begins and ends with a graphic ASCII character is its own trimming. The bytes
  \<open>0x21\<close> to \<open>0x7E\<close> neither start nor end the encoding of a whitespace character.
\<close>

definition graphic :: "char \<Rightarrow> bool" where
  "graphic c \<longleftrightarrow> 0x21 \<le> (of_char c :: nat) \<and> (of_char c :: nat) \<le> 0x7E"

definition trimmed :: "string \<Rightarrow> bool" where
  "trimmed s \<longleftrightarrow> trim s = s"

lemma ws_encodings_not_graphic:
  "e \<in> set ws_encodings \<Longrightarrow> e \<noteq> [] \<and> \<not> graphic (hd e) \<and> \<not> graphic (last e)"
  by (auto simp: ws_encodings_def graphic_def)

lemma front_match_graphic:
  assumes "\<And>e. e \<in> set encs \<Longrightarrow> e = [] \<or> \<not> graphic (hd e)"
    and "graphic c"
  shows "front_match encs (c # s) = None"
proof -
  have "take (length e) (c # s) \<noteq> e" if "e \<in> set encs" "e \<noteq> []" for e
    using assms(1) [OF that(1)] assms(2) that(2) by (cases e) auto
  then show ?thesis by (simp add: front_match_None_iff)
qed

lemma trim_graphic:
  assumes "s \<noteq> []" "graphic (hd s)" "graphic (last s)"
  shows "trim s = s"
proof -
  have "front_match ws_encodings s = None"
    using assms ws_encodings_not_graphic
    by (cases s) (auto intro: front_match_graphic)
  moreover have "front_match (map rev ws_encodings) (rev s) = None"
  proof (cases "rev s")
    case (Cons c t)
    then have "c = last s" by (metis assms(1) hd_rev list.sel(1))
    moreover have "e = [] \<or> \<not> graphic (hd e)" if "e \<in> set (map rev ws_encodings)" for e
      using that ws_encodings_not_graphic by (auto simp: hd_rev)
    ultimately show ?thesis
      unfolding Cons using assms(3) by (intro front_match_graphic) simp_all
  qed (use assms in simp)
  ultimately show ?thesis
    by (simp add: trim_def trim_start_def trim_end_def strip_id)
qed

lemma front_match_prefix:
  "front_match encs (p @ q) = None \<Longrightarrow> front_match encs p = None"
  unfolding front_match_None_iff by (metis append_take_drop_id length_take min.absorb_iff2
      append_eq_conv_conj nat_le_linear take_all take_append append.right_neutral take_all_iff
      diff_is_0_eq' take_0)

lemma trim_idem [simp]: "trim (trim s) = trim s"
proof -
  let ?t = "trim_start s"
  obtain p where "rev ?t = p @ strip (map rev ws_encodings) (rev ?t)"
    using strip_suffix by blast
  then have t: "?t = trim s @ rev p"
    by (metis rev_append rev_rev_ident trim_def trim_end_def)
  have "front_match ws_encodings ?t = None"
    by (simp add: trim_start_def strip_fixpoint)
  then have "front_match ws_encodings (trim s) = None"
    using t front_match_prefix by metis
  moreover have "front_match (map rev ws_encodings) (rev (trim s)) = None"
    by (simp add: trim_def trim_end_def strip_fixpoint)
  ultimately show ?thesis
    by (simp add: trim_def [of "trim s"] trim_start_def trim_end_def strip_id)
qed

lemma trim_Nil [simp]: "trim [] = []"
proof -
  have "front_match encs [] = None" for encs
    by (auto simp: front_match_None_iff)
  then show ?thesis
    by (simp add: trim_def trim_start_def trim_end_def strip_id)
qed

section \<open>Splitting and searching\<close>

text \<open>\<open>s.split(c)\<close>, collected.\<close>

fun split_on :: "char \<Rightarrow> string \<Rightarrow> string list" where
  "split_on c [] = [[]]"
| "split_on c (x # xs) =
     (if x = c then [] # split_on c xs
      else (x # hd (split_on c xs)) # tl (split_on c xs))"

text \<open>\<open>s.find(c)\<close> with the slices before and after the match.\<close>

fun split_once :: "char \<Rightarrow> string \<Rightarrow> (string \<times> string) option" where
  "split_once c [] = None"
| "split_once c (x # xs) =
     (if x = c then Some ([], xs)
      else map_option (\<lambda>(a, b). (x # a, b)) (split_once c xs))"

text \<open>\<open>s.rsplit_once(c)\<close>.\<close>

definition rsplit_once :: "char \<Rightarrow> string \<Rightarrow> (string \<times> string) option" where
  "rsplit_once c s = map_option (\<lambda>(a, b). (rev b, rev a)) (split_once c (rev s))"

text \<open>\<open>s.splitn(n, c)\<close>, collected.\<close>

fun splitn :: "nat \<Rightarrow> char \<Rightarrow> string \<Rightarrow> string list" where
  "splitn 0 c s = []"
| "splitn (Suc 0) c s = [s]"
| "splitn (Suc (Suc n)) c s =
     (case split_once c s of
        None \<Rightarrow> [s]
      | Some (a, b) \<Rightarrow> a # splitn (Suc n) c b)"

definition starts_with :: "string \<Rightarrow> string \<Rightarrow> bool" where
  "starts_with s p \<longleftrightarrow> take (length p) s = p"

lemma split_on_nonempty [simp]: "split_on c s \<noteq> []"
  by (cases s) auto

lemma split_on_no_sep: "c \<notin> set s \<Longrightarrow> split_on c s = [s]"
  by (induction s) auto

lemma split_on_append:
  "c \<notin> set a \<Longrightarrow> split_on c (a @ c # b) = a # split_on c b"
  by (induction a) auto

lemma set_split_on: "x \<in> set (split_on c s) \<Longrightarrow> set x \<subseteq> set s - {c}"
proof (induction s arbitrary: x)
  case (Cons a s)
  have hd_sub: "set (hd (split_on c s)) \<subseteq> set s - {c}"
    using Cons.IH [of "hd (split_on c s)"] by simp
  have tl_sub: "set y \<subseteq> set s - {c}" if "y \<in> set (tl (split_on c s))" for y
    using Cons.IH that by (meson list.set_sel(2) split_on_nonempty)
  from Cons.prems Cons.IH [of x] hd_sub tl_sub show ?case
    by (auto split: if_splits)
qed simp

lemma split_once_append:
  "c \<notin> set a \<Longrightarrow> split_once c (a @ c # b) = Some (a, b)"
  by (induction a) auto

lemma split_once_None_iff: "split_once c s = None \<longleftrightarrow> c \<notin> set s"
  by (induction s) auto

lemma split_once_SomeD:
  "split_once c s = Some (a, b) \<Longrightarrow> s = a @ c # b \<and> c \<notin> set a"
  by (induction s arbitrary: a) (auto split: if_splits)

lemma starts_with_append [simp]: "starts_with (p @ s) p"
  by (simp add: starts_with_def)

lemma starts_with_iff: "starts_with s p \<longleftrightarrow> (\<exists>t. s = p @ t)"
  unfolding starts_with_def by (metis append_take_drop_id append_eq_conv_conj)

text \<open>Joining with a separator, the inverse of \<open>split\<close> on separator-free pieces.\<close>

fun join :: "char \<Rightarrow> string list \<Rightarrow> string" where
  "join c [] = []"
| "join c [x] = x"
| "join c (x # y # xs) = x @ c # join c (y # xs)"

lemma split_on_join:
  "xs \<noteq> [] \<Longrightarrow> (\<And>x. x \<in> set xs \<Longrightarrow> c \<notin> set x) \<Longrightarrow> split_on c (join c xs) = xs"
  by (induction c xs rule: join.induct) (auto simp: split_on_no_sep split_on_append)

lemma set_join: "set (join c xs) \<subseteq> insert c (\<Union> (set ` set xs))"
  by (induction c xs rule: join.induct) auto

section \<open>Strings that trimming leaves alone\<close>

definition bounded_graphic :: "string \<Rightarrow> bool" where
  "bounded_graphic s \<longleftrightarrow> s \<noteq> [] \<and> graphic (hd s) \<and> graphic (last s)"

lemma trim_bounded_graphic: "bounded_graphic s \<Longrightarrow> trim s = s"
  by (simp add: bounded_graphic_def trim_graphic)

lemma bounded_graphic_append:
  "bounded_graphic a \<Longrightarrow> bounded_graphic b \<Longrightarrow> bounded_graphic (a @ c # b)"
  by (auto simp: bounded_graphic_def)

lemma bounded_graphic_join:
  "xs \<noteq> [] \<Longrightarrow> (\<And>x. x \<in> set xs \<Longrightarrow> bounded_graphic x) \<Longrightarrow> bounded_graphic (join c xs)"
  by (induction c xs rule: join.induct) (auto intro: bounded_graphic_append)

lemma trim_default [simp]: "trim ''default'' = ''default''"
  by (rule trim_graphic) (simp_all add: graphic_def)

section \<open>ASCII case\<close>

definition ascii_lower :: "char \<Rightarrow> char" where
  "ascii_lower c =
     (if 65 \<le> (of_char c :: nat) \<and> (of_char c :: nat) \<le> 90 then char_of ((of_char c :: nat) + 32) else c)"

definition to_ascii_lowercase :: "string \<Rightarrow> string" where
  "to_ascii_lowercase s = map ascii_lower s"

definition eq_ignore_ascii_case :: "string \<Rightarrow> string \<Rightarrow> bool" where
  "eq_ignore_ascii_case s t \<longleftrightarrow> to_ascii_lowercase s = to_ascii_lowercase t"

lemma ascii_lower_idem [simp]: "ascii_lower (ascii_lower c) = ascii_lower c"
proof -
  have "(of_char c :: nat) < 256" by simp
  then show ?thesis by (simp add: ascii_lower_def of_char_of)
qed

lemma to_ascii_lowercase_idem [simp]:
  "to_ascii_lowercase (to_ascii_lowercase s) = to_ascii_lowercase s"
  by (simp add: to_ascii_lowercase_def)

end
