(* ===== verification/Rust_Net.thy ===== *)
theory Rust_Net
  imports Rust_Std
begin

text \<open>
  Integer parsing and printing (\<open>u16::from_str\<close>, \<open>Display\<close>) and the recursive-descent parser
  behind \<open>SocketAddr::from_str\<close> (IPv4 and IPv6, with an optional IPv6 scope identifier), as the
  configuration code and the per-spoke listeners use them. A parser is a function
  \<open>string \<Rightarrow> ('a \<times> string) option\<close>: the value read and the input left.
\<close>

section \<open>Decimal integers\<close>

datatype int_error = EmptyInt | InvalidDigit | PosOverflow

definition digit_val :: "nat \<Rightarrow> char \<Rightarrow> nat option" where
  "digit_val radix c =
     (let n = of_char c :: nat;
          v = (if 48 \<le> n \<and> n \<le> 57 then Some (n - 48)
               else if 97 \<le> n \<and> n \<le> 122 then Some (n - 87)
               else if 65 \<le> n \<and> n \<le> 90 then Some (n - 55)
               else None)
      in case v of None \<Rightarrow> None | Some d \<Rightarrow> if d < radix then Some d else None)"

fun parse_digits :: "nat \<Rightarrow> nat \<Rightarrow> string \<Rightarrow> int_error + nat" where
  "parse_digits lim acc [] = Inr acc"
| "parse_digits lim acc (c # cs) =
     (case digit_val 10 c of
        None \<Rightarrow> Inl InvalidDigit
      | Some d \<Rightarrow> if acc * 10 + d < lim then parse_digits lim (acc * 10 + d) cs else Inl PosOverflow)"

definition parse_u16 :: "string \<Rightarrow> int_error + u16" where
  "parse_u16 s =
     (case s of
        [] \<Rightarrow> Inl EmptyInt
      | c # cs \<Rightarrow>
          if cs = [] \<and> (c = CHR ''+'' \<or> c = CHR ''-'') then Inl InvalidDigit
          else (case parse_digits 65536 0 (if c = CHR ''+'' then cs else s) of
                  Inl e \<Rightarrow> Inl e
                | Inr n \<Rightarrow> Inr (word_of_nat n)))"

definition digit_char :: "nat \<Rightarrow> char" where
  "digit_char d = char_of (48 + d)"

fun show_nat :: "nat \<Rightarrow> string" where
  "show_nat n = (if n < 10 then [digit_char n] else show_nat (n div 10) @ [digit_char (n mod 10)])"

declare show_nat.simps [simp del]

definition show_u16 :: "u16 \<Rightarrow> string" where
  "show_u16 w = show_nat (unat w)"

lemma of_char_digit_char: "d < 10 \<Longrightarrow> (of_char (digit_char d) :: nat) = 48 + d"
  by (simp add: digit_char_def)

lemma digit_val_digit_char: "d < 10 \<Longrightarrow> digit_val 10 (digit_char d) = Some d"
  by (simp add: digit_val_def of_char_digit_char Let_def)

lemma digit_val_SomeD:
  "digit_val 10 c = Some d \<Longrightarrow> d < 10 \<and> 48 \<le> (of_char c :: nat) \<and> (of_char c :: nat) \<le> 57"
  by (auto simp: digit_val_def Let_def split: if_splits)

definition decimal :: "char \<Rightarrow> bool" where
  "decimal c \<longleftrightarrow> 48 \<le> (of_char c :: nat) \<and> (of_char c :: nat) \<le> 57"

lemma decimal_graphic: "decimal c \<Longrightarrow> graphic c"
  by (simp add: decimal_def graphic_def)

lemma show_nat_decimal: "c \<in> set (show_nat n) \<Longrightarrow> decimal c"
proof (induction n rule: show_nat.induct)
  case (1 n)
  then show ?case
    by (cases "n < 10") (auto simp: show_nat.simps [of n] decimal_def of_char_digit_char)
qed

lemma show_nat_nonempty [simp]: "show_nat n \<noteq> []"
  by (subst show_nat.simps) simp

lemma show_nat_no_char: "\<not> decimal c \<Longrightarrow> c \<notin> set (show_nat n)"
  using show_nat_decimal by blast

lemma parse_digits_append:
  "parse_digits lim acc (xs @ ys) =
     (case parse_digits lim acc xs of Inl e \<Rightarrow> Inl e | Inr a \<Rightarrow> parse_digits lim a ys)"
  by (induction xs arbitrary: acc) (auto split: option.splits)

lemma parse_digits_show_nat: "n < lim \<Longrightarrow> parse_digits lim 0 (show_nat n) = Inr n"
proof (induction n rule: show_nat.induct)
  case (1 n)
  show ?case
  proof (cases "n < 10")
    case True
    with "1.prems" show ?thesis
      by (simp add: show_nat.simps [of n] digit_val_digit_char)
  next
    case False
    with "1.IH" "1.prems" have "parse_digits lim 0 (show_nat (n div 10)) = Inr (n div 10)"
      by simp
    with False "1.prems" show ?thesis
      by (simp add: show_nat.simps [of n] parse_digits_append digit_val_digit_char)
  qed
qed

lemma parse_digits_less: "parse_digits lim acc s = Inr n \<Longrightarrow> acc < lim \<Longrightarrow> n < lim"
  by (induction s arbitrary: acc) (auto split: option.splits if_splits)

lemma parse_u16_show_u16 [simp]: "parse_u16 (show_u16 w) = Inr w"
proof (cases "show_nat (unat w)")
  case (Cons c cs)
  then have "decimal c"
    using show_nat_decimal [of c "unat w"] by simp
  then have "c \<noteq> CHR ''+''" "c \<noteq> CHR ''-''"
    by (auto simp: decimal_def)
  moreover have "parse_digits 65536 0 (c # cs) = Inr (unat w)"
    unfolding Cons [symmetric] by (rule parse_digits_show_nat) (rule unat_u16_less)
  ultimately show ?thesis
    using Cons by (simp add: parse_u16_def show_u16_def)
qed simp

section \<open>Socket addresses\<close>

datatype sock_addr =
    V4 "u8 \<times> u8 \<times> u8 \<times> u8" u16
  | V6 "u16 list" u16 u32   \<comment> \<open>eight groups, port, scope identifier\<close>

type_synonym 'a parser = "string \<Rightarrow> ('a \<times> string) option"

definition read_char :: "char \<Rightarrow> unit parser" where
  "read_char c s = (case s of [] \<Rightarrow> None | x # xs \<Rightarrow> if x = c then Some ((), xs) else None)"

fun read_digits :: "nat \<Rightarrow> string \<Rightarrow> nat list \<times> string" where
  "read_digits radix [] = ([], [])"
| "read_digits radix (c # cs) =
     (case digit_val radix c of
        None \<Rightarrow> ([], c # cs)
      | Some d \<Rightarrow> (let (ds, r) = read_digits radix cs in (d # ds, r)))"

definition digits_val :: "nat \<Rightarrow> nat list \<Rightarrow> nat" where
  "digits_val radix ds = foldl (\<lambda>a d. a * radix + d) 0 ds"

text \<open>
  \<open>read_number(radix, max_digits, allow_zero_prefix)\<close> into an integer below \<open>lim\<close>: without a
  digit limit the multiplication is checked, with one the conversion at the end is; both fail
  exactly when the value does not fit.
\<close>

definition read_number :: "nat \<Rightarrow> nat option \<Rightarrow> bool \<Rightarrow> nat \<Rightarrow> nat parser" where
  "read_number radix max_digits allow_zero_prefix lim s =
     (let (ds, r) = read_digits radix s; v = digits_val radix ds in
      if ds = [] then None
      else if (case max_digits of None \<Rightarrow> False | Some m \<Rightarrow> m < length ds) then None
      else if \<not> allow_zero_prefix \<and> take 1 s = ''0'' \<and> 1 < length ds then None
      else if v < lim then Some (v, r) else None)"

definition read_separator :: "char \<Rightarrow> nat \<Rightarrow> 'a parser \<Rightarrow> 'a parser" where
  "read_separator sep i p s =
     (if 0 < i then (case read_char sep s of None \<Rightarrow> None | Some (_, r) \<Rightarrow> p r) else p s)"

definition read_octet :: "nat \<Rightarrow> u8 parser" where
  "read_octet i s =
     map_option (\<lambda>(v, r). (word_of_nat v, r))
       (read_separator CHR ''.'' i (read_number 10 (Some 3) False 256) s)"

definition read_ipv4_addr :: "(u8 \<times> u8 \<times> u8 \<times> u8) parser" where
  "read_ipv4_addr s =
     Option.bind (read_octet 0 s) (\<lambda>(a, s).
     Option.bind (read_octet 1 s) (\<lambda>(b, s).
     Option.bind (read_octet 2 s) (\<lambda>(c, s).
     Option.bind (read_octet 3 s) (\<lambda>(d, s). Some ((a, b, c, d), s)))))"

definition group_of :: "u8 \<Rightarrow> u8 \<Rightarrow> u16" where
  "group_of a b = word_of_nat (unat a * 256 + unat b)"

text \<open>
  \<open>read_groups\<close>: up to \<open>limit\<close> groups; the groups read, whether the last two come from an
  embedded IPv4 address, and the input left. \<open>i\<close> is the index of the next group.
\<close>

function read_groups :: "nat \<Rightarrow> nat \<Rightarrow> string \<Rightarrow> u16 list \<times> bool \<times> string" where
  "read_groups limit i s =
     (if limit \<le> i then ([], False, s)
      else
        let v4 = (if i + 1 < limit then read_separator CHR '':'' i read_ipv4_addr s else None) in
        case v4 of
          Some ((a, b, c, d), r) \<Rightarrow> ([group_of a b, group_of c d], True, r)
        | None \<Rightarrow>
            (case read_separator CHR '':'' i (read_number 16 (Some 4) True 65536) s of
               None \<Rightarrow> ([], False, s)
             | Some (g, r) \<Rightarrow>
                 (let (gs, v, r') = read_groups limit (Suc i) r in (word_of_nat g # gs, v, r'))))"
  by pat_completeness auto
termination
  by (relation "measure (\<lambda>(limit, i, s). limit - i)") auto

declare read_groups.simps [simp del]

definition read_ipv6_addr :: "u16 list parser" where
  "read_ipv6_addr s =
     (let (head, head_ipv4, r) = read_groups 8 0 s in
      if length head = 8 then Some (head, r)
      else if head_ipv4 then None
      else
        Option.bind (read_char CHR '':'' r) (\<lambda>(_, r).
        Option.bind (read_char CHR '':'' r) (\<lambda>(_, r).
          let (tail, _, r) = read_groups (8 - (length head + 1)) 0 r in
          Some (head @ replicate (8 - (length head + length tail)) 0 @ tail, r))))"

definition read_port :: "u16 parser" where
  "read_port s =
     Option.bind (read_char CHR '':'' s) (\<lambda>(_, r).
     map_option (\<lambda>(v, r). (word_of_nat v, r)) (read_number 10 None True 65536 r))"

definition read_scope_id :: "u32 parser" where
  "read_scope_id s =
     Option.bind (read_char CHR ''%'' s) (\<lambda>(_, r).
     map_option (\<lambda>(v, r). (word_of_nat v, r)) (read_number 10 None True 4294967296 r))"

definition read_socket_addr_v4 :: "sock_addr parser" where
  "read_socket_addr_v4 s =
     Option.bind (read_ipv4_addr s) (\<lambda>(ip, r).
     Option.bind (read_port r) (\<lambda>(p, r). Some (V4 ip p, r)))"

definition read_socket_addr_v6 :: "sock_addr parser" where
  "read_socket_addr_v6 s =
     Option.bind (read_char CHR ''['' s) (\<lambda>(_, r).
     Option.bind (read_ipv6_addr r) (\<lambda>(ip, r).
       let (scope, r) = (case read_scope_id r of None \<Rightarrow> (0, r) | Some sr \<Rightarrow> sr) in
       Option.bind (read_char CHR '']'' r) (\<lambda>(_, r).
       Option.bind (read_port r) (\<lambda>(p, r). Some (V6 ip p scope, r)))))"

text \<open>\<open>SocketAddr::from_str\<close>: the whole input must be consumed.\<close>

definition parse_socket_addr :: "string \<Rightarrow> sock_addr option" where
  "parse_socket_addr s =
     (case (case read_socket_addr_v4 s of Some x \<Rightarrow> Some x | None \<Rightarrow> read_socket_addr_v6 s) of
        Some (a, []) \<Rightarrow> Some a
      | _ \<Rightarrow> None)"

section \<open>The wildcard address with a port\<close>

lemma digits_val_append: "digits_val r (xs @ ys) = foldl (\<lambda>a d. a * r + d) (digits_val r xs) ys"
  by (simp add: digits_val_def)

lemma read_digits_append_decimal:
  "(\<And>c. c \<in> set s \<Longrightarrow> decimal c) \<Longrightarrow>
   read_digits 10 (s @ t) = (map (\<lambda>c. of_char c - 48) s @ fst (read_digits 10 t), snd (read_digits 10 t))"
proof (induction s)
  case (Cons c s)
  have "decimal c" using Cons.prems by simp
  then have "digit_val 10 c = Some (of_char c - 48)"
    by (auto simp: digit_val_def decimal_def Let_def)
  with Cons show ?case by (simp add: Let_def)
qed simp

lemma digits_val_show_nat: "digits_val 10 (map (\<lambda>c. of_char c - 48) (show_nat n)) = n"
proof (induction n rule: show_nat.induct)
  case (1 n)
  then show ?case
    by (cases "n < 10")
      (simp_all add: show_nat.simps [of n] digits_val_append of_char_digit_char digits_val_def)
qed

lemma read_port_show_u16: "read_port (CHR '':'' # show_u16 p) = Some (p, [])"
proof -
  have digits: "read_digits 10 (show_nat (unat p)) = (map (\<lambda>c. of_char c - 48) (show_nat (unat p)), [])"
    using read_digits_append_decimal [of "show_nat (unat p)" "[]"] show_nat_decimal by simp
  have "unat p < 65536"
    by (rule unat_u16_less)
  then have "read_number 10 None True 65536 (show_nat (unat p)) = Some (unat p, [])"
    by (simp add: read_number_def digits digits_val_show_nat)
  then show ?thesis
    by (simp add: read_port_def read_char_def show_u16_def)
qed

definition wildcard :: "u8 \<times> u8 \<times> u8 \<times> u8" where
  "wildcard = (0, 0, 0, 0)"

lemma read_octet_zero:
  "read_octet 0 (CHR ''0'' # CHR ''.'' # s) = Some (0, CHR ''.'' # s)"
  "0 < i \<Longrightarrow> read_octet i (CHR ''.'' # CHR ''0'' # CHR ''.'' # s) = Some (0, CHR ''.'' # s)"
  "0 < i \<Longrightarrow> read_octet i (CHR ''.'' # CHR ''0'' # CHR '':'' # s) = Some (0, CHR '':'' # s)"
  by (simp_all add: read_octet_def read_separator_def read_char_def read_number_def digit_val_def
      digits_val_def)

lemma parse_wildcard_port: "parse_socket_addr (''0.0.0.0:'' @ show_u16 p) = Some (V4 wildcard p)"
  using read_port_show_u16 [of p]
  by (simp add: parse_socket_addr_def read_socket_addr_v4_def read_ipv4_addr_def read_octet_zero
      wildcard_def)

end
