(* ===== verification/Server_Config.thy ===== *)
theory Server_Config
  imports Rust_Net
begin

text \<open>
  The configuration of \<open>tunnel-server\<close> (\<open>hub/images/tunnel-server/src/main.rs\<close>, section
  \<open>Config\<close>): the parser of \<open>TUNNEL_SPOKES\<close>, the listen addresses and the path allowlist.
  Shown: every accepted configuration is well formed, a printed configuration is read back, and
  which inputs are refused.
\<close>

section \<open>Data\<close>

record spoke_port_binding =
  pb_port :: u16
  pb_target :: string

datatype spoke_kind = Cluster | Application

record spoke_config =
  sc_spoke_id :: string
  sc_kind :: spoke_kind
  sc_ports :: "spoke_port_binding list"
  sc_token :: string

record server_config =
  grpc_listen :: sock_addr
  metrics_listen :: sock_addr
  spokes :: "string \<rightharpoonup> spoke_config"
  kernel_url :: string
  allowed_paths :: "string set"

datatype config_error =
    BadListen string
  | SpokesRequired
  | BadEntry string
  | EmptyTarget string
  | BadPort string string int_error
  | NoPorts string

section \<open>Operations\<close>

definition env_default :: "env \<Rightarrow> string \<Rightarrow> string \<Rightarrow> string" where
  "env_default env k d =
     (case env k of
        None \<Rightarrow> d
      | Some s \<Rightarrow> if s = [] then d else s)"

definition parse_listen :: "string \<Rightarrow> config_error + sock_addr" where
  "parse_listen s0 =
     (let s = (if starts_with s0 '':'' then ''0.0.0.0'' @ s0 else s0) in
      case parse_socket_addr s of
        None \<Rightarrow> Inl (BadListen s)
      | Some a \<Rightarrow> Inr a)"

definition kind_of :: "string \<Rightarrow> spoke_kind" where
  "kind_of spoke_id = (if starts_with spoke_id ''app-'' then Application else Cluster)"

text \<open>One \<open>port[@target]\<close> item of an entry's port specification (already trimmed, not empty).\<close>

definition parse_binding :: "string \<Rightarrow> string \<Rightarrow> config_error + spoke_port_binding" where
  "parse_binding entry pb =
     bind_result
       (case split_once CHR ''@'' pb of
          Some (before, after) \<Rightarrow>
            (let t = trim after in
             if t = [] then Inl (EmptyTarget entry) else Inr (before, t))
        | None \<Rightarrow> Inr (pb, ''default''))
       (\<lambda>(port_str, target).
          bind_result (map_err (BadPort port_str entry) (parse_u16 port_str))
            (\<lambda>port. Inr \<lparr>pb_port = port, pb_target = target\<rparr>))"

fun parse_bindings ::
  "string \<Rightarrow> string list \<Rightarrow> spoke_port_binding list \<Rightarrow> config_error + spoke_port_binding list" where
  "parse_bindings entry [] bindings = Inr bindings"
| "parse_bindings entry (pb0 # pbs) bindings =
     (let pb = trim pb0 in
      if pb = [] then parse_bindings entry pbs bindings
      else bind_result (parse_binding entry pb)
             (\<lambda>b. parse_bindings entry pbs (bindings @ [b])))"

definition parse_entry :: "string \<Rightarrow> config_error + spoke_config" where
  "parse_entry entry =
     (case splitn 3 CHR '':'' entry of
        [spoke_id, port_spec, token] \<Rightarrow>
          (let kind = kind_of spoke_id in
           bind_result (parse_bindings entry (split_on CHR '';'' port_spec) [])
             (\<lambda>bindings.
                if kind = Cluster \<and> bindings = [] then Inl (NoPorts entry)
                else Inr \<lparr>sc_spoke_id = spoke_id, sc_kind = kind, sc_ports = bindings,
                          sc_token = token\<rparr>))
      | _ \<Rightarrow> Inl (BadEntry entry))"

fun parse_spokes ::
  "string list \<Rightarrow> (string \<rightharpoonup> spoke_config) \<Rightarrow> config_error + (string \<rightharpoonup> spoke_config)" where
  "parse_spokes [] m = Inr m"
| "parse_spokes (e # es) m =
     (let entry = trim e in
      if entry = [] then parse_spokes es m
      else bind_result (parse_entry entry)
             (\<lambda>sc. parse_spokes es (m(sc_spoke_id sc \<mapsto> sc))))"

definition default_allowed_paths :: "string list" where
  "default_allowed_paths =
     [''/core/orchestrator/triage'',
      ''/core/orchestrator/answer'',
      ''/core/claude/generate-text'',
      ''/core/swallow/generate-text'',
      ''/core/jev/decide'',
      ''/core/embedding/single'',
      ''/core/embedding/batch'',
      ''/core/appspoke/usage-chat'']"

definition load_allowed_paths :: "env \<Rightarrow> string set" where
  "load_allowed_paths env =
     (case env ''TUNNEL_ALLOWED_PATHS'' of
        None \<Rightarrow> set default_allowed_paths
      | Some raw0 \<Rightarrow>
          (let raw = trim raw0 in
           if raw = [] then set default_allowed_paths
           else set (filter (\<lambda>p. p \<noteq> []) (map trim (split_on CHR '','' raw)))))"

definition load_config :: "env \<Rightarrow> config_error + server_config" where
  "load_config env =
     bind_result (parse_listen (env_default env ''TUNNEL_GRPC_LISTEN'' '':8080'')) (\<lambda>grpc.
     bind_result (parse_listen (env_default env ''TUNNEL_METRICS_LISTEN'' '':9090'')) (\<lambda>metrics.
     let raw = trim (case env ''TUNNEL_SPOKES'' of None \<Rightarrow> [] | Some s \<Rightarrow> s) in
     if raw = [] then Inl SpokesRequired
     else
       bind_result (parse_spokes (split_on CHR '','' raw) Map.empty) (\<lambda>spokes.
       Inr \<lparr>grpc_listen = grpc, metrics_listen = metrics, spokes = spokes,
            kernel_url = env_default env ''KERNEL_URL''
              ''http://rag-backend-kernel.rag-company1.svc.cluster.local:8000'',
            allowed_paths = load_allowed_paths env\<rparr>)))"

section \<open>Well-formedness of an accepted configuration\<close>

definition wf_binding :: "spoke_port_binding \<Rightarrow> bool" where
  "wf_binding b \<longleftrightarrow>
     pb_target b \<noteq> [] \<and> trim (pb_target b) = pb_target b \<and>
     set (pb_target b) \<inter> {CHR '':'', CHR '';'', CHR '',''} = {}"

definition wf_spoke_config :: "spoke_config \<Rightarrow> bool" where
  "wf_spoke_config sc \<longleftrightarrow>
     sc_kind sc = (if \<exists>rest. sc_spoke_id sc = ''app-'' @ rest then Application else Cluster) \<and>
     (sc_kind sc = Cluster \<longrightarrow> sc_ports sc \<noteq> []) \<and>
     set (sc_spoke_id sc) \<inter> {CHR '':'', CHR '',''} = {} \<and>
     CHR '','' \<notin> set (sc_token sc) \<and>
     (\<forall>b \<in> set (sc_ports sc). wf_binding b)"

text \<open>The item of \<open>TUNNEL_SPOKES\<close> a spoke was read from names its identifier and its token.\<close>

definition listed_in :: "string \<Rightarrow> spoke_config \<Rightarrow> bool" where
  "listed_in raw sc \<longleftrightarrow>
     (\<exists>item \<in> set (split_on CHR '','' raw). \<exists>ports. CHR '':'' \<notin> set ports \<and>
        trim item = sc_spoke_id sc @ CHR '':'' # ports @ CHR '':'' # sc_token sc)"

lemma kind_of_prefix: "kind_of i = (if \<exists>rest. i = ''app-'' @ rest then Application else Cluster)"
  by (simp add: kind_of_def starts_with_iff)

definition wf_spokes :: "(string \<rightharpoonup> spoke_config) \<Rightarrow> bool" where
  "wf_spokes m \<longleftrightarrow> (\<forall>k sc. m k = Some sc \<longrightarrow> sc_spoke_id sc = k \<and> wf_spoke_config sc)"

lemma parse_binding_wf:
  assumes "parse_binding entry pb = Inr b"
    and "set pb \<inter> {CHR '':'', CHR '';'', CHR '',''} = {}"
  shows "wf_binding b"
proof (cases "split_once CHR ''@'' pb")
  case None
  with assms(1) show ?thesis
    by (auto simp: parse_binding_def wf_binding_def bind_result_Inr_iff)
next
  case (Some ab)
  obtain a t where ab: "ab = (a, t)" by (cases ab)
  from Some ab have pb: "pb = a @ CHR ''@'' # t"
    using split_once_SomeD by blast
  from assms(1) Some ab have b: "pb_target b = trim t" "trim t \<noteq> []"
    by (auto simp: parse_binding_def bind_result_Inr_iff Let_def split: if_splits)
  moreover have "set (trim t) \<subseteq> set pb"
    using set_trim [of t] pb by auto
  ultimately show ?thesis
    using assms(2) by (auto simp: wf_binding_def)
qed

lemma parse_bindings_wf:
  assumes "parse_bindings entry pbs bs = Inr bs'"
    and "\<And>pb. pb \<in> set pbs \<Longrightarrow> set pb \<inter> {CHR '':'', CHR '';'', CHR '',''} = {}"
    and "\<forall>b \<in> set bs. wf_binding b"
  shows "\<forall>b \<in> set bs'. wf_binding b"
  using assms
proof (induction entry pbs bs rule: parse_bindings.induct)
  case (2 entry pb pbs bs)
  have sub: "set (trim pb) \<inter> {CHR '':'', CHR '';'', CHR '',''} = {}"
    using set_trim [of pb] "2.prems"(2) [of pb] by auto
  show ?case
  proof (cases "trim pb = []")
    case True
    with 2 show ?thesis by (simp add: Let_def)
  next
    case False
    with "2.prems"(1) obtain b where b: "parse_binding entry (trim pb) = Inr b"
      and rest: "parse_bindings entry pbs (bs @ [b]) = Inr bs'"
      by (auto simp: Let_def bind_result_Inr_iff)
    from b sub have "wf_binding b" by (rule parse_binding_wf)
    with "2.IH"(2) [OF refl False b rest] "2.prems"(2,3) show ?thesis by auto
  qed
qed simp

lemma splitn3_SomeD:
  assumes "splitn 3 c s = [x, y, z]"
  shows "s = x @ c # y @ c # z" and "c \<notin> set x" and "c \<notin> set y"
proof -
  have n: "(3::nat) = Suc (Suc (Suc 0))" by simp
  from assms obtain r where 1: "split_once c s = Some (x, r)"
    by (auto simp: n split: option.splits)
  with assms have 2: "split_once c r = Some (y, z)"
    by (auto simp: n split: option.splits)
  from split_once_SomeD [OF 1] split_once_SomeD [OF 2]
  show "s = x @ c # y @ c # z" "c \<notin> set x" "c \<notin> set y" by auto
qed

lemma parse_entry_wf:
  assumes "parse_entry entry = Inr sc" and "CHR '','' \<notin> set entry"
  shows "wf_spoke_config sc"
    "\<exists>ports. CHR '':'' \<notin> set ports \<and> entry = sc_spoke_id sc @ CHR '':'' # ports @ CHR '':'' # sc_token sc"
proof -
  from assms(1) obtain i p t where sp: "splitn 3 CHR '':'' entry = [i, p, t]"
    by (auto simp: parse_entry_def split: list.splits)
  note parts = splitn3_SomeD [OF sp]
  from assms(1) sp obtain bs where bs: "parse_bindings entry (split_on CHR '';'' p) [] = Inr bs"
    and sc: "sc = \<lparr>sc_spoke_id = i, sc_kind = kind_of i, sc_ports = bs, sc_token = t\<rparr>"
    and ports: "kind_of i = Cluster \<longrightarrow> bs \<noteq> []"
    by (auto simp: parse_entry_def Let_def bind_result_Inr_iff split: if_splits)
  have "set pb \<inter> {CHR '':'', CHR '';'', CHR '',''} = {}" if "pb \<in> set (split_on CHR '';'' p)" for pb
    using set_split_on [OF that] parts assms(2) by auto
  with bs have "\<forall>b \<in> set bs. wf_binding b"
    by (auto dest: parse_bindings_wf)
  with parts ports assms(2) sc show "wf_spoke_config sc"
    by (simp add: wf_spoke_config_def kind_of_prefix)
  from parts sc show "\<exists>ports. CHR '':'' \<notin> set ports \<and>
      entry = sc_spoke_id sc @ CHR '':'' # ports @ CHR '':'' # sc_token sc" by auto
qed

lemma parse_spokes_wf:
  assumes "parse_spokes es m = Inr m'"
    and "\<And>e. e \<in> set es \<Longrightarrow> CHR '','' \<notin> set e"
    and "wf_spokes m"
  shows "wf_spokes m'"
  using assms
proof (induction es m rule: parse_spokes.induct)
  case (2 e es m)
  show ?case
  proof (cases "trim e = []")
    case True
    with 2 show ?thesis by (simp add: Let_def)
  next
    case False
    with "2.prems"(1) obtain sc where sc: "parse_entry (trim e) = Inr sc"
      and rest: "parse_spokes es (m(sc_spoke_id sc \<mapsto> sc)) = Inr m'"
      by (auto simp: Let_def bind_result_Inr_iff)
    have "CHR '','' \<notin> set (trim e)"
      using set_trim [of e] "2.prems"(2) [of e] by auto
    with sc have "wf_spoke_config sc" by (rule parse_entry_wf(1))
    with "2.prems"(3) have "wf_spokes (m(sc_spoke_id sc \<mapsto> sc))"
      by (auto simp: wf_spokes_def)
    with "2.IH"(2) [OF refl False sc rest] "2.prems"(2) show ?thesis by (simp add: fun_upd_def)
  qed
qed simp

lemma parse_spokes_listed:
  assumes "parse_spokes es m = Inr m'"
    and "\<And>e. e \<in> set es \<Longrightarrow> CHR '','' \<notin> set e"
    and "m' k = Some sc"
  shows "m k = Some sc \<or> (\<exists>e \<in> set es. \<exists>ports. CHR '':'' \<notin> set ports \<and>
    trim e = sc_spoke_id sc @ CHR '':'' # ports @ CHR '':'' # sc_token sc)"
  using assms
proof (induction es m rule: parse_spokes.induct)
  case (2 e es m)
  show ?case
  proof (cases "trim e = []")
    case True
    with "2.IH"(1) [OF refl True] "2.prems" show ?thesis by (auto simp: Let_def)
  next
    case False
    with "2.prems"(1) obtain sc' where sc': "parse_entry (trim e) = Inr sc'"
      and rest: "parse_spokes es (m(sc_spoke_id sc' \<mapsto> sc')) = Inr m'"
      by (auto simp: Let_def bind_result_Inr_iff)
    have "CHR '','' \<notin> set (trim e)" using set_trim [of e] "2.prems"(2) [of e] by auto
    note from_e = parse_entry_wf(2) [OF sc' this]
    have "(m(sc_spoke_id sc' \<mapsto> sc')) k = Some sc \<or> (\<exists>e \<in> set es. \<exists>ports. CHR '':'' \<notin> set ports \<and>
        trim e = sc_spoke_id sc @ CHR '':'' # ports @ CHR '':'' # sc_token sc)"
      using "2.IH"(2) [OF refl False sc'] rest "2.prems"(2,3) by (simp add: fun_upd_def)
    with from_e show ?thesis by (auto split: if_splits)
  qed
qed simp

lemma load_config_spokes:
  assumes "load_config env = Inr cfg"
  shows "\<exists>raw. env ''TUNNEL_SPOKES'' = Some raw \<and> trim raw \<noteq> [] \<and>
               parse_spokes (split_on CHR '','' (trim raw)) Map.empty = Inr (spokes cfg)"
  using assms
  by (auto simp: load_config_def Let_def bind_result_Inr_iff split: if_splits option.splits)

lemma load_config_wf_spokes:
  assumes "load_config env = Inr cfg"
  shows "wf_spokes (spokes cfg)"
proof -
  from load_config_spokes [OF assms] obtain raw where
    "parse_spokes (split_on CHR '','' (trim raw)) Map.empty = Inr (spokes cfg)"
    by blast
  then show ?thesis
    by (rule parse_spokes_wf) (auto dest: set_split_on simp: wf_spokes_def)
qed

text \<open>
  C23. Every spoke of an accepted configuration is stored under its own identifier and comes from an
  item \<open>identifier:ports:token\<close> of \<open>TUNNEL_SPOKES\<close> with this very identifier and token. It is an
  application spoke exactly when the identifier begins with \<open>app-\<close>; a spoke of the other kind has a
  port. No identifier has a colon or a comma, no target a colon, a comma or a semicolon, and every target
  is trimmed and not empty.
\<close>
theorem load_config_wf:
  assumes "load_config env = Inr cfg" and "spokes cfg i = Some sc" and "env ''TUNNEL_SPOKES'' = Some raw"
  shows "sc_spoke_id sc = i \<and> listed_in (trim raw) sc \<and> wf_spoke_config sc"
proof -
  from load_config_spokes [OF assms(1)] assms(3)
  have "parse_spokes (split_on CHR '','' (trim raw)) Map.empty = Inr (spokes cfg)" by auto
  from parse_spokes_listed [OF this _ assms(2)] have "listed_in (trim raw) sc"
    unfolding listed_in_def by (auto dest: set_split_on)
  with load_config_wf_spokes [OF assms(1)] assms(2) show ?thesis by (simp add: wf_spokes_def)
qed

section \<open>Printing and reading back\<close>

definition print_binding :: "spoke_port_binding \<Rightarrow> string" where
  "print_binding b = show_u16 (pb_port b) @ CHR ''@'' # pb_target b"

definition print_entry :: "spoke_config \<Rightarrow> string" where
  "print_entry sc =
     sc_spoke_id sc @ CHR '':'' # join CHR '';'' (map print_binding (sc_ports sc)) @
     CHR '':'' # sc_token sc"

definition print_spokes :: "spoke_config list \<Rightarrow> string" where
  "print_spokes scs = join CHR '','' (map print_entry scs)"

definition printable_binding :: "spoke_port_binding \<Rightarrow> bool" where
  "printable_binding b \<longleftrightarrow>
     bounded_graphic (pb_target b) \<and>
     set (pb_target b) \<inter> {CHR '':'', CHR '';'', CHR '',''} = {}"

definition printable :: "spoke_config \<Rightarrow> bool" where
  "printable sc \<longleftrightarrow>
     bounded_graphic (sc_spoke_id sc) \<and> set (sc_spoke_id sc) \<inter> {CHR '':'', CHR '',''} = {} \<and>
     sc_kind sc = kind_of (sc_spoke_id sc) \<and>
     (sc_kind sc = Cluster \<longrightarrow> sc_ports sc \<noteq> []) \<and>
     (\<forall>b \<in> set (sc_ports sc). printable_binding b) \<and>
     (sc_token sc = [] \<or> bounded_graphic (sc_token sc)) \<and> CHR '','' \<notin> set (sc_token sc)"

text \<open>A token may be empty: nothing in the code asks for one.\<close>

lemma graphic_colon: "graphic CHR '':''" by (simp add: graphic_def)

lemma show_u16_chars: "c \<in> set (show_u16 w) \<Longrightarrow> decimal c"
  by (auto simp: show_u16_def dest: show_nat_decimal)

lemma show_u16_no_sep:
  "CHR ''@'' \<notin> set (show_u16 w)" "CHR '':'' \<notin> set (show_u16 w)"
  "CHR '';'' \<notin> set (show_u16 w)" "CHR '','' \<notin> set (show_u16 w)"
  by (auto dest!: show_u16_chars simp: decimal_def)

lemma show_u16_hd: "show_u16 w \<noteq> []" "graphic (hd (show_u16 w))"
  using show_u16_chars [of "hd (show_u16 w)" w]
  by (auto simp: show_u16_def decimal_graphic)

lemma parse_print_binding:
  assumes "printable_binding b"
  shows "trim (print_binding b) = print_binding b"
    and "parse_binding entry (print_binding b) = Inr b"
proof -
  from assms have t: "bounded_graphic (pb_target b)" by (simp add: printable_binding_def)
  then show "trim (print_binding b) = print_binding b"
    using show_u16_hd [of "pb_port b"]
    by (auto simp: print_binding_def bounded_graphic_def intro!: trim_graphic)
  have "split_once CHR ''@'' (print_binding b) = Some (show_u16 (pb_port b), pb_target b)"
    unfolding print_binding_def by (rule split_once_append) (rule show_u16_no_sep)
  moreover from t have "trim (pb_target b) = pb_target b" "pb_target b \<noteq> []"
    by (auto simp: trim_bounded_graphic bounded_graphic_def)
  ultimately show "parse_binding entry (print_binding b) = Inr b"
    by (simp add: parse_binding_def)
qed

lemma print_binding_nonempty: "print_binding b \<noteq> []"
  by (simp add: print_binding_def)

lemma parse_bindings_print:
  "(\<And>b. b \<in> set bs \<Longrightarrow> printable_binding b) \<Longrightarrow>
   parse_bindings entry (map print_binding bs) acc = Inr (acc @ bs)"
  by (induction bs arbitrary: acc)
    (simp_all add: parse_print_binding print_binding_nonempty Let_def)

lemma print_binding_no_sep:
  assumes "printable_binding b" "c \<in> {CHR '':'', CHR '';'', CHR '',''}"
  shows "c \<notin> set (print_binding b)"
  using assms show_u16_no_sep [of "pb_port b"]
  by (auto simp: print_binding_def printable_binding_def)

lemma parse_bindings_join:
  assumes "\<And>b. b \<in> set bs \<Longrightarrow> printable_binding b"
  shows "parse_bindings entry (split_on CHR '';'' (join CHR '';'' (map print_binding bs))) [] = Inr bs"
proof (cases "bs = []")
  case True
  then show ?thesis by (simp add: Let_def)
next
  case False
  then have "split_on CHR '';'' (join CHR '';'' (map print_binding bs)) = map print_binding bs"
    using assms print_binding_no_sep by (intro split_on_join) auto
  then show ?thesis using parse_bindings_print [of bs entry "[]"] assms by simp
qed

lemma print_ports_no_sep:
  assumes "\<And>b. b \<in> set bs \<Longrightarrow> printable_binding b" "c \<in> {CHR '':'', CHR '',''}"
  shows "c \<notin> set (join CHR '';'' (map print_binding bs))"
  using set_join [of "CHR '';''" "map print_binding bs"] assms print_binding_no_sep by fastforce

lemma parse_print_entry:
  assumes "printable sc"
  shows "parse_entry (print_entry sc) = Inr sc"
    and "trim (print_entry sc) = print_entry sc"
    and "print_entry sc \<noteq> []"
    and "CHR '','' \<notin> set (print_entry sc)"
proof -
  let ?ps = "join CHR '';'' (map print_binding (sc_ports sc))"
  have ports: "\<And>b. b \<in> set (sc_ports sc) \<Longrightarrow> printable_binding b"
    using assms by (simp add: printable_def)
  have "split_once CHR '':'' (print_entry sc) = Some (sc_spoke_id sc, ?ps @ CHR '':'' # sc_token sc)"
    unfolding print_entry_def using assms by (intro split_once_append) (auto simp: printable_def)
  moreover have "split_once CHR '':'' (?ps @ CHR '':'' # sc_token sc) = Some (?ps, sc_token sc)"
    using print_ports_no_sep [OF ports] by (intro split_once_append) auto
  ultimately have "splitn 3 CHR '':'' (print_entry sc) = [sc_spoke_id sc, ?ps, sc_token sc]"
    by (simp add: numeral_3_eq_3)
  moreover have "kind_of (sc_spoke_id sc) = sc_kind sc"
    "\<not> (sc_kind sc = Cluster \<and> sc_ports sc = [])"
    using assms by (auto simp: printable_def)
  ultimately show "parse_entry (print_entry sc) = Inr sc"
    using parse_bindings_join [OF ports] by (auto simp: parse_entry_def Let_def)
  show "trim (print_entry sc) = print_entry sc"
    using assms by (auto simp: printable_def print_entry_def bounded_graphic_def graphic_colon intro!: trim_graphic)
  show "print_entry sc \<noteq> []" by (simp add: print_entry_def)
  show "CHR '','' \<notin> set (print_entry sc)"
    using assms print_ports_no_sep [OF ports] by (auto simp: print_entry_def printable_def)
qed

lemma parse_spokes_print:
  "(\<And>sc. sc \<in> set scs \<Longrightarrow> printable sc) \<Longrightarrow>
   parse_spokes (map print_entry scs) m =
     Inr (foldl (\<lambda>m sc. m(sc_spoke_id sc \<mapsto> sc)) m scs)"
  by (induction scs arbitrary: m) (simp_all add: parse_print_entry Let_def)

lemma bounded_graphic_print_entry: "printable sc \<Longrightarrow> bounded_graphic (print_entry sc)"
  by (auto simp: printable_def print_entry_def bounded_graphic_def graphic_colon)

lemma foldl_upd_distinct:
  "distinct (map sc_spoke_id scs) \<Longrightarrow>
   foldl (\<lambda>m sc. m(sc_spoke_id sc \<mapsto> sc)) m scs = m ++ map_of (map (\<lambda>sc. (sc_spoke_id sc, sc)) scs)"
proof (induction scs arbitrary: m)
  case (Cons a scs)
  have "sc_spoke_id a \<notin> dom (map_of (map (\<lambda>sc. (sc_spoke_id sc, sc)) scs))"
    using Cons.prems by (simp add: dom_map_of_conv_image_fst image_image)
  with Cons show ?case by (auto simp: map_add_def fun_eq_iff split: option.splits)
qed simp

lemma show_nat_rec: "show_nat n = (if n < 10 then [] else show_nat (n div 10)) @ [digit_char (n mod 10)]"
  by (subst show_nat.simps) simp

lemma show_u16_8080: "show_u16 8080 = ''8080''"
  by (simp add: show_u16_def show_nat_rec digit_char_def char_of_def bit_0)

lemma show_u16_9090: "show_u16 9090 = ''9090''"
  by (simp add: show_u16_def show_nat_rec digit_char_def char_of_def bit_0)

lemma default_listens:
  "parse_listen '':8080'' = Inr (V4 wildcard 8080)" "parse_listen '':9090'' = Inr (V4 wildcard 9090)"
  using parse_wildcard_port [of 8080] parse_wildcard_port [of 9090]
  by (simp_all add: parse_listen_def starts_with_def show_u16_8080 show_u16_9090)

lemma load_config_of:
  assumes "scs \<noteq> []" and "\<forall>sc \<in> set scs. printable sc" and "distinct (map sc_spoke_id scs)"
    and "env ''TUNNEL_SPOKES'' = Some (print_spokes scs)"
    and "env ''TUNNEL_GRPC_LISTEN'' = None" and "env ''TUNNEL_METRICS_LISTEN'' = None"
  shows "load_config env =
    Inr \<lparr>grpc_listen = V4 wildcard 8080, metrics_listen = V4 wildcard 9090,
         spokes = map_of (map (\<lambda>sc. (sc_spoke_id sc, sc)) scs),
         kernel_url = env_default env ''KERNEL_URL''
           ''http://rag-backend-kernel.rag-company1.svc.cluster.local:8000'',
         allowed_paths = load_allowed_paths env\<rparr>"
proof -
  have bg: "bounded_graphic (print_spokes scs)"
    unfolding print_spokes_def using assms bounded_graphic_print_entry
    by (intro bounded_graphic_join) auto
  have "split_on CHR '','' (print_spokes scs) = map print_entry scs"
    unfolding print_spokes_def using assms(1,2) parse_print_entry(4)
    by (intro split_on_join) auto
  then have sp: "parse_spokes (split_on CHR '','' (print_spokes scs)) Map.empty =
      Inr (map_of (map (\<lambda>sc. (sc_spoke_id sc, sc)) scs))"
    using assms(2,3) by (simp add: parse_spokes_print foldl_upd_distinct)
  from bg have "trim (print_spokes scs) = print_spokes scs" "print_spokes scs \<noteq> []"
    by (auto simp: trim_bounded_graphic bounded_graphic_def)
  with sp assms(4-6) default_listens show ?thesis
    by (simp add: load_config_def env_default_def)
qed

lemma map_of_spokes_iff:
  "distinct (map sc_spoke_id scs) \<Longrightarrow>
     map_of (map (\<lambda>sc. (sc_spoke_id sc, sc)) scs) sp = Some sc \<longleftrightarrow> sc \<in> set scs \<and> sc_spoke_id sc = sp"
  by (induction scs) (auto simp: image_iff)

lemma load_config_printed:
  assumes "scs \<noteq> []" and "\<forall>sc \<in> set scs. printable sc" and "distinct (map sc_spoke_id scs)"
  shows "load_config [''TUNNEL_SPOKES'' \<mapsto> print_spokes scs] =
    Inr \<lparr>grpc_listen = V4 wildcard 8080, metrics_listen = V4 wildcard 9090,
         spokes = map_of (map (\<lambda>sc. (sc_spoke_id sc, sc)) scs),
         kernel_url = ''http://rag-backend-kernel.rag-company1.svc.cluster.local:8000'',
         allowed_paths = set default_allowed_paths\<rparr>"
  using load_config_of [OF assms, of "[''TUNNEL_SPOKES'' \<mapsto> print_spokes scs]"]
  by (simp add: env_default_def load_allowed_paths_def)

text \<open>
  C24. A configuration printed in the documented \<open>id:port@target;...:token,...\<close> format is read
  back exactly: with the other variables unset, \<open>load_config\<close> succeeds, listens on the default
  ports of every interface, and its table maps each identifier to its spoke and nothing else.
\<close>
theorem load_config_print:
  assumes "scs \<noteq> []" and "\<forall>sc \<in> set scs. printable sc" and "distinct (map sc_spoke_id scs)"
  shows "load_config [''TUNNEL_SPOKES'' \<mapsto> print_spokes scs] =
    Inr \<lparr>grpc_listen = V4 wildcard 8080, metrics_listen = V4 wildcard 9090,
         spokes = map_of (map (\<lambda>sc. (sc_spoke_id sc, sc)) scs),
         kernel_url = ''http://rag-backend-kernel.rag-company1.svc.cluster.local:8000'',
         allowed_paths = set default_allowed_paths\<rparr>"
  using assms by (rule load_config_printed)

definition sample_spokes :: "spoke_config list" where
  "sample_spokes =
     [\<lparr>sc_spoke_id = ''spoke-a'', sc_kind = Cluster,
       sc_ports = [\<lparr>pb_port = 10001, pb_target = ''default''\<rparr>, \<lparr>pb_port = 10011, pb_target = ''api''\<rparr>],
       sc_token = ''s3:cret''\<rparr>,
      \<lparr>sc_spoke_id = ''app-b'', sc_kind = Application, sc_ports = [], sc_token = ''t''\<rparr>]"

lemma sample_spokes_printable:
  "sample_spokes \<noteq> []" "\<forall>sc \<in> set sample_spokes. printable sc"
  "distinct (map sc_spoke_id sample_spokes)"
  by (auto simp: sample_spokes_def printable_def printable_binding_def bounded_graphic_def
      graphic_def kind_of_def starts_with_def)

theorem load_config_print_witness:
  "\<exists>cfg. load_config [''TUNNEL_SPOKES'' \<mapsto> print_spokes sample_spokes] = Inr cfg \<and>
     map_option sc_kind (spokes cfg ''app-b'') = Some Application \<and>
     map_option (map pb_port \<circ> sc_ports) (spokes cfg ''spoke-a'') = Some [10001, 10011]"
  using load_config_print [OF sample_spokes_printable] by (simp add: sample_spokes_def)

theorem load_config_wf_witness:
  "\<exists>cfg sc. load_config [''TUNNEL_SPOKES'' \<mapsto> print_spokes sample_spokes] = Inr cfg \<and>
     spokes cfg ''spoke-a'' = Some sc \<and> listed_in (trim (print_spokes sample_spokes)) sc \<and> wf_spoke_config sc"
proof -
  let ?env = "[''TUNNEL_SPOKES'' \<mapsto> print_spokes sample_spokes]"
  obtain cfg where cfg: "load_config ?env = Inr cfg" and "spokes cfg ''spoke-a'' = Some (hd sample_spokes)"
    using load_config_printed [OF sample_spokes_printable] by (simp add: sample_spokes_def)
  moreover have "?env ''TUNNEL_SPOKES'' = Some (print_spokes sample_spokes)" by simp
  ultimately show ?thesis using load_config_wf [OF cfg] by blast
qed

section \<open>What is refused\<close>

lemma split_once_count:
  "split_once c s = Some (a, b) \<Longrightarrow> count_list s c = Suc (count_list b c)"
  by (drule split_once_SomeD) (auto simp: count_list_append count_notin)

lemma splitn3_iff: "(\<exists>x y z. splitn 3 c s = [x, y, z]) \<longleftrightarrow> 2 \<le> count_list s c"
proof -
  have none: "count_list t c = 0" if "split_once c t = None" for t
    using that by (simp add: split_once_None_iff)
  show ?thesis
    by (auto simp: numeral_3_eq_3 none split_once_count split: option.splits prod.splits)
qed

text \<open>
  An entry is refused as malformed exactly when it has fewer than two colons; the colons after
  the second belong to the token.
\<close>
theorem parse_entry_BadEntry_iff:
  "parse_entry entry = Inl (BadEntry e) \<longleftrightarrow> e = entry \<and> count_list entry CHR '':'' < 2"
proof (cases "\<exists>x y z. splitn 3 CHR '':'' entry = [x, y, z]")
  case True
  then obtain x y z where sp: "splitn 3 CHR '':'' entry = [x, y, z]" by blast
  have "parse_bindings entry pbs bs \<noteq> Inl (BadEntry e)" for pbs bs
    by (induction entry pbs bs rule: parse_bindings.induct)
      (auto simp: Let_def bind_result_Inl_iff parse_binding_def map_err_def
        split: option.splits prod.splits sum.splits if_splits)
  with sp splitn3_iff [of "CHR '':''" entry] show ?thesis
    by (auto simp: parse_entry_def Let_def bind_result_Inl_iff split: if_splits)
next
  case False
  then have "parse_entry entry = Inl (BadEntry entry)"
    by (auto simp: parse_entry_def split: list.splits)
  with False splitn3_iff [of "CHR '':''" entry] show ?thesis by auto
qed

section \<open>The allowlist\<close>

text \<open>
  C33. A deployment given by its spokes, its kernel URL and its allowlist is read back exactly: the allowed
  paths are those printed with commas and no others (the built-in list plays no part), and neither the
  spokes nor the URL disturb them.
\<close>
theorem load_config_allowlist_print:
  assumes "scs \<noteq> []" and "\<forall>sc \<in> set scs. printable sc" and "distinct (map sc_spoke_id scs)"
    and "ps \<noteq> []" and "\<forall>p \<in> set ps. bounded_graphic p \<and> CHR '','' \<notin> set p"
    and "url \<noteq> []"
  shows "\<exists>cfg. load_config [''TUNNEL_SPOKES'' \<mapsto> print_spokes scs, ''KERNEL_URL'' \<mapsto> url,
        ''TUNNEL_ALLOWED_PATHS'' \<mapsto> join CHR '','' ps] = Inr cfg \<and>
     allowed_paths cfg = set ps \<and> kernel_url cfg = url \<and>
     spokes cfg = map_of (map (\<lambda>sc. (sc_spoke_id sc, sc)) scs)"
proof -
  let ?env = "[''TUNNEL_SPOKES'' \<mapsto> print_spokes scs, ''KERNEL_URL'' \<mapsto> url,
      ''TUNNEL_ALLOWED_PATHS'' \<mapsto> join CHR '','' ps]"
  have bg: "bounded_graphic (join CHR '','' ps)" using assms(4,5) by (intro bounded_graphic_join) auto
  have "split_on CHR '','' (join CHR '','' ps) = ps" using assms(4,5) by (intro split_on_join) auto
  moreover have "map trim ps = ps" using assms(5) by (intro map_idI) (auto intro: trim_bounded_graphic)
  moreover have "filter (\<lambda>p. p \<noteq> []) ps = ps" using assms(5) by (auto simp: bounded_graphic_def intro!: filter_True)
  moreover have "join CHR '','' ps \<noteq> []" using bg by (simp add: bounded_graphic_def)
  ultimately have "load_allowed_paths ?env = set ps"
    by (simp add: load_allowed_paths_def trim_bounded_graphic [OF bg])
  with load_config_of [OF assms(1-3), of ?env] assms(6) show ?thesis by (simp add: env_default_def)
qed

theorem load_config_allowlist_print_witness:
  "\<exists>cfg. load_config [''TUNNEL_SPOKES'' \<mapsto> print_spokes sample_spokes, ''KERNEL_URL'' \<mapsto> ''http://k:8000'',
        ''TUNNEL_ALLOWED_PATHS'' \<mapsto> ''/core/a,/core/b''] = Inr cfg \<and>
     allowed_paths cfg = {''/core/a'', ''/core/b''} \<and> kernel_url cfg = ''http://k:8000''"
  using load_config_allowlist_print [OF sample_spokes_printable, of "[''/core/a'', ''/core/b'']" "''http://k:8000''"]
  by (auto simp: bounded_graphic_def graphic_def)

end
