(* ===== verification/Tunnel_Proto.thy ===== *)
theory Tunnel_Proto
  imports Tunnel_Prelude
begin

text \<open>
  The messages of \<open>proto/tunnel.proto\<close> as both programs see them: one record per message, one
  datatype per \<open>oneof\<close> (an absent \<open>oneof\<close> is \<open>None\<close>). The wire encoding is generated code and is
  not modelled. A \<open>map<string, string>\<close> that the code iterates over is an association list: the
  list order is the (unspecified) iteration order of the \<open>HashMap\<close>.
\<close>

type_synonym headers = "(string \<times> string) list"

record handshake_challenge =
  nonce :: bytes
  issued_at :: i64

record handshake_response =
  hs_spoke_id :: string
  hs_signature :: bytes
  hs_client_ver :: string

record open_stream =
  os_protocol :: string
  os_target :: string

record close_stream =
  cs_half :: bool
  cs_reason :: string

record http_request =
  rq_method :: string
  rq_path :: string
  rq_headers :: headers
  rq_body :: bytes

record http_response =
  rs_status :: i32
  rs_headers :: headers
  rs_body :: bytes
  rs_error :: string

datatype server_kind =
    Challenge handshake_challenge
  | Open open_stream
  | SData bytes
  | SClose close_stream
  | Ping i64
  | SHttpResponse http_response

datatype client_kind =
    Handshake handshake_response
  | CData bytes
  | CClose close_stream
  | Pong i64
  | CHttpRequest http_request

record server_frame =
  sf_stream_id :: u64
  sf_kind :: "server_kind option"

record client_frame =
  cf_stream_id :: u64
  cf_kind :: "client_kind option"

text \<open>The payloads that a sequence of frames carries for one stream, in order.\<close>

fun client_payloads :: "u64 \<Rightarrow> client_frame list \<Rightarrow> bytes list" where
  "client_payloads sid [] = []"
| "client_payloads sid (f # fs) =
     (case cf_kind f of
        Some (CData p) \<Rightarrow>
          if cf_stream_id f = sid then p # client_payloads sid fs else client_payloads sid fs
      | _ \<Rightarrow> client_payloads sid fs)"

fun server_payloads :: "u64 \<Rightarrow> server_frame list \<Rightarrow> bytes list" where
  "server_payloads sid [] = []"
| "server_payloads sid (f # fs) =
     (case sf_kind f of
        Some (SData p) \<Rightarrow>
          if sf_stream_id f = sid then p # server_payloads sid fs else server_payloads sid fs
      | _ \<Rightarrow> server_payloads sid fs)"

lemma client_payloads_append [simp]:
  "client_payloads sid (xs @ ys) = client_payloads sid xs @ client_payloads sid ys"
  by (induction xs) (auto split: option.splits client_kind.splits)

lemma server_payloads_append [simp]:
  "server_payloads sid (xs @ ys) = server_payloads sid xs @ server_payloads sid ys"
  by (induction xs) (auto split: option.splits server_kind.splits)

section \<open>Header maps\<close>

text \<open>
  Collecting the headers of an HTTP message into a map, as both programs do: the list has the headers
  in order with the result of \<open>HeaderValue::to_str\<close>, a value that is not text is skipped.
\<close>

fun collect_headers :: "(string \<times> string option) list \<Rightarrow> headers \<Rightarrow> headers" where
  "collect_headers [] m = m"
| "collect_headers ((k, v) # hs) m =
     collect_headers hs (case v of Some t \<Rightarrow> AList.update k t m | None \<Rightarrow> m)"

text \<open>
  Per name the last value that is text stays, so a repeated header such as \<open>set-cookie\<close> loses all
  but one value.
\<close>

lemma map_of_collect_headers:
  "map_of (collect_headers hs m) k =
     (case filter (\<lambda>(k', v). k' = k \<and> v \<noteq> None) hs of
        [] \<Rightarrow> map_of m k
      | xs \<Rightarrow> snd (last xs))"
proof (induction hs arbitrary: m)
  case (Cons kv hs)
  obtain k' v where kv: "kv = (k', v)" by (cases kv)
  show ?case
  proof (cases v)
    case None
    with Cons kv show ?thesis by simp
  next
    case (Some t)
    with Cons [of "AList.update k' t m"] kv show ?thesis
      by (auto simp: update_conv' split: list.splits)
  qed
qed simp

lemma distinct_collect_headers:
  "distinct (map fst m) \<Longrightarrow> distinct (map fst (collect_headers hs m))"
  by (induction hs m rule: collect_headers.induct)
    (auto simp: distinct_update split: option.splits)

section \<open>Stream identifiers\<close>

text \<open>
  The two halves of the identifier space: the hub numbers virtual TCP streams from 1, a spoke
  numbers its HTTP requests from \<open>2^63\<close>.
\<close>

definition hub_range :: "u64 \<Rightarrow> bool" where
  "hub_range w \<longleftrightarrow> 0 < unat w \<and> unat w < 2 ^ 63"

definition spoke_range :: "u64 \<Rightarrow> bool" where
  "spoke_range w \<longleftrightarrow> 2 ^ 63 \<le> unat w"

lemma ranges_disjoint: "hub_range v \<Longrightarrow> spoke_range w \<Longrightarrow> v \<noteq> w"
  by (auto simp: hub_range_def spoke_range_def)

end
