(* ===== verification/Channels.thy ===== *)
theory Channels
  imports Tunnel_Prelude
begin

text \<open>
  The bounded \<open>tokio::sync::mpsc\<close> channel both programs use: a queue, its capacity, and whether
  the receiver is still alive. A \<open>send\<close> waits while the queue is full, fails once the receiver is
  gone, and otherwise appends. The locale \<open>fifo_channel\<close> states the contract the pumps rely on;
  its consequence for any interleaving of sends and receives is proved once there.
\<close>

record 'a chan =
  ch_queue :: "'a list"
  ch_cap :: nat
  ch_rx :: bool

datatype 'c sent = SendWait | SendErr | SendOk 'c

definition channel :: "nat \<Rightarrow> 'a chan" where
  "channel n = \<lparr>ch_queue = [], ch_cap = n, ch_rx = True\<rparr>"

definition chan_send :: "'a \<Rightarrow> 'a chan \<Rightarrow> 'a chan sent" where
  "chan_send x c =
     (if \<not> ch_rx c then SendErr
      else if length (ch_queue c) < ch_cap c then SendOk (c\<lparr>ch_queue := ch_queue c @ [x]\<rparr>)
      else SendWait)"

definition chan_recv :: "'a chan \<Rightarrow> ('a \<times> 'a chan) option" where
  "chan_recv c =
     (case ch_queue c of [] \<Rightarrow> None | x # xs \<Rightarrow> Some (x, c\<lparr>ch_queue := xs\<rparr>))"

definition chan_drop_rx :: "'a chan \<Rightarrow> 'a chan" where
  "chan_drop_rx c = c\<lparr>ch_rx := False\<rparr>"

section \<open>The contract of a channel\<close>

text \<open>
  A schedule of sends and receives on a channel: a send that waits or fails adds nothing, a receive
  on an empty queue takes nothing. \<open>chan_run\<close> collects what was accepted and what came out.
\<close>

datatype 'a chan_op = OpSend 'a | OpRecv

fun chan_run ::
  "('a \<Rightarrow> 'c \<Rightarrow> 'c sent) \<Rightarrow> ('c \<Rightarrow> ('a \<times> 'c) option) \<Rightarrow> 'a chan_op list \<Rightarrow> 'c \<Rightarrow>
   'a list \<times> 'a list \<times> 'c" where
  "chan_run sf rf [] c = ([], [], c)"
| "chan_run sf rf (OpSend x # ops) c =
     (case sf x c of
        SendOk c' \<Rightarrow> (let (i, out, c'') = chan_run sf rf ops c' in (x # i, out, c''))
      | _ \<Rightarrow> chan_run sf rf ops c)"
| "chan_run sf rf (OpRecv # ops) c =
     (case rf c of
        Some (x, c') \<Rightarrow> (let (i, out, c'') = chan_run sf rf ops c' in (i, x # out, c''))
      | None \<Rightarrow> chan_run sf rf ops c)"

locale fifo_channel =
  fixes send_op :: "'a \<Rightarrow> 'c \<Rightarrow> 'c sent"
    and recv_op :: "'c \<Rightarrow> ('a \<times> 'c) option"
    and contents :: "'c \<Rightarrow> 'a list"
    and capacity :: "'c \<Rightarrow> nat"
  assumes send_appends: "send_op x c = SendOk c' \<Longrightarrow> contents c' = contents c @ [x]"
    and send_capacity: "send_op x c = SendOk c' \<Longrightarrow> capacity c' = capacity c"
    and send_room: "send_op x c = SendOk c' \<Longrightarrow> length (contents c) < capacity c"
    and recv_takes: "recv_op c = Some (x, c') \<Longrightarrow> contents c = x # contents c'"
    and recv_capacity: "recv_op c = Some (x, c') \<Longrightarrow> capacity c' = capacity c"
begin

lemma run_fifo:
  "chan_run send_op recv_op ops c = (i, out, c') \<Longrightarrow> contents c @ i = out @ contents c'"
proof (induction ops arbitrary: c i out)
  case (Cons a ops)
  then show ?case
    by (cases a)
      (fastforce split: sent.splits option.splits prod.splits dest: send_appends recv_takes)+
qed simp

lemma run_bounded:
  "chan_run send_op recv_op ops c = (i, out, c') \<Longrightarrow> length (contents c) \<le> capacity c \<Longrightarrow>
   length (contents c') \<le> capacity c' \<and> capacity c' = capacity c"
proof (induction ops arbitrary: c i out)
  case (Cons a ops)
  show ?case
  proof (cases a)
    case (OpSend x)
    show ?thesis
    proof (cases "send_op x c")
      case (SendOk d)
      with Cons.prems OpSend obtain i' where "chan_run send_op recv_op ops d = (i', out, c')"
        by (auto split: prod.splits)
      moreover have "length (contents d) \<le> capacity d"
        using send_appends [OF SendOk] send_capacity [OF SendOk] send_room [OF SendOk] by simp
      ultimately show ?thesis
        using Cons.IH send_capacity [OF SendOk] by metis
    qed (use Cons OpSend in fastforce)+
  next
    case OpRecv
    show ?thesis
    proof (cases "recv_op c")
      case (Some xd)
      obtain x d where xd: "xd = (x, d)" by (cases xd)
      with Cons.prems OpRecv Some obtain out' where "chan_run send_op recv_op ops d = (i, out', c')"
        by (auto split: prod.splits)
      moreover have "length (contents d) \<le> capacity d"
        using Cons.prems recv_takes [OF Some [unfolded xd]] recv_capacity [OF Some [unfolded xd]]
        by simp
      ultimately show ?thesis
        using Cons.IH recv_capacity [OF Some [unfolded xd]] by metis
    qed (use Cons OpRecv in fastforce)
  qed
qed simp

end

interpretation mpsc: fifo_channel chan_send chan_recv ch_queue ch_cap
  by unfold_locales (auto simp: chan_send_def chan_recv_def split: if_splits list.splits)

lemma chan_send_OkD:
  "chan_send x c = SendOk c' \<Longrightarrow>
     ch_rx c \<and> length (ch_queue c) < ch_cap c \<and> c' = c\<lparr>ch_queue := ch_queue c @ [x]\<rparr>"
  by (auto simp: chan_send_def split: if_splits)

lemma chan_recv_SomeD:
  "chan_recv c = Some (x, c') \<Longrightarrow> ch_queue c = x # ch_queue c' \<and> ch_cap c' = ch_cap c \<and> ch_rx c' = ch_rx c"
  by (auto simp: chan_recv_def split: list.splits)

end
