(* ===== verification/Server_State.thy ===== *)
theory Server_State
  imports Server_Config Tunnel_Proto Channels
begin

text \<open>
  The shared state of \<open>tunnel-server\<close>: the metrics, the session objects, the registry of sessions
  and the tasks. Every \<open>Arc\<close> is an address into a store of the record \<open>server\<close>, so that the
  registry, the tasks and the sessions can share (and lose) an object as in the code. Mutexes are
  held only inside one atomic operation each; the operations of the later theories are the
  segments between two suspension points.
\<close>

section \<open>Metrics\<close>

text \<open>
  A labelled metric is a partial map: a label that was never used has no sample. Prometheus keeps
  \<open>f64\<close> values, exact below \<open>2^53\<close>; the model counts exactly.
\<close>

record metrics =
  connected :: int
  streams_open :: "string \<rightharpoonup> int"
  bytes_sent :: "string \<rightharpoonup> int"
  bytes_recv :: "string \<rightharpoonup> int"
  handshake_fail :: "string \<rightharpoonup> int"
  http_requests :: "string \<times> string \<rightharpoonup> int"

definition metrics_new :: metrics where
  "metrics_new = \<lparr>connected = 0, streams_open = Map.empty, bytes_sent = Map.empty,
     bytes_recv = Map.empty, handshake_fail = Map.empty, http_requests = Map.empty\<rparr>"

text \<open>The families \<open>Metrics::new\<close> registers, with their label names.\<close>

definition metric_families :: "(string \<times> string list) list" where
  "metric_families =
     [(''openspoke_tunnel_connected_spokes'', []),
      (''openspoke_tunnel_streams_open'', [''spoke_id'']),
      (''openspoke_tunnel_bytes_sent_total'', [''spoke_id'']),
      (''openspoke_tunnel_bytes_recv_total'', [''spoke_id'']),
      (''openspoke_tunnel_handshake_failures_total'', [''reason'']),
      (''openspoke_tunnel_http_requests_total'', [''spoke_id'', ''result''])]"

definition sample :: "('l \<rightharpoonup> int) \<Rightarrow> 'l \<Rightarrow> int" where
  "sample m l = (case m l of None \<Rightarrow> 0 | Some v \<Rightarrow> v)"

definition inc_by :: "'l \<Rightarrow> int \<Rightarrow> ('l \<rightharpoonup> int) \<Rightarrow> ('l \<rightharpoonup> int)" where
  "inc_by l n m = m(l \<mapsto> sample m l + n)"

lemma sample_inc_by [simp]:
  "sample (inc_by l n m) l' = (if l' = l then sample m l + n else sample m l')"
  by (simp add: sample_def inc_by_def)

definition fail_handshake :: "string \<Rightarrow> metrics \<Rightarrow> metrics" where
  "fail_handshake reason m = m\<lparr>handshake_fail := inc_by reason 1 (handshake_fail m)\<rparr>"

definition add_streams_open :: "string \<Rightarrow> int \<Rightarrow> metrics \<Rightarrow> metrics" where
  "add_streams_open sp n m = m\<lparr>streams_open := inc_by sp n (streams_open m)\<rparr>"

definition add_bytes_sent :: "string \<Rightarrow> nat \<Rightarrow> metrics \<Rightarrow> metrics" where
  "add_bytes_sent sp n m = m\<lparr>bytes_sent := inc_by sp (int n) (bytes_sent m)\<rparr>"

definition add_bytes_recv :: "string \<Rightarrow> nat \<Rightarrow> metrics \<Rightarrow> metrics" where
  "add_bytes_recv sp n m = m\<lparr>bytes_recv := inc_by sp (int n) (bytes_recv m)\<rparr>"

definition count_http :: "string \<Rightarrow> string \<Rightarrow> metrics \<Rightarrow> metrics" where
  "count_http sp res m = m\<lparr>http_requests := inc_by (sp, res) 1 (http_requests m)\<rparr>"

lemma connected_metric_ops [simp]:
  "connected (fail_handshake r m) = connected m"
  "connected (add_streams_open sp i m) = connected m"
  "connected (add_bytes_sent sp n m) = connected m"
  "connected (add_bytes_recv sp n m) = connected m"
  "connected (count_http sp r m) = connected m"
  by (simp_all add: fail_handshake_def add_streams_open_def add_bytes_sent_def add_bytes_recv_def
      count_http_def)

section \<open>Session objects\<close>

text \<open>
  \<open>SpokeSession\<close>. \<open>ss_tx\<close> is the address of the response channel of the connection that created
  the session; \<open>ss_streams\<close> maps a stream identifier to the address of the virtual stream whose
  writer channel the entry holds.
\<close>

record spoke_session =
  ss_spoke_id :: string
  ss_tx :: nat
  ss_streams :: "u64 \<rightharpoonup> nat"
  ss_closed :: bool

definition session_new :: "string \<Rightarrow> nat \<Rightarrow> spoke_session" where
  "session_new sp tx = \<lparr>ss_spoke_id = sp, ss_tx = tx, ss_streams = Map.empty, ss_closed = False\<rparr>"

text \<open>The response channel of a connection, with the frames tonic already took from it.\<close>

record out_stream =
  ot_chan :: "server_frame chan"
  ot_sent :: "server_frame list"

section \<open>Tasks\<close>

datatype conn_error =
    RecvFirst | ExpectedHandshake | UnknownSpoke string | BadToken string
  | BadBindAddr u16 | ListenErr u16

datatype conn_ret = RetOk | RetErr conn_error

text \<open>The locals of \<open>handle_connection\<close> after the handshake: \<open>hs.spoke_id\<close> and \<open>sc\<close>.\<close>

record conn_ctx =
  cx_id :: string
  cx_sc :: spoke_config

text \<open>
  Where \<open>handle_connection\<close> (with \<open>recv_loop\<close> and \<open>cleanup_session\<close> inlined at their calls) is
  suspended. The session of a connection has the connection's own number as its address.
\<close>

datatype conn_pc =
    CFirst
  | CLock conn_ctx
  | COldFlag conn_ctx nat
  | COldClear conn_ctx nat
  | CInsert conn_ctx
  | CInc conn_ctx
  | CBind conn_ctx "spoke_port_binding list"
  | CRecv conn_ctx
  | CDeliver conn_ctx u64 nat bytes
  | CDropWriter conn_ctx u64
  | CReject conn_ctx server_frame
  | CCloseFlag conn_ctx conn_ret
  | CCloseClear conn_ctx conn_ret
  | CCleanup conn_ctx conn_ret
  | CAbort conn_ret
  | CDone conn_ret

record conn =
  cn_pc :: conn_pc
  cn_rcvd :: "client_frame list"   \<comment> \<open>the frames taken from the request stream so far\<close>

datatype acc_pc = ACheck | AAccept | AInsert u64 nat | AOpen u64 nat | ARoll u64 nat | ADone

text \<open>One \<open>accept_loop\<close> task with its listening socket.\<close>

record acceptor =
  ac_sess :: nat
  ac_port :: u16
  ac_target :: string
  ac_pc :: acc_pc
  ac_abort :: bool

datatype up_pc = UpIdle | UpRead | UpSend bytes | UpSendClose | UpRemove | UpDone

datatype dn_pc = DnIdle | DnRecv | DnWrite bytes | DnShutdown | DnDone

text \<open>
  One accepted TCP connection: its identifier, its writer channel, the positions of its two pump
  tasks, what was read from the socket, and what was written to it.
\<close>

record vstream =
  vs_sess :: nat
  vs_sid :: u64
  vs_chan :: "bytes chan"
  vs_up :: up_pc
  vs_dn :: dn_pc
  vs_read :: "bytes list"
  vs_written :: "bytes list"
  vs_shut :: bool

datatype http_pc = HRun http_request | HSend server_frame | HDone

record http_task =
  ht_sess :: nat
  ht_sid :: u64
  ht_pc :: http_pc

section \<open>The state of the server\<close>

record server =
  sessions :: "string \<rightharpoonup> nat"
  next_sid :: u64
  mets :: metrics
  conns :: "nat \<rightharpoonup> conn"
  outs :: "nat \<rightharpoonup> out_stream"
  sess :: "nat \<rightharpoonup> spoke_session"
  accs :: "nat \<rightharpoonup> acceptor"
  ports :: "u16 \<rightharpoonup> nat"   \<comment> \<open>which acceptor's socket listens on a port\<close>
  strms :: "nat \<rightharpoonup> vstream"
  https :: "nat \<rightharpoonup> http_task"

definition server_init :: server where
  "server_init = \<lparr>sessions = Map.empty, next_sid = 0, mets = metrics_new, conns = Map.empty,
     outs = Map.empty, sess = Map.empty, accs = Map.empty, ports = Map.empty, strms = Map.empty, https = Map.empty\<rparr>"

definition set_conn_pc :: "nat \<Rightarrow> conn_pc \<Rightarrow> server \<Rightarrow> server" where
  "set_conn_pc c pc s =
     s\<lparr>conns := (conns s)(c := map_option (\<lambda>cn. cn\<lparr>cn_pc := pc\<rparr>) (conns s c))\<rparr>"

definition upd_sess :: "nat \<Rightarrow> (spoke_session \<Rightarrow> spoke_session) \<Rightarrow> server \<Rightarrow> server" where
  "upd_sess a f s = s\<lparr>sess := (sess s)(a := map_option f (sess s a))\<rparr>"

definition upd_acc :: "nat \<Rightarrow> (acceptor \<Rightarrow> acceptor) \<Rightarrow> server \<Rightarrow> server" where
  "upd_acc a f s = s\<lparr>accs := (accs s)(a := map_option f (accs s a))\<rparr>"

definition upd_strm :: "nat \<Rightarrow> (vstream \<Rightarrow> vstream) \<Rightarrow> server \<Rightarrow> server" where
  "upd_strm k f s = s\<lparr>strms := (strms s)(k := map_option f (strms s k))\<rparr>"

definition upd_http :: "nat \<Rightarrow> (http_task \<Rightarrow> http_task) \<Rightarrow> server \<Rightarrow> server" where
  "upd_http h f s = s\<lparr>https := (https s)(h := map_option f (https s h))\<rparr>"

definition upd_mets :: "(metrics \<Rightarrow> metrics) \<Rightarrow> server \<Rightarrow> server" where
  "upd_mets f s = s\<lparr>mets := f (mets s)\<rparr>"

section \<open>Operations of a session\<close>

text \<open>\<open>SpokeSession::send\<close>: one frame into the response channel.\<close>

definition session_send :: "nat \<Rightarrow> server_frame \<Rightarrow> server \<Rightarrow> server sent" where
  "session_send a f s =
     (case sess s a of
        None \<Rightarrow> SendErr
      | Some ss \<Rightarrow>
          (case outs s (ss_tx ss) of
             None \<Rightarrow> SendErr
           | Some ot \<Rightarrow>
               (case chan_send f (ot_chan ot) of
                  SendWait \<Rightarrow> SendWait
                | SendErr \<Rightarrow> SendErr
                | SendOk ch \<Rightarrow> SendOk (s\<lparr>outs := (outs s)(ss_tx ss \<mapsto> ot\<lparr>ot_chan := ch\<rparr>)\<rparr>))))"

text \<open>
  \<open>SpokeSession::close\<close>, its two atomic parts: storing the flag, and (once the lock is taken)
  clearing the map of writers.
\<close>

definition session_close_flag :: "nat \<Rightarrow> server \<Rightarrow> server" where
  "session_close_flag a s = upd_sess a (\<lambda>ss. ss\<lparr>ss_closed := True\<rparr>) s"

definition session_close_clear :: "nat \<Rightarrow> server \<Rightarrow> server" where
  "session_close_clear a s = upd_sess a (\<lambda>ss. ss\<lparr>ss_streams := Map.empty\<rparr>) s"

text \<open>\<open>streams.remove(&sid)\<close>, and the pattern that decrements the gauge only if it was present.\<close>

definition session_remove :: "nat \<Rightarrow> u64 \<Rightarrow> server \<Rightarrow> server" where
  "session_remove a sid s = upd_sess a (\<lambda>ss. ss\<lparr>ss_streams := (ss_streams ss)(sid := None)\<rparr>) s"

definition session_has :: "nat \<Rightarrow> u64 \<Rightarrow> server \<Rightarrow> bool" where
  "session_has a sid s =
     (case sess s a of None \<Rightarrow> False | Some ss \<Rightarrow> ss_streams ss sid \<noteq> None)"

definition spoke_of :: "nat \<Rightarrow> server \<Rightarrow> string" where
  "spoke_of a s = (case sess s a of None \<Rightarrow> [] | Some ss \<Rightarrow> ss_spoke_id ss)"

definition is_closed :: "nat \<Rightarrow> server \<Rightarrow> bool" where
  "is_closed a s = (case sess s a of None \<Rightarrow> True | Some ss \<Rightarrow> ss_closed ss)"

definition session_remove_counted :: "nat \<Rightarrow> u64 \<Rightarrow> server \<Rightarrow> server" where
  "session_remove_counted a sid s =
     (if session_has a sid s
      then upd_mets (add_streams_open (spoke_of a s) (- 1)) (session_remove a sid s)
      else session_remove a sid s)"

section \<open>Views of the state\<close>

text \<open>
  What the invariants observe of the stores: the position and the received frames of a connection,
  the identity of a session object, and the flag and the streams of a session. The lemmas say which
  view each basic update changes.
\<close>

definition pc_of :: "server \<Rightarrow> nat \<Rightarrow> conn_pc option" where
  "pc_of s c = map_option cn_pc (conns s c)"

definition rcvd_of :: "server \<Rightarrow> nat \<Rightarrow> client_frame list option" where
  "rcvd_of s c = map_option cn_rcvd (conns s c)"

definition ident_of :: "server \<Rightarrow> nat \<Rightarrow> (string \<times> nat) option" where
  "ident_of s c = map_option (\<lambda>ss. (ss_spoke_id ss, ss_tx ss)) (sess s c)"

definition closed_of :: "server \<Rightarrow> nat \<Rightarrow> bool option" where
  "closed_of s c = map_option ss_closed (sess s c)"

definition streams_of :: "server \<Rightarrow> nat \<Rightarrow> u64 \<Rightarrow> nat option" where
  "streams_of s c sid = (case sess s c of None \<Rightarrow> None | Some ss \<Rightarrow> ss_streams ss sid)"

lemmas view_defs = pc_of_def rcvd_of_def ident_of_def closed_of_def streams_of_def

lemmas state_ops =
  set_conn_pc_def upd_sess_def upd_acc_def upd_strm_def upd_http_def upd_mets_def
  session_close_flag_def session_close_clear_def session_remove_def session_remove_counted_def

lemma pc_of_ops [simp]:
  "pc_of (set_conn_pc c pc s) d =
     (if d = c then map_option (\<lambda>_. pc) (pc_of s c) else pc_of s d)"
  "pc_of (upd_sess a f s) d = pc_of s d" "pc_of (upd_acc a g s) d = pc_of s d"
  "pc_of (upd_strm a h s) d = pc_of s d" "pc_of (upd_http a j s) d = pc_of s d"
  "pc_of (upd_mets m s) d = pc_of s d"
  "pc_of (session_close_flag a s) d = pc_of s d" "pc_of (session_close_clear a s) d = pc_of s d"
  "pc_of (session_remove a sid s) d = pc_of s d"
  "pc_of (session_remove_counted a sid s) d = pc_of s d"
  "pc_of (s\<lparr>sessions := x1\<rparr>) d = pc_of s d" "pc_of (s\<lparr>next_sid := x2\<rparr>) d = pc_of s d"
  "pc_of (s\<lparr>mets := x3\<rparr>) d = pc_of s d" "pc_of (s\<lparr>outs := x4\<rparr>) d = pc_of s d"
  "pc_of (s\<lparr>sess := x5\<rparr>) d = pc_of s d" "pc_of (s\<lparr>accs := x6\<rparr>) d = pc_of s d"
  "pc_of (s\<lparr>ports := x7\<rparr>) d = pc_of s d" "pc_of (s\<lparr>strms := x8\<rparr>) d = pc_of s d"
  "pc_of (s\<lparr>https := x9\<rparr>) d = pc_of s d"
  by (simp_all add: pc_of_def state_ops option.map_comp comp_def)

lemma rcvd_of_ops [simp]:
  "rcvd_of (set_conn_pc c pc s) d = rcvd_of s d"
  "rcvd_of (upd_sess a f s) d = rcvd_of s d" "rcvd_of (upd_acc a g s) d = rcvd_of s d"
  "rcvd_of (upd_strm a h s) d = rcvd_of s d" "rcvd_of (upd_http a j s) d = rcvd_of s d"
  "rcvd_of (upd_mets m s) d = rcvd_of s d"
  "rcvd_of (session_close_flag a s) d = rcvd_of s d"
  "rcvd_of (session_close_clear a s) d = rcvd_of s d"
  "rcvd_of (session_remove a sid s) d = rcvd_of s d"
  "rcvd_of (session_remove_counted a sid s) d = rcvd_of s d"
  "rcvd_of (s\<lparr>sessions := x1\<rparr>) d = rcvd_of s d" "rcvd_of (s\<lparr>next_sid := x2\<rparr>) d = rcvd_of s d"
  "rcvd_of (s\<lparr>mets := x3\<rparr>) d = rcvd_of s d" "rcvd_of (s\<lparr>outs := x4\<rparr>) d = rcvd_of s d"
  "rcvd_of (s\<lparr>sess := x5\<rparr>) d = rcvd_of s d" "rcvd_of (s\<lparr>accs := x6\<rparr>) d = rcvd_of s d"
  "rcvd_of (s\<lparr>ports := x7\<rparr>) d = rcvd_of s d" "rcvd_of (s\<lparr>strms := x8\<rparr>) d = rcvd_of s d"
  "rcvd_of (s\<lparr>https := x9\<rparr>) d = rcvd_of s d"
  by (simp_all add: rcvd_of_def state_ops option.map_comp comp_def)

lemma ident_of_upd_sess:
  "(\<And>ss. ss_spoke_id (f ss) = ss_spoke_id ss \<and> ss_tx (f ss) = ss_tx ss) \<Longrightarrow>
   ident_of (upd_sess a f s) d = ident_of s d"
  by (simp add: ident_of_def upd_sess_def option.map_comp comp_def)

lemma ident_of_ops [simp]:
  "ident_of (set_conn_pc c pc s) d = ident_of s d"
  "ident_of (upd_acc a g s) d = ident_of s d"
  "ident_of (upd_strm a h s) d = ident_of s d" "ident_of (upd_http a j s) d = ident_of s d"
  "ident_of (upd_mets m s) d = ident_of s d"
  "ident_of (session_close_flag a s) d = ident_of s d"
  "ident_of (session_close_clear a s) d = ident_of s d"
  "ident_of (session_remove a sid s) d = ident_of s d"
  "ident_of (session_remove_counted a sid s) d = ident_of s d"
  "ident_of (s\<lparr>sessions := x1\<rparr>) d = ident_of s d" "ident_of (s\<lparr>next_sid := x2\<rparr>) d = ident_of s d"
  "ident_of (s\<lparr>mets := x3\<rparr>) d = ident_of s d" "ident_of (s\<lparr>outs := x4\<rparr>) d = ident_of s d"
  "ident_of (s\<lparr>conns := x5\<rparr>) d = ident_of s d" "ident_of (s\<lparr>accs := x6\<rparr>) d = ident_of s d"
  "ident_of (s\<lparr>ports := x7\<rparr>) d = ident_of s d" "ident_of (s\<lparr>strms := x8\<rparr>) d = ident_of s d"
  "ident_of (s\<lparr>https := x9\<rparr>) d = ident_of s d"
  by (simp_all add: ident_of_def state_ops option.map_comp comp_def)

lemma ident_of_new [simp]:
  "ident_of (s\<lparr>sess := (sess t)(c \<mapsto> x)\<rparr>) d =
     (if d = c then Some (ss_spoke_id x, ss_tx x) else ident_of t d)"
  by (simp add: ident_of_def)

lemma sessions_ops [simp]:
  "sessions (set_conn_pc c pc s) = sessions s"
  "sessions (upd_sess a f s) = sessions s" "sessions (upd_acc a g s) = sessions s"
  "sessions (upd_strm a h s) = sessions s" "sessions (upd_http a j s) = sessions s"
  "sessions (upd_mets m s) = sessions s"
  "sessions (session_close_flag a s) = sessions s" "sessions (session_close_clear a s) = sessions s"
  "sessions (session_remove a sid s) = sessions s"
  "sessions (session_remove_counted a sid s) = sessions s"
  by (simp_all add: state_ops)

lemma session_send_OkD:
  assumes "session_send a f s = SendOk s'"
  shows "\<exists>ss ot ch. sess s a = Some ss \<and> outs s (ss_tx ss) = Some ot \<and>
     chan_send f (ot_chan ot) = SendOk ch \<and>
     s' = s\<lparr>outs := (outs s)(ss_tx ss \<mapsto> ot\<lparr>ot_chan := ch\<rparr>)\<rparr>"
  using assms by (auto simp: session_send_def split: option.splits sent.splits)

lemma session_send_frame:
  assumes "session_send a f s = SendOk s'"
  shows "\<exists>x. s' = s\<lparr>outs := x\<rparr>"
  using session_send_OkD [OF assms] by blast

end
