(* ===== verification/Server_Http.thy ===== *)
theory Server_Http
  imports Server_State
begin

text \<open>
  \<open>handle_http_request\<close> of \<open>tunnel-server\<close>: the path allowlist, the request that is forwarded to the
  hub kernel, and the single response frame. The HTTP client (reqwest) is a parameter: the record
  \<open>http_env\<close> holds what its method parser accepts and what sending a request returns. Shown: a
  spoke cannot reach a path outside the allowlist, cannot choose the host, and cannot forge the
  identity header; every request is answered with one frame of its own stream identifier.
\<close>

section \<open>The HTTP client as a parameter\<close>

record kernel_request =
  kr_method :: string
  kr_url :: string
  kr_headers :: headers
  kr_body :: bytes

text \<open>
  A reply: the status, the headers in order with the result of \<open>HeaderValue::to_str\<close>, and the body
  or the text of the error that reading it gave.
\<close>

record kernel_reply =
  kp_status :: u16
  kp_headers :: "(string \<times> string option) list"
  kp_body :: "string + bytes"

record http_env =
  he_method_ok :: "string \<Rightarrow> bool"
  he_send :: "kernel_request \<Rightarrow> string + kernel_reply"

section \<open>The forwarded request\<close>

definition reserved_header :: "string \<Rightarrow> bool" where
  "reserved_header k \<longleftrightarrow> starts_with (to_ascii_lowercase k) ''x-openspoke-''"

definition forward_headers :: "headers \<Rightarrow> headers" where
  "forward_headers hs =
     filter (\<lambda>(k, v). \<not> eq_ignore_ascii_case k ''host'' \<and> \<not> reserved_header k) hs"

definition kernel_request_of :: "server_config \<Rightarrow> http_env \<Rightarrow> string \<Rightarrow> http_request \<Rightarrow> kernel_request" where
  "kernel_request_of cfg env sp req =
     \<lparr>kr_method = (if he_method_ok env (rq_method req) then rq_method req else ''GET''),
      kr_url = kernel_url cfg @ rq_path req,
      kr_headers = forward_headers (rq_headers req) @ [(''x-openspoke-spoke-id'', sp)],
      kr_body = rq_body req\<rparr>"

section \<open>The response frame\<close>

definition http_response_frame :: "u64 \<Rightarrow> http_response \<Rightarrow> server_frame" where
  "http_response_frame sid r = \<lparr>sf_stream_id = sid, sf_kind = Some (SHttpResponse r)\<rparr>"

lemma http_response_frame_eq [simp]:
  "http_response_frame sid r = http_response_frame sid' r' \<longleftrightarrow> sid = sid' \<and> r = r'"
  by (simp add: http_response_frame_def)

definition handle_http_request ::
  "server_config \<Rightarrow> http_env \<Rightarrow> u64 \<Rightarrow> http_request \<Rightarrow> string \<Rightarrow> metrics \<Rightarrow> server_frame \<times> metrics" where
  "handle_http_request cfg env sid req sp m =
     (if rq_path req \<notin> allowed_paths cfg then
        (http_response_frame sid
           \<lparr>rs_status = 403, rs_headers = [],
            rs_body = as_bytes (''path not allowed: '' @ rq_path req),
            rs_error = ''rejected_path''\<rparr>,
         count_http sp ''rejected_path'' m)
      else
        (case he_send env (kernel_request_of cfg env sp req) of
           Inl e \<Rightarrow>
             (http_response_frame sid
                \<lparr>rs_status = 0, rs_headers = [], rs_body = [], rs_error = ''upstream error: '' @ e\<rparr>,
              count_http sp ''upstream_err'' m)
         | Inr resp \<Rightarrow>
             (let headers = collect_headers (kp_headers resp) [] in
              case kp_body resp of
                Inl e \<Rightarrow>
                  (http_response_frame sid
                     \<lparr>rs_status = 0, rs_headers = [], rs_body = [],
                      rs_error = ''upstream body error: '' @ e\<rparr>,
                   count_http sp ''upstream_err'' m)
              | Inr body \<Rightarrow>
                  (http_response_frame sid
                     \<lparr>rs_status = word_of_nat (unat (kp_status resp)), rs_headers = headers,
                      rs_body = body, rs_error = []\<rparr>,
                   count_http sp ''ok'' m))))"

text \<open>The refusal \<open>recv_loop\<close> sends to a spoke that is not an application spoke.\<close>

definition reject_kind_frame :: "u64 \<Rightarrow> server_frame" where
  "reject_kind_frame sid =
     http_response_frame sid
       \<lparr>rs_status = 403, rs_headers = [], rs_body = as_bytes ''application spoke required'',
        rs_error = ''rejected_kind''\<rparr>"

section \<open>Tasks\<close>

text \<open>One spawned \<open>handle_http_request\<close>: the kernel call, then the send on the session.\<close>

definition http_run :: "server_config \<Rightarrow> http_env \<Rightarrow> nat \<Rightarrow> server \<Rightarrow> server option" where
  "http_run cfg env h s =
     (case https s h of
        Some t \<Rightarrow>
          (case ht_pc t of
             HRun req \<Rightarrow>
               (let (f, m) = handle_http_request cfg env (ht_sid t) req (spoke_of (ht_sess t) s) (mets s)
                in Some (upd_http h (\<lambda>t. t\<lparr>ht_pc := HSend f\<rparr>) (s\<lparr>mets := m\<rparr>)))
           | _ \<Rightarrow> None)
      | None \<Rightarrow> None)"

definition http_send :: "nat \<Rightarrow> server \<Rightarrow> server option" where
  "http_send h s =
     (case https s h of
        Some t \<Rightarrow>
          (case ht_pc t of
             HSend f \<Rightarrow>
               (case session_send (ht_sess t) f s of
                  SendWait \<Rightarrow> None
                | SendErr \<Rightarrow> Some (upd_http h (\<lambda>t. t\<lparr>ht_pc := HDone\<rparr>) s)
                | SendOk s' \<Rightarrow> Some (upd_http h (\<lambda>t. t\<lparr>ht_pc := HDone\<rparr>) s'))
           | _ \<Rightarrow> None)
      | None \<Rightarrow> None)"

section \<open>What reaches the kernel\<close>

lemma reserved_spoke_id [simp]: "reserved_header ''x-openspoke-spoke-id''"
  by (simp add: reserved_header_def starts_with_def to_ascii_lowercase_def ascii_lower_def)

lemma forward_headers_not_reserved:
  "(k, v) \<in> set (forward_headers hs) \<Longrightarrow> \<not> reserved_header k"
  by (auto simp: forward_headers_def)

lemma kernel_reserved_headers:
  "filter (\<lambda>(k, v). starts_with (to_ascii_lowercase k) ''x-openspoke-'')
       (kr_headers (kernel_request_of cfg env sp req)) =
     [(''x-openspoke-spoke-id'', sp)]"
proof -
  have "filter (\<lambda>(k, v). reserved_header k) (forward_headers (rq_headers req)) = []"
    by (auto simp: filter_empty_conv dest: forward_headers_not_reserved)
  then have "filter (\<lambda>(k, v). reserved_header k) (kr_headers (kernel_request_of cfg env sp req)) =
     [(''x-openspoke-spoke-id'', sp)]"
    by (simp add: kernel_request_of_def)
  then show ?thesis by (simp only: reserved_header_def)
qed

text \<open>
  C2. Whatever headers a spoke sends, in whatever letter case, the forwarded request carries exactly
  one header of the reserved \<open>x-openspoke-\<close> family: the hub's own, with the identifier of the
  authenticated session.
\<close>
theorem identity_header_not_forgeable:
  "filter (\<lambda>(k, v). starts_with (to_ascii_lowercase k) ''x-openspoke-'')
       (kr_headers (kernel_request_of cfg env sp req)) =
     [(''x-openspoke-spoke-id'', sp)]"
  by (rule kernel_reserved_headers)

text \<open>
  C3. The kernel is only ever asked about allowlisted paths: whenever the answer depends on the HTTP
  client, it depends on its reply to one request, whose URL is the kernel URL followed by a path of
  the allowlist.
\<close>
theorem only_allowed_urls_reach_kernel:
  assumes "handle_http_request cfg \<lparr>he_method_ok = ok, he_send = f\<rparr> sid req sp m \<noteq>
           handle_http_request cfg \<lparr>he_method_ok = ok, he_send = g\<rparr> sid req sp m"
  shows "\<exists>(kr :: kernel_request) p. f kr \<noteq> g kr \<and> p \<in> allowed_paths cfg \<and> kr_url kr = kernel_url cfg @ p"
proof -
  let ?kr = "kernel_request_of cfg \<lparr>he_method_ok = ok, he_send = f\<rparr> sp req"
  have same: "kernel_request_of cfg \<lparr>he_method_ok = ok, he_send = g\<rparr> sp req = ?kr"
    by (simp add: kernel_request_of_def)
  have "rq_path req \<in> allowed_paths cfg"
    by (rule ccontr) (use assms in \<open>simp add: handle_http_request_def\<close>)
  moreover from this assms same have "f ?kr \<noteq> g ?kr"
    by (auto simp: handle_http_request_def)
  moreover have "kr_url ?kr = kernel_url cfg @ rq_path req"
    by (simp add: kernel_request_of_def)
  ultimately show ?thesis by blast
qed

theorem only_allowed_urls_reach_kernel_witness:
  "\<exists>(kr :: kernel_request) p. (Inl ''down'' :: string + kernel_reply) \<noteq> Inl ''slow'' \<and> p \<in> {''/a''} \<and>
     kr_url kr = ''http://k'' @ p"
proof -
  let ?cfg = "\<lparr>grpc_listen = V4 wildcard 1, metrics_listen = V4 wildcard 2, spokes = Map.empty,
         kernel_url = ''http://k'', allowed_paths = {''/a''}\<rparr>"
  let ?req = "\<lparr>rq_method = ''POST'', rq_path = ''/a'', rq_headers = [], rq_body = []\<rparr>"
  have "handle_http_request ?cfg \<lparr>he_method_ok = (\<lambda>_. True), he_send = (\<lambda>_. Inl ''down'')\<rparr> 9 ?req ''app-x'' metrics_new \<noteq>
        handle_http_request ?cfg \<lparr>he_method_ok = (\<lambda>_. True), he_send = (\<lambda>_. Inl ''slow'')\<rparr> 9 ?req ''app-x'' metrics_new"
    by (simp add: handle_http_request_def http_response_frame_def)
  from only_allowed_urls_reach_kernel [OF this] show ?thesis by simp
qed

section \<open>The verdict on a request\<close>

text \<open>
  What the kernel is asked on behalf of \<open>sp\<close>: the method if the HTTP client can parse it and otherwise
  \<open>GET\<close>, the kernel URL followed by the path, the body, the hub's identity header and no other header of
  the reserved family, and every header of the spoke that is neither reserved nor \<open>host\<close>.
\<close>

definition asks_for :: "server_config \<Rightarrow> http_env \<Rightarrow> string \<Rightarrow> http_request \<Rightarrow> kernel_request \<Rightarrow> bool" where
  "asks_for cfg env sp req kr \<longleftrightarrow>
     kr_method kr = (if he_method_ok env (rq_method req) then rq_method req else ''GET'') \<and>
     kr_url kr = kernel_url cfg @ rq_path req \<and> kr_body kr = rq_body req \<and>
     filter (\<lambda>(k, v). starts_with (to_ascii_lowercase k) ''x-openspoke-'') (kr_headers kr) =
       [(''x-openspoke-spoke-id'', sp)] \<and>
     filter (\<lambda>(k, v). \<not> starts_with (to_ascii_lowercase k) ''x-openspoke-'') (kr_headers kr) =
       filter (\<lambda>(k, v). to_ascii_lowercase k \<noteq> ''host'' \<and> \<not> starts_with (to_ascii_lowercase k) ''x-openspoke-'')
         (rq_headers req)"

text \<open>
  The response a request deserves, and the label under which it is counted: a refusal, an error of the
  kernel, or the kernel's own status, headers and body.
\<close>

definition verdict :: "server_config \<Rightarrow> http_env \<Rightarrow> string \<Rightarrow> http_request \<Rightarrow> string \<Rightarrow> http_response \<Rightarrow> bool" where
  "verdict cfg env sp req res r \<longleftrightarrow>
     (if rq_path req \<notin> allowed_paths cfg
      then res = ''rejected_path'' \<and> rs_status r = 403 \<and> rs_error r = ''rejected_path'' \<and> rs_headers r = [] \<and>
        rs_body r = as_bytes (''path not allowed: '' @ rq_path req)
      else \<exists>kr. asks_for cfg env sp req kr \<and>
        (case he_send env kr of
           Inl e \<Rightarrow> res = ''upstream_err'' \<and> rs_status r = 0 \<and> rs_error r = ''upstream error: '' @ e \<and>
             rs_headers r = [] \<and> rs_body r = []
         | Inr resp \<Rightarrow>
             (case kp_body resp of
                Inl e \<Rightarrow> res = ''upstream_err'' \<and> rs_status r = 0 \<and> rs_error r = ''upstream body error: '' @ e \<and>
                  rs_headers r = [] \<and> rs_body r = []
              | Inr body \<Rightarrow> res = ''ok'' \<and> sint (rs_status r) = int (unat (kp_status resp)) \<and> rs_error r = [] \<and>
                  rs_headers r = collect_headers (kp_headers resp) [] \<and> rs_body r = body)))"

lemma kernel_request_asks: "asks_for cfg env sp req (kernel_request_of cfg env sp req)"
proof -
  have host: "to_ascii_lowercase ''host'' = ''host''"
    by (simp add: to_ascii_lowercase_def ascii_lower_def)
  have own: "starts_with (to_ascii_lowercase ''x-openspoke-spoke-id'') ''x-openspoke-''"
    using reserved_spoke_id by (simp only: reserved_header_def)
  from kernel_reserved_headers [of cfg env sp req] host own show ?thesis
    by (auto simp: asks_for_def kernel_request_of_def forward_headers_def eq_ignore_ascii_case_def
        reserved_header_def intro!: filter_cong)
qed

lemma sint_status: "sint (word_of_nat (unat (w :: u16)) :: i32) = int (unat w)"
proof -
  have "unat w < 65536" by (rule unat_u16_less)
  then have "uint (word_of_nat (unat w) :: i32) = int (unat w)"
    by (simp add: uint_nat unat_of_nat del: of_nat_unat)
  with \<open>unat w < 65536\<close> show ?thesis
    by (simp add: sint_uint signed_take_bit_int_eq_self del: of_nat_unat)
qed

lemma verdictE:
  assumes "verdict cfg env sp req res r"
  obtains (Refused) "rq_path req \<notin> allowed_paths cfg" "res = ''rejected_path''" "rs_status r = 403"
      "rs_error r = ''rejected_path''" "rs_headers r = []" "rs_body r = as_bytes (''path not allowed: '' @ rq_path req)"
  | (Failed) e where "rq_path req \<in> allowed_paths cfg" "res = ''upstream_err''" "rs_status r = 0"
      "rs_error r = ''upstream '' @ e" "rs_headers r = []" "rs_body r = []"
  | (Passed) kr resp where "rq_path req \<in> allowed_paths cfg" "asks_for cfg env sp req kr"
      "he_send env kr = Inr resp" "kp_body resp = Inr (rs_body r)" "res = ''ok''"
      "sint (rs_status r) = int (unat (kp_status resp))" "rs_error r = []"
      "rs_headers r = collect_headers (kp_headers resp) []"
proof (cases "rq_path req \<in> allowed_paths cfg")
  case False
  with assms Refused show thesis by (simp add: verdict_def)
next
  case True
  with assms obtain kr where kr: "asks_for cfg env sp req kr"
    and v: "case he_send env kr of
        Inl e \<Rightarrow> res = ''upstream_err'' \<and> rs_status r = 0 \<and> rs_error r = ''upstream error: '' @ e \<and>
          rs_headers r = [] \<and> rs_body r = []
      | Inr resp \<Rightarrow>
          (case kp_body resp of
             Inl e \<Rightarrow> res = ''upstream_err'' \<and> rs_status r = 0 \<and> rs_error r = ''upstream body error: '' @ e \<and>
               rs_headers r = [] \<and> rs_body r = []
           | Inr body \<Rightarrow> res = ''ok'' \<and> sint (rs_status r) = int (unat (kp_status resp)) \<and> rs_error r = [] \<and>
               rs_headers r = collect_headers (kp_headers resp) [] \<and> rs_body r = body)"
    unfolding verdict_def by auto
  show thesis
  proof (cases "he_send env kr")
    case (Inl e)
    with True v show thesis by (intro Failed [of "''error: '' @ e"]) simp_all
  next
    case send: (Inr resp)
    show thesis
    proof (cases "kp_body resp")
      case (Inl e)
      with True v send show thesis by (intro Failed [of "''body error: '' @ e"]) simp_all
    next
      case (Inr body)
      with True kr v send show thesis by (intro Passed [of kr resp]) simp_all
    qed
  qed
qed

lemma handle_http_verdict:
  obtains r res where "handle_http_request cfg env sid req sp m = (http_response_frame sid r, count_http sp res m)"
    "verdict cfg env sp req res r"
proof (cases "rq_path req \<in> allowed_paths cfg")
  case False
  show thesis
    by (rule that [of "\<lparr>rs_status = 403, rs_headers = [], rs_body = as_bytes (''path not allowed: '' @ rq_path req),
        rs_error = ''rejected_path''\<rparr>" "''rejected_path''"])
      (simp_all add: handle_http_request_def verdict_def False)
next
  case True
  let ?kr = "kernel_request_of cfg env sp req"
  note kr = kernel_request_asks [of cfg env sp req]
  show thesis
  proof (cases "he_send env ?kr")
    case (Inl e)
    show thesis
      by (rule that [of "\<lparr>rs_status = 0, rs_headers = [], rs_body = [], rs_error = ''upstream error: '' @ e\<rparr>"
            "''upstream_err''"])
        (use kr Inl in \<open>auto simp: handle_http_request_def verdict_def True intro!: exI [of _ ?kr]\<close>)
  next
    case send: (Inr resp)
    show thesis
    proof (cases "kp_body resp")
      case (Inl e)
      show thesis
        by (rule that [of "\<lparr>rs_status = 0, rs_headers = [], rs_body = [],
              rs_error = ''upstream body error: '' @ e\<rparr>" "''upstream_err''"])
          (use kr send Inl in \<open>auto simp: handle_http_request_def verdict_def True intro!: exI [of _ ?kr]\<close>)
    next
      case (Inr body)
      show thesis
        by (rule that [of "\<lparr>rs_status = word_of_nat (unat (kp_status resp)),
              rs_headers = collect_headers (kp_headers resp) [], rs_body = body, rs_error = []\<rparr>" "''ok''"])
          (use kr send Inr sint_status [of "kp_status resp"] in
            \<open>auto simp: handle_http_request_def verdict_def True intro!: exI [of _ ?kr]\<close>)
    qed
  qed
qed

text \<open>
  C22. Every request is answered by one \<open>HttpResponse\<close> frame under its own identifier that carries the
  verdict: 403 and \<open>rejected_path\<close>, or status 0 and the error of the kernel, or the status, headers and
  body the kernel returned when asked for exactly this request. The error field tells the three apart,
  and exactly one sample of one metric moves, by one: the count of this spoke and outcome.
\<close>
theorem handle_http_request_answers:
  "\<exists>r res. fst (handle_http_request cfg env sid req sp m) = http_response_frame sid r \<and>
     verdict cfg env sp req res r \<and>
     (res = ''ok'' \<longleftrightarrow> rs_error r = []) \<and> (res = ''rejected_path'' \<longleftrightarrow> rs_error r = ''rejected_path'') \<and>
     (\<forall>k. sample (http_requests (snd (handle_http_request cfg env sid req sp m))) k =
        sample (http_requests m) k + (if k = (sp, res) then 1 else 0)) \<and>
     (snd (handle_http_request cfg env sid req sp m))\<lparr>http_requests := http_requests m\<rparr> = m"
proof -
  obtain r res where r: "handle_http_request cfg env sid req sp m = (http_response_frame sid r, count_http sp res m)"
    "verdict cfg env sp req res r"
    by (rule handle_http_verdict)
  moreover have "(res = ''ok'' \<longleftrightarrow> rs_error r = []) \<and> (res = ''rejected_path'' \<longleftrightarrow> rs_error r = ''rejected_path'')"
    using r(2) by (cases rule: verdictE) auto
  ultimately show ?thesis by (intro exI [of _ r] exI [of _ res]) (simp add: count_http_def)
qed

end
