(* ===== verification/Server_Conn.thy ===== *)
theory Server_Conn
  imports Server_Http
begin

text \<open>
  One \<open>Connect\<close> call on the hub: \<open>TunnelSvc::connect\<close>, \<open>handle_connection\<close>, \<open>recv_loop\<close> and
  \<open>cleanup_session\<close>. Each definition below is one atomic segment of the task, from one suspension
  point to the next; what the network, the operating system or the HTTP client answers is an
  argument. The locals after the handshake travel in \<open>conn_ctx\<close>.
\<close>

section \<open>Inputs\<close>

datatype recv_result = Frame client_frame | RecvError | RecvEnd

text \<open>The outcome of \<open>TcpListener::bind\<close>, with the number of the acceptor task it leads to.\<close>

datatype bind_outcome = BindOk nat | BindErr

datatype conn_input = InRecv recv_result nat | InBind bind_outcome | InStep

section \<open>Opening the stream\<close>

definition challenge_frame :: "bytes \<Rightarrow> i64 \<Rightarrow> server_frame" where
  "challenge_frame n t =
     \<lparr>sf_stream_id = 0, sf_kind = Some (Challenge \<lparr>nonce = n, issued_at = t\<rparr>)\<rparr>"

definition connect :: "nat \<Rightarrow> bytes \<Rightarrow> i64 \<Rightarrow> server \<Rightarrow> server option" where
  "connect c n t s =
     (if conns s c \<noteq> None \<or> outs s c \<noteq> None \<or> sess s c \<noteq> None \<or> length n \<noteq> 32 then None
      else case chan_send (challenge_frame n t) (channel 256) of
             SendOk ch \<Rightarrow>
               Some (s\<lparr>outs := (outs s)(c \<mapsto> \<lparr>ot_chan = ch, ot_sent = []\<rparr>),
                       conns := (conns s)(c \<mapsto> \<lparr>cn_pc = CFirst, cn_rcvd = []\<rparr>)\<rparr>)
           | _ \<Rightarrow> Some (upd_mets (fail_handshake ''send_challenge'') s))"

section \<open>The handshake\<close>

text \<open>The metric label and the error of a refused first frame, or the locals of the session.\<close>

definition check_handshake :: "server_config \<Rightarrow> client_frame \<Rightarrow> (string \<times> conn_error) + conn_ctx" where
  "check_handshake cfg f =
     (case cf_kind f of
        Some (Handshake hs) \<Rightarrow>
          (case spokes cfg (hs_spoke_id hs) of
             None \<Rightarrow> Inl (''unknown_spoke'', UnknownSpoke (hs_spoke_id hs))
           | Some sc \<Rightarrow>
               if hs_signature hs \<noteq> as_bytes (sc_token sc)
               then Inl (''bad_token'', BadToken (hs_spoke_id hs))
               else Inr \<lparr>cx_id = hs_spoke_id hs, cx_sc = sc\<rparr>)
      | _ \<Rightarrow> Inl (''no_handshake'', ExpectedHandshake))"

definition log_frame :: "nat \<Rightarrow> client_frame \<Rightarrow> server \<Rightarrow> server" where
  "log_frame c f s =
     s\<lparr>conns := (conns s)(c := map_option (\<lambda>cn. cn\<lparr>cn_rcvd := cn_rcvd cn @ [f]\<rparr>) (conns s c))\<rparr>"

lemma log_frame_views [simp]:
  "pc_of (log_frame c f s) d = pc_of s d"
  "rcvd_of (log_frame c f s) d =
     (if d = c then map_option (\<lambda>fs. fs @ [f]) (rcvd_of s c) else rcvd_of s d)"
  "ident_of (log_frame c f s) d = ident_of s d"
  "sessions (log_frame c f s) = sessions s" "sess (log_frame c f s) = sess s"
  "strms (log_frame c f s) = strms s" "outs (log_frame c f s) = outs s"
  "accs (log_frame c f s) = accs s" "ports (log_frame c f s) = ports s"
  "https (log_frame c f s) = https s" "mets (log_frame c f s) = mets s"
  "next_sid (log_frame c f s) = next_sid s"
  by (simp_all add: log_frame_def view_defs option.map_comp comp_def)

definition conn_fail :: "nat \<Rightarrow> string \<Rightarrow> conn_error \<Rightarrow> server \<Rightarrow> server" where
  "conn_fail c label e s =
     set_conn_pc c (CDone (RetErr e)) (upd_mets (fail_handshake label) s)"

definition conn_first :: "server_config \<Rightarrow> nat \<Rightarrow> recv_result \<Rightarrow> server \<Rightarrow> server" where
  "conn_first cfg c r s =
     (case r of
        Frame f \<Rightarrow>
          (case check_handshake cfg f of
             Inl (label, e) \<Rightarrow> conn_fail c label e (log_frame c f s)
           | Inr ctx \<Rightarrow>
               (let s' = log_frame c f s in
                set_conn_pc c (CLock ctx)
                  (s'\<lparr>sess := (sess s')(c \<mapsto> session_new (cx_id ctx) c)\<rparr>)))
      | _ \<Rightarrow> conn_fail c ''recv_first'' RecvFirst s)"

section \<open>Registering the session\<close>

definition conn_lock :: "nat \<Rightarrow> conn_ctx \<Rightarrow> server \<Rightarrow> server" where
  "conn_lock c ctx s =
     (case sessions s (cx_id ctx) of
        Some old \<Rightarrow> set_conn_pc c (COldFlag ctx old) s
      | None \<Rightarrow> set_conn_pc c (CInc ctx) (s\<lparr>sessions := (sessions s)(cx_id ctx \<mapsto> c)\<rparr>))"

definition conn_old_flag :: "nat \<Rightarrow> conn_ctx \<Rightarrow> nat \<Rightarrow> server \<Rightarrow> server" where
  "conn_old_flag c ctx old s = set_conn_pc c (COldClear ctx old) (session_close_flag old s)"

definition conn_old_clear :: "nat \<Rightarrow> conn_ctx \<Rightarrow> nat \<Rightarrow> server \<Rightarrow> server" where
  "conn_old_clear c ctx old s = set_conn_pc c (CInsert ctx) (session_close_clear old s)"

definition conn_insert :: "nat \<Rightarrow> conn_ctx \<Rightarrow> server \<Rightarrow> server" where
  "conn_insert c ctx s =
     set_conn_pc c (CInc ctx) (s\<lparr>sessions := (sessions s)(cx_id ctx \<mapsto> c)\<rparr>)"

definition conn_inc :: "nat \<Rightarrow> conn_ctx \<Rightarrow> server \<Rightarrow> server" where
  "conn_inc c ctx s =
     set_conn_pc c (CBind ctx (sc_ports (cx_sc ctx)))
       (upd_mets (\<lambda>m. m\<lparr>connected := connected m + 1\<rparr>) s)"

section \<open>Listening\<close>

text \<open>
  A port can be bound while no listening socket of this process holds it; port 0 asks the operating
  system for a free one, so it never collides. A socket is closed when its \<open>accept_loop\<close> ends.
\<close>

definition port_held :: "u16 \<Rightarrow> server \<Rightarrow> bool" where
  "port_held p s \<longleftrightarrow> p \<noteq> 0 \<and> ports s p \<noteq> None"

definition conn_bind ::
  "nat \<Rightarrow> conn_ctx \<Rightarrow> spoke_port_binding \<Rightarrow> spoke_port_binding list \<Rightarrow> bind_outcome \<Rightarrow> server \<Rightarrow>
   server option" where
  "conn_bind c ctx b bs r s =
     (case parse_socket_addr (''0.0.0.0:'' @ show_u16 (pb_port b)) of
        None \<Rightarrow> Some (set_conn_pc c (CDone (RetErr (BadBindAddr (pb_port b)))) s)
      | Some _ \<Rightarrow>
          (case r of
             BindErr \<Rightarrow> Some (set_conn_pc c (CCloseFlag ctx (RetErr (ListenErr (pb_port b)))) s)
           | BindOk a \<Rightarrow>
               if port_held (pb_port b) s \<or> accs s a \<noteq> None then None
               else Some (set_conn_pc c (CBind ctx bs)
                      (s\<lparr>accs := (accs s)(a \<mapsto>
                          \<lparr>ac_sess = c, ac_port = pb_port b, ac_target = pb_target b,
                           ac_pc = ACheck, ac_abort = False\<rparr>),
                         ports := (if pb_port b = 0 then ports s
                                   else (ports s)(pb_port b \<mapsto> a))\<rparr>))))"

text \<open>The address always parses, so the early return of the question mark is dead code.\<close>

lemma conn_bind_alt [code]:
  "conn_bind c ctx b bs r s =
     (case r of
        BindErr \<Rightarrow> Some (set_conn_pc c (CCloseFlag ctx (RetErr (ListenErr (pb_port b)))) s)
      | BindOk a \<Rightarrow>
          if port_held (pb_port b) s \<or> accs s a \<noteq> None then None
          else Some (set_conn_pc c (CBind ctx bs)
                 (s\<lparr>accs := (accs s)(a \<mapsto>
                     \<lparr>ac_sess = c, ac_port = pb_port b, ac_target = pb_target b,
                      ac_pc = ACheck, ac_abort = False\<rparr>),
                    ports := (if pb_port b = 0 then ports s
                              else (ports s)(pb_port b \<mapsto> a))\<rparr>)))"
  unfolding conn_bind_def parse_wildcard_port option.case ..

section \<open>The receive loop\<close>

definition conn_data :: "nat \<Rightarrow> conn_ctx \<Rightarrow> u64 \<Rightarrow> bytes \<Rightarrow> server \<Rightarrow> server" where
  "conn_data c ctx sid payload s =
     (case sess s c of
        None \<Rightarrow> s
      | Some ss \<Rightarrow>
          (case ss_streams ss sid of
             None \<Rightarrow> s
           | Some k \<Rightarrow>
               set_conn_pc c (CDeliver ctx sid k payload)
                 (upd_mets (add_bytes_recv (ss_spoke_id ss) (length payload)) s)))"

definition conn_http :: "nat \<Rightarrow> conn_ctx \<Rightarrow> u64 \<Rightarrow> http_request \<Rightarrow> nat \<Rightarrow> server \<Rightarrow> server" where
  "conn_http c ctx sid req h s =
     (if sc_kind (cx_sc ctx) \<noteq> Application
      then set_conn_pc c (CReject ctx (reject_kind_frame sid))
             (upd_mets (count_http (spoke_of c s) ''rejected_kind'') s)
      else s\<lparr>https := (https s)(h \<mapsto> \<lparr>ht_sess = c, ht_sid = sid, ht_pc = HRun req\<rparr>)\<rparr>)"

definition conn_frame :: "nat \<Rightarrow> conn_ctx \<Rightarrow> client_frame \<Rightarrow> nat \<Rightarrow> server \<Rightarrow> server" where
  "conn_frame c ctx f h s =
     (case cf_kind f of
        Some (CData payload) \<Rightarrow> conn_data c ctx (cf_stream_id f) payload s
      | Some (CClose _) \<Rightarrow> session_remove_counted c (cf_stream_id f) s
      | Some (Pong _) \<Rightarrow> s
      | Some (CHttpRequest req) \<Rightarrow> conn_http c ctx (cf_stream_id f) req h s
      | Some (Handshake _) \<Rightarrow> s
      | None \<Rightarrow> s)"

definition conn_recv :: "nat \<Rightarrow> conn_ctx \<Rightarrow> recv_result \<Rightarrow> nat \<Rightarrow> server \<Rightarrow> server option" where
  "conn_recv c ctx r h s =
     (case r of
        Frame f \<Rightarrow> if https s h \<noteq> None then None else Some (conn_frame c ctx f h (log_frame c f s))
      | _ \<Rightarrow> Some (set_conn_pc c (CCloseFlag ctx RetOk) s))"

text \<open>\<open>w.send(payload).await\<close> on the writer channel of stream \<open>k\<close>.\<close>

definition conn_deliver :: "nat \<Rightarrow> conn_ctx \<Rightarrow> u64 \<Rightarrow> nat \<Rightarrow> bytes \<Rightarrow> server \<Rightarrow> server option" where
  "conn_deliver c ctx sid k payload s =
     (case strms s k of
        None \<Rightarrow> Some (set_conn_pc c (CDropWriter ctx sid) s)
      | Some v \<Rightarrow>
          (case chan_send payload (vs_chan v) of
             SendWait \<Rightarrow> None
           | SendErr \<Rightarrow> Some (set_conn_pc c (CDropWriter ctx sid) s)
           | SendOk ch \<Rightarrow> Some (set_conn_pc c (CRecv ctx) (upd_strm k (\<lambda>v. v\<lparr>vs_chan := ch\<rparr>) s))))"

definition conn_drop_writer :: "nat \<Rightarrow> conn_ctx \<Rightarrow> u64 \<Rightarrow> server \<Rightarrow> server" where
  "conn_drop_writer c ctx sid s = set_conn_pc c (CRecv ctx) (session_remove_counted c sid s)"

definition conn_reject :: "nat \<Rightarrow> conn_ctx \<Rightarrow> server_frame \<Rightarrow> server \<Rightarrow> server option" where
  "conn_reject c ctx f s =
     (case session_send c f s of
        SendWait \<Rightarrow> None
      | SendErr \<Rightarrow> Some (set_conn_pc c (CRecv ctx) s)
      | SendOk s' \<Rightarrow> Some (set_conn_pc c (CRecv ctx) s'))"

section \<open>Closing\<close>

definition conn_close_flag :: "nat \<Rightarrow> conn_ctx \<Rightarrow> conn_ret \<Rightarrow> server \<Rightarrow> server" where
  "conn_close_flag c ctx r s = set_conn_pc c (CCloseClear ctx r) (session_close_flag c s)"

definition conn_close_clear :: "nat \<Rightarrow> conn_ctx \<Rightarrow> conn_ret \<Rightarrow> server \<Rightarrow> server" where
  "conn_close_clear c ctx r s = set_conn_pc c (CCleanup ctx r) (session_close_clear c s)"

text \<open>\<open>cleanup_session\<close>: one critical section of the registry lock.\<close>

definition cleanup_session :: "string \<Rightarrow> server \<Rightarrow> server" where
  "cleanup_session sp s =
     (case sessions s sp of
        Some cur \<Rightarrow>
          if is_closed cur s
          then upd_mets (\<lambda>m. m\<lparr>connected := connected m - 1\<rparr>)
                 (s\<lparr>sessions := (sessions s)(sp := None)\<rparr>)
          else s
      | None \<Rightarrow> s)"

text \<open>
  After the clean-up, the error path of a failed \<open>bind\<close> returns at once; the normal path first
  aborts the acceptor tasks. \<open>recv_loop\<close> only returns \<open>Ok\<close>, so the result tells the two apart.
\<close>

definition conn_cleanup :: "nat \<Rightarrow> conn_ctx \<Rightarrow> conn_ret \<Rightarrow> server \<Rightarrow> server" where
  "conn_cleanup c ctx r s =
     set_conn_pc c (case r of RetOk \<Rightarrow> CAbort r | RetErr _ \<Rightarrow> CDone r) (cleanup_session (cx_id ctx) s)"

definition conn_abort :: "nat \<Rightarrow> conn_ret \<Rightarrow> server \<Rightarrow> server" where
  "conn_abort c r s =
     set_conn_pc c (CDone r)
       (s\<lparr>accs := (\<lambda>a. map_option (\<lambda>ac. if ac_sess ac = c then ac\<lparr>ac_abort := True\<rparr> else ac) (accs s a))\<rparr>)"

section \<open>One step of a connection task\<close>

definition conn_step :: "server_config \<Rightarrow> nat \<Rightarrow> conn_input \<Rightarrow> server \<Rightarrow> server option" where
  "conn_step cfg c inp s =
     (case conns s c of
        None \<Rightarrow> None
      | Some cn \<Rightarrow>
          (case (cn_pc cn, inp) of
             (CFirst, InRecv r _) \<Rightarrow> Some (conn_first cfg c r s)
           | (CLock ctx, InStep) \<Rightarrow> Some (conn_lock c ctx s)
           | (COldFlag ctx old, InStep) \<Rightarrow> Some (conn_old_flag c ctx old s)
           | (COldClear ctx old, InStep) \<Rightarrow> Some (conn_old_clear c ctx old s)
           | (CInsert ctx, InStep) \<Rightarrow> Some (conn_insert c ctx s)
           | (CInc ctx, InStep) \<Rightarrow> Some (conn_inc c ctx s)
           | (CBind ctx [], InStep) \<Rightarrow> Some (set_conn_pc c (CRecv ctx) s)
           | (CBind ctx (b # bs), InBind r) \<Rightarrow> conn_bind c ctx b bs r s
           | (CRecv ctx, InRecv r h) \<Rightarrow> conn_recv c ctx r h s
           | (CDeliver ctx sid k p, InStep) \<Rightarrow> conn_deliver c ctx sid k p s
           | (CDropWriter ctx sid, InStep) \<Rightarrow> Some (conn_drop_writer c ctx sid s)
           | (CReject ctx f, InStep) \<Rightarrow> conn_reject c ctx f s
           | (CCloseFlag ctx r, InStep) \<Rightarrow> Some (conn_close_flag c ctx r s)
           | (CCloseClear ctx r, InStep) \<Rightarrow> Some (conn_close_clear c ctx r s)
           | (CCleanup ctx r, InStep) \<Rightarrow> Some (conn_cleanup c ctx r s)
           | (CAbort r, InStep) \<Rightarrow> Some (conn_abort c r s)
           | _ \<Rightarrow> None))"

end
