(* ===== verification/Server_Accept.thy ===== *)
theory Server_Accept
  imports Server_State
begin

text \<open>
  \<open>accept_loop\<close> and the two pump tasks it spawns per accepted connection: the upstream pump (TCP to
  \<open>Data\<close> frames) and the downstream pump (writer channel to TCP). As before, one definition per
  segment between suspension points; what the sockets do is an argument.
\<close>

section \<open>Inputs\<close>

datatype accept_outcome = AcceptOk nat | AcceptErr

datatype read_outcome = ReadBytes bytes | ReadEof | ReadErr

text \<open>A \<open>write_all\<close> that succeeds, or fails.\<close>

datatype write_outcome = WriteOk | WriteErr

section \<open>The accept loop\<close>

definition open_frame :: "u64 \<Rightarrow> string \<Rightarrow> server_frame" where
  "open_frame sid tgt =
     \<lparr>sf_stream_id = sid, sf_kind = Some (Open \<lparr>os_protocol = ''tcp'', os_target = tgt\<rparr>)\<rparr>"

text \<open>The task ends: its listening socket is dropped and the port is free again.\<close>

definition acc_finish :: "nat \<Rightarrow> server \<Rightarrow> server" where
  "acc_finish a s =
     upd_acc a (\<lambda>ac. ac\<lparr>ac_pc := ADone\<rparr>)
       (s\<lparr>ports := (\<lambda>p. if ports s p = Some a then None else ports s p)\<rparr>)"

definition acc_check :: "nat \<Rightarrow> acceptor \<Rightarrow> server \<Rightarrow> server" where
  "acc_check a ac s =
     (if is_closed (ac_sess ac) s then acc_finish a s
      else upd_acc a (\<lambda>ac. ac\<lparr>ac_pc := AAccept\<rparr>) s)"

text \<open>\<open>next_sid.fetch_add(1) + 1\<close>, in wrapping arithmetic, and the new stream's writer channel.\<close>

definition alloc_sid :: "u64 \<Rightarrow> u64 \<times> u64" where
  "alloc_sid n = (n + 1, n + 1)"   \<comment> \<open>the identifier, and the counter afterwards\<close>

definition vstream_new :: "nat \<Rightarrow> u64 \<Rightarrow> vstream" where
  "vstream_new c sid =
     \<lparr>vs_sess = c, vs_sid = sid, vs_chan = channel 64, vs_up = UpIdle, vs_dn = DnIdle,
      vs_read = [], vs_written = [], vs_shut = False\<rparr>"

definition acc_accept :: "nat \<Rightarrow> acceptor \<Rightarrow> accept_outcome \<Rightarrow> server \<Rightarrow> server option" where
  "acc_accept a ac r s =
     (case r of
        AcceptErr \<Rightarrow> Some (acc_finish a s)
      | AcceptOk k \<Rightarrow>
          if strms s k \<noteq> None then None
          else
            (let (sid, n) = alloc_sid (next_sid s) in
             Some (upd_acc a (\<lambda>ac. ac\<lparr>ac_pc := AInsert sid k\<rparr>)
                     (s\<lparr>next_sid := n, strms := (strms s)(k \<mapsto> vstream_new (ac_sess ac) sid)\<rparr>))))"

text \<open>
  The registration under the stream lock and the gauge; nothing suspends between the two.
\<close>

definition acc_insert :: "nat \<Rightarrow> acceptor \<Rightarrow> u64 \<Rightarrow> nat \<Rightarrow> server \<Rightarrow> server" where
  "acc_insert a ac sid k s =
     upd_acc a (\<lambda>ac. ac\<lparr>ac_pc := AOpen sid k\<rparr>)
       (upd_mets (add_streams_open (spoke_of (ac_sess ac) s) 1)
          (upd_sess (ac_sess ac) (\<lambda>ss. ss\<lparr>ss_streams := (ss_streams ss)(sid \<mapsto> k)\<rparr>) s))"

definition acc_open :: "nat \<Rightarrow> acceptor \<Rightarrow> u64 \<Rightarrow> nat \<Rightarrow> server \<Rightarrow> server option" where
  "acc_open a ac sid k s =
     (case session_send (ac_sess ac) (open_frame sid (ac_target ac)) s of
        SendWait \<Rightarrow> None
      | SendErr \<Rightarrow> Some (upd_acc a (\<lambda>ac. ac\<lparr>ac_pc := ARoll sid k\<rparr>) s)
      | SendOk s' \<Rightarrow>
          Some (upd_acc a (\<lambda>ac. ac\<lparr>ac_pc := ACheck\<rparr>)
                  (upd_strm k (\<lambda>v. v\<lparr>vs_up := UpRead, vs_dn := DnRecv\<rparr>) s')))"

text \<open>
  The roll-back of a stream whose \<open>Open\<close> could not be sent: the gauge is decremented whether or not
  the entry was still there. The receiving half of the writer channel is dropped with the iteration.
\<close>

definition acc_roll :: "nat \<Rightarrow> acceptor \<Rightarrow> u64 \<Rightarrow> nat \<Rightarrow> server \<Rightarrow> server" where
  "acc_roll a ac sid k s =
     upd_acc a (\<lambda>ac. ac\<lparr>ac_pc := ACheck\<rparr>)
       (upd_strm k (\<lambda>v. v\<lparr>vs_chan := chan_drop_rx (vs_chan v)\<rparr>)
          (upd_mets (add_streams_open (spoke_of (ac_sess ac) s) (- 1))
             (session_remove (ac_sess ac) sid s)))"

definition acc_step :: "nat \<Rightarrow> accept_outcome \<Rightarrow> server \<Rightarrow> server option" where
  "acc_step a r s =
     (case accs s a of
        None \<Rightarrow> None
      | Some ac \<Rightarrow>
          (case ac_pc ac of
             ACheck \<Rightarrow> Some (acc_check a ac s)
           | AAccept \<Rightarrow> acc_accept a ac r s
           | AInsert sid k \<Rightarrow> Some (acc_insert a ac sid k s)
           | AOpen sid k \<Rightarrow> acc_open a ac sid k s
           | ARoll sid k \<Rightarrow> Some (acc_roll a ac sid k s)
           | ADone \<Rightarrow> None))"

text \<open>
  \<open>JoinHandle::abort\<close> cancels the task at a suspension point; its locals are dropped, the listener
  and a writer channel that no pump took over among them.
\<close>

definition acc_cancel :: "nat \<Rightarrow> server \<Rightarrow> server option" where
  "acc_cancel a s =
     (case accs s a of
        None \<Rightarrow> None
      | Some ac \<Rightarrow>
          if \<not> ac_abort ac \<or> ac_pc ac = ACheck \<or> ac_pc ac = ADone then None
          else
            Some (acc_finish a
              (case ac_pc ac of
                 AInsert sid k \<Rightarrow> upd_strm k (\<lambda>v. v\<lparr>vs_chan := chan_drop_rx (vs_chan v)\<rparr>) s
               | AOpen sid k \<Rightarrow> upd_strm k (\<lambda>v. v\<lparr>vs_chan := chan_drop_rx (vs_chan v)\<rparr>) s
               | ARoll sid k \<Rightarrow> upd_strm k (\<lambda>v. v\<lparr>vs_chan := chan_drop_rx (vs_chan v)\<rparr>) s
               | _ \<Rightarrow> s)))"

section \<open>The upstream pump\<close>

definition data_frame :: "u64 \<Rightarrow> bytes \<Rightarrow> server_frame" where
  "data_frame sid p = \<lparr>sf_stream_id = sid, sf_kind = Some (SData p)\<rparr>"

definition eof_frame :: "u64 \<Rightarrow> server_frame" where
  "eof_frame sid = \<lparr>sf_stream_id = sid, sf_kind = Some (SClose \<lparr>cs_half = True, cs_reason = ''eof''\<rparr>)\<rparr>"

definition read_buffer :: int where
  "read_buffer = 32 * 1024"

definition up_read :: "nat \<Rightarrow> vstream \<Rightarrow> read_outcome \<Rightarrow> server \<Rightarrow> server option" where
  "up_read k v r s =
     (case r of
        ReadBytes bs \<Rightarrow>
          if bs = [] \<or> read_buffer < int (length bs) then None
          else Some (upd_strm k (\<lambda>v. v\<lparr>vs_up := UpSend bs, vs_read := vs_read v @ [bs]\<rparr>)
                       (upd_mets (add_bytes_sent (spoke_of (vs_sess v) s) (length bs)) s))
      | ReadEof \<Rightarrow> Some (upd_strm k (\<lambda>v. v\<lparr>vs_up := UpSendClose\<rparr>) s)
      | ReadErr \<Rightarrow> Some (upd_strm k (\<lambda>v. v\<lparr>vs_up := UpRemove\<rparr>) s))"

definition up_send :: "nat \<Rightarrow> vstream \<Rightarrow> bytes \<Rightarrow> server \<Rightarrow> server option" where
  "up_send k v p s =
     (case session_send (vs_sess v) (data_frame (vs_sid v) p) s of
        SendWait \<Rightarrow> None
      | SendErr \<Rightarrow> Some (upd_strm k (\<lambda>v. v\<lparr>vs_up := UpRemove\<rparr>) s)
      | SendOk s' \<Rightarrow> Some (upd_strm k (\<lambda>v. v\<lparr>vs_up := UpRead\<rparr>) s'))"

definition up_send_close :: "nat \<Rightarrow> vstream \<Rightarrow> server \<Rightarrow> server option" where
  "up_send_close k v s =
     (case session_send (vs_sess v) (eof_frame (vs_sid v)) s of
        SendWait \<Rightarrow> None
      | SendErr \<Rightarrow> Some (upd_strm k (\<lambda>v. v\<lparr>vs_up := UpRemove\<rparr>) s)
      | SendOk s' \<Rightarrow> Some (upd_strm k (\<lambda>v. v\<lparr>vs_up := UpRemove\<rparr>) s'))"

definition up_remove :: "nat \<Rightarrow> vstream \<Rightarrow> server \<Rightarrow> server" where
  "up_remove k v s =
     upd_strm k (\<lambda>v. v\<lparr>vs_up := UpDone\<rparr>) (session_remove_counted (vs_sess v) (vs_sid v) s)"

definition up_step :: "nat \<Rightarrow> read_outcome \<Rightarrow> server \<Rightarrow> server option" where
  "up_step k r s =
     (case strms s k of
        None \<Rightarrow> None
      | Some v \<Rightarrow>
          (case vs_up v of
             UpRead \<Rightarrow> up_read k v r s
           | UpSend p \<Rightarrow> up_send k v p s
           | UpSendClose \<Rightarrow> up_send_close k v s
           | UpRemove \<Rightarrow> Some (up_remove k v s)
           | _ \<Rightarrow> None))"

section \<open>The downstream pump\<close>

text \<open>
  The writer channel of stream \<open>k\<close> still has a sender while the session's map holds it or while
  \<open>recv_loop\<close> waits in \<open>w.send\<close> with a clone of it.
\<close>

definition sender_alive :: "nat \<Rightarrow> vstream \<Rightarrow> server \<Rightarrow> bool" where
  "sender_alive k v s \<longleftrightarrow>
     (case sess s (vs_sess v) of None \<Rightarrow> False | Some ss \<Rightarrow> ss_streams ss (vs_sid v) = Some k) \<or>
     (case conns s (vs_sess v) of
        Some cn \<Rightarrow> (case cn_pc cn of CDeliver _ _ k' _ \<Rightarrow> k' = k | _ \<Rightarrow> False)
      | None \<Rightarrow> False)"

definition dn_recv :: "nat \<Rightarrow> vstream \<Rightarrow> server \<Rightarrow> server option" where
  "dn_recv k v s =
     (case chan_recv (vs_chan v) of
        Some (p, ch) \<Rightarrow> Some (upd_strm k (\<lambda>v. v\<lparr>vs_chan := ch, vs_dn := DnWrite p\<rparr>) s)
      | None \<Rightarrow>
          if sender_alive k v s then None else Some (upd_strm k (\<lambda>v. v\<lparr>vs_dn := DnShutdown\<rparr>) s))"

definition dn_write :: "nat \<Rightarrow> bytes \<Rightarrow> write_outcome \<Rightarrow> server \<Rightarrow> server" where
  "dn_write k p r s =
     (case r of
        WriteOk \<Rightarrow> upd_strm k (\<lambda>v. v\<lparr>vs_dn := DnRecv, vs_written := vs_written v @ [p]\<rparr>) s
      | WriteErr \<Rightarrow> upd_strm k (\<lambda>v. v\<lparr>vs_dn := DnShutdown\<rparr>) s)"

definition dn_shutdown :: "nat \<Rightarrow> server \<Rightarrow> server" where
  "dn_shutdown k s =
     upd_strm k (\<lambda>v. v\<lparr>vs_dn := DnDone, vs_shut := True, vs_chan := chan_drop_rx (vs_chan v)\<rparr>) s"

definition dn_step :: "nat \<Rightarrow> write_outcome \<Rightarrow> server \<Rightarrow> server option" where
  "dn_step k r s =
     (case strms s k of
        None \<Rightarrow> None
      | Some v \<Rightarrow>
          (case vs_dn v of
             DnRecv \<Rightarrow> dn_recv k v s
           | DnWrite p \<Rightarrow> Some (dn_write k p r s)
           | DnShutdown \<Rightarrow> Some (dn_shutdown k s)
           | _ \<Rightarrow> None))"

end
