(* ===== verification/Machines.thy ===== *)
theory Machines
  imports Tunnel_Prelude
begin

text \<open>
  Programs as machines: a partial step function on events, the runs over a list of events, and the
  states that a number of events can lead to. The locale \<open>machine\<close> collects what holds of any such
  triple; the hub, the spoke and the two coupled by a stream interpret it. The locale \<open>winding_down\<close>
  extends it by a task that only has a fixed number of steps left, each of them always possible; the
  clean-up of a hub connection and that of a spoke session interpret it.
\<close>

section \<open>Runs\<close>

locale machine =
  fixes stp :: "'e \<Rightarrow> 's \<Rightarrow> 's option"
    and rn :: "'e list \<Rightarrow> 's \<Rightarrow> 's option"
    and rch :: "nat \<Rightarrow> 's \<Rightarrow> bool"
    and ini :: 's
  assumes rn_Nil: "rn [] s = Some s"
    and rn_Cons: "rn (e # es) s = Option.bind (stp e s) (rn es)"
    and rch_init: "rch 0 ini"
    and rch_step: "rch n s \<Longrightarrow> stp e s = Some s' \<Longrightarrow> rch (Suc n) s'"
    and rch_cases: "rch n s \<Longrightarrow> n = 0 \<and> s = ini \<or> (\<exists>m t e. n = Suc m \<and> rch m t \<and> stp e t = Some s)"
begin

lemma run_append: "rn (es @ fs) s = Option.bind (rn es s) (rn fs)"
  by (induction es arbitrary: s) (auto simp: rn_Nil rn_Cons split: Option.bind_splits)

lemma run_snocD:
  assumes "rn (es @ [e]) s = Some s'"
  obtains t where "rn es s = Some t" "stp e t = Some s'"
  using assms by (auto simp: run_append rn_Nil rn_Cons split: Option.bind_splits)

lemma run_reaches: "rn es s = Some s' \<Longrightarrow> rch n s \<Longrightarrow> rch (n + length es) s'"
proof (induction es arbitrary: s' rule: rev_induct)
  case (snoc e es)
  from snoc.prems(1) obtain t where "rn es s = Some t" "stp e t = Some s'" by (rule run_snocD)
  with rch_step [OF snoc.IH [OF _ snoc.prems(2)]] show ?case by simp
qed (simp add: rn_Nil)

text \<open>The reachable states are the ends of the runs from the initial state.\<close>

lemma reaches_iff_run: "rch n s \<longleftrightarrow> (\<exists>es. length es = n \<and> rn es ini = Some s)"
proof
  show "rch n s \<Longrightarrow> \<exists>es. length es = n \<and> rn es ini = Some s"
  proof (induction n arbitrary: s)
    case 0
    with rch_cases [of 0 s] show ?case by (simp add: rn_Nil)
  next
    case (Suc n)
    with rch_cases [of "Suc n" s] obtain t e where t: "rch n t" "stp e t = Some s" by blast
    with Suc.IH obtain es where "length es = n" "rn es ini = Some t" by blast
    with t(2) have "length (es @ [e]) = Suc n \<and> rn (es @ [e]) ini = Some s"
      by (simp add: run_append rn_Nil rn_Cons)
    then show ?case by blast
  qed
next
  assume "\<exists>es. length es = n \<and> rn es ini = Some s"
  then show "rch n s" using run_reaches [OF _ rch_init] by auto
qed

lemma run_obtains:
  assumes "map_option P (rn es ini) = Some True"
  obtains s where "rch (length es) s" "rn es ini = Some s" "P s"
  using assms by (auto simp: map_option_eq_Some reaches_iff_run)

end

section \<open>A task that winds down\<close>

text \<open>
  \<open>own\<close> tells the events of the task, \<open>live\<close> that it is winding down, \<open>rank\<close> how many steps it has
  left. Its own steps lower the rank by one, other events do not touch it, and while the rank is
  positive a step of the task is possible.
\<close>

locale winding_down = machine +
  fixes own :: "'a \<Rightarrow> bool"
    and live :: "'b \<Rightarrow> bool"
    and rank :: "'b \<Rightarrow> nat"
    and go :: 'a
  assumes go_own: "own go"
    and live_own: "live s \<Longrightarrow> own e \<Longrightarrow> stp e s = Some s' \<Longrightarrow> live s' \<and> Suc (rank s') = rank s"
    and live_other: "live s \<Longrightarrow> \<not> own e \<Longrightarrow> stp e s = Some s' \<Longrightarrow> live s' \<and> rank s' = rank s"
    and go_enabled: "live s \<Longrightarrow> 0 < rank s \<Longrightarrow> stp go s \<noteq> None"
begin

lemma run_rank:
  "rn es s = Some s' \<Longrightarrow> live s \<Longrightarrow> live s' \<and> rank s' + length (filter own es) = rank s"
proof (induction es arbitrary: s' rule: rev_induct)
  case (snoc e es)
  from snoc.prems(1) obtain t where t: "rn es s = Some t" "stp e t = Some s'" by (rule run_snocD)
  with snoc.IH snoc.prems(2) have "live t" "rank t + length (filter own es) = rank s" by blast+
  with live_own [OF _ _ t(2)] live_other [OF _ _ t(2)] show ?case by (cases "own e") fastforce+
qed (simp add: rn_Nil)

lemma winds_down:
  assumes "rn es s = Some s'" "live s"
  shows "rank s' + length (filter own es) = rank s" "rank s' = 0 \<or> stp go s' \<noteq> None"
  using run_rank [OF assms] go_enabled [of s'] by auto

lemma finishes: "live s \<Longrightarrow> \<exists>s'. rn (replicate (rank s) go) s = Some s' \<and> live s' \<and> rank s' = 0"
proof (induction "rank s" arbitrary: s)
  case 0
  then show ?case by (simp flip: 0(1) add: rn_Nil)
next
  case (Suc n)
  then obtain t where t: "stp go s = Some t" using go_enabled [of s] by (metis option.exhaust zero_less_Suc)
  with live_own [OF Suc.prems go_own] Suc.hyps(2) have "live t" "n = rank t" by auto
  from Suc.hyps(1) [OF this(2,1)] t this(2) Suc.hyps(2) [symmetric] show ?case by (simp add: rn_Cons)
qed

end

end
