(* ===== verification/Server_System.thy ===== *)
theory Server_System
  imports Server_Conn Server_Accept Machines
begin

text \<open>
  The whole server as a transition system: one event per atomic segment of a task or per move of
  the environment (tonic taking a frame from a response stream, or dropping the stream).
\<close>

datatype event =
    EvConnect nat bytes i64
  | EvConn nat conn_input
  | EvAcc nat accept_outcome
  | EvCancel nat
  | EvUp nat read_outcome
  | EvDn nat write_outcome
  | EvHttp nat http_env
  | EvHttpSend nat
  | EvTake nat
  | EvDropOut nat

definition out_take :: "nat \<Rightarrow> server \<Rightarrow> server option" where
  "out_take c s =
     (case outs s c of
        None \<Rightarrow> None
      | Some ot \<Rightarrow>
          (case chan_recv (ot_chan ot) of
             None \<Rightarrow> None
           | Some (f, ch) \<Rightarrow>
               if ch_rx (ot_chan ot)
               then Some (s\<lparr>outs := (outs s)(c \<mapsto> \<lparr>ot_chan = ch, ot_sent = ot_sent ot @ [f]\<rparr>)\<rparr>)
               else None))"

definition out_drop :: "nat \<Rightarrow> server \<Rightarrow> server option" where
  "out_drop c s =
     (case outs s c of
        None \<Rightarrow> None
      | Some ot \<Rightarrow> Some (s\<lparr>outs := (outs s)(c \<mapsto> ot\<lparr>ot_chan := chan_drop_rx (ot_chan ot)\<rparr>)\<rparr>))"

fun step :: "server_config \<Rightarrow> event \<Rightarrow> server \<Rightarrow> server option" where
  "step cfg (EvConnect c n t) s = connect c n t s"
| "step cfg (EvConn c inp) s = conn_step cfg c inp s"
| "step cfg (EvAcc a r) s = acc_step a r s"
| "step cfg (EvCancel a) s = acc_cancel a s"
| "step cfg (EvUp k r) s = up_step k r s"
| "step cfg (EvDn k r) s = dn_step k r s"
| "step cfg (EvHttp h env) s = http_run cfg env h s"
| "step cfg (EvHttpSend h) s = http_send h s"
| "step cfg (EvTake c) s = out_take c s"
| "step cfg (EvDropOut c) s = out_drop c s"

fun run :: "server_config \<Rightarrow> event list \<Rightarrow> server \<Rightarrow> server option" where
  "run cfg [] s = Some s"
| "run cfg (e # es) s = Option.bind (step cfg e s) (run cfg es)"

text \<open>The states that \<open>n\<close> events can lead to.\<close>

inductive reach :: "server_config \<Rightarrow> nat \<Rightarrow> server \<Rightarrow> bool" for cfg where
  reach_init: "reach cfg 0 server_init"
| reach_step: "reach cfg n s \<Longrightarrow> step cfg e s = Some s' \<Longrightarrow> reach cfg (Suc n) s'"

text \<open>The hub is a machine: its runs compose, and reachable means the end of a run.\<close>

interpretation hub: machine "step cfg" "run cfg" "reach cfg" server_init for cfg
  by unfold_locales (auto intro: reach_init reach_step elim: reach.cases)

lemmas run_append = hub.run_append
lemmas run_reach = hub.run_reaches
lemmas run_obtains = hub.run_obtains

section \<open>Case analysis of the steps\<close>

lemma conn_stepE:
  assumes "conn_step cfg c inp s = Some s'"
  obtains
    (First) cn r where "conns s c = Some cn" "cn_pc cn = CFirst" "s' = conn_first cfg c r s"
  | (Lock) cn ctx where "conns s c = Some cn" "cn_pc cn = CLock ctx" "s' = conn_lock c ctx s"
  | (OldFlag) cn ctx old where "conns s c = Some cn" "cn_pc cn = COldFlag ctx old"
      "s' = conn_old_flag c ctx old s"
  | (OldClear) cn ctx old where "conns s c = Some cn" "cn_pc cn = COldClear ctx old"
      "s' = conn_old_clear c ctx old s"
  | (Insert) cn ctx where "conns s c = Some cn" "cn_pc cn = CInsert ctx" "s' = conn_insert c ctx s"
  | (Inc) cn ctx where "conns s c = Some cn" "cn_pc cn = CInc ctx" "s' = conn_inc c ctx s"
  | (Bound) cn ctx where "conns s c = Some cn" "cn_pc cn = CBind ctx []"
      "s' = set_conn_pc c (CRecv ctx) s"
  | (Bind) cn ctx b bs r where "conns s c = Some cn" "cn_pc cn = CBind ctx (b # bs)"
      "conn_bind c ctx b bs r s = Some s'"
  | (Recv) cn ctx r h where "conns s c = Some cn" "cn_pc cn = CRecv ctx"
      "conn_recv c ctx r h s = Some s'"
  | (Deliver) cn ctx sid k p where "conns s c = Some cn" "cn_pc cn = CDeliver ctx sid k p"
      "conn_deliver c ctx sid k p s = Some s'"
  | (DropWriter) cn ctx sid where "conns s c = Some cn" "cn_pc cn = CDropWriter ctx sid"
      "s' = conn_drop_writer c ctx sid s"
  | (Reject) cn ctx f where "conns s c = Some cn" "cn_pc cn = CReject ctx f"
      "conn_reject c ctx f s = Some s'"
  | (CloseFlag) cn ctx r where "conns s c = Some cn" "cn_pc cn = CCloseFlag ctx r"
      "s' = conn_close_flag c ctx r s"
  | (CloseClear) cn ctx r where "conns s c = Some cn" "cn_pc cn = CCloseClear ctx r"
      "s' = conn_close_clear c ctx r s"
  | (Cleanup) cn ctx r where "conns s c = Some cn" "cn_pc cn = CCleanup ctx r"
      "s' = conn_cleanup c ctx r s"
  | (Abort) cn r where "conns s c = Some cn" "cn_pc cn = CAbort r" "s' = conn_abort c r s"
proof -
  from assms obtain cn where cn: "conns s c = Some cn"
    by (auto simp: conn_step_def split: option.splits)
  show thesis
  proof (cases "cn_pc cn")
    case (CBind ctx bs)
    with assms cn that(7,8) show ?thesis
      by (cases bs; cases inp) (auto simp: conn_step_def)
  next
    case CFirst
    with assms cn that(1) show ?thesis by (cases inp) (auto simp: conn_step_def)
  next
    case CLock
    with assms cn that(2) show ?thesis by (cases inp) (auto simp: conn_step_def)
  next
    case COldFlag
    with assms cn that(3) show ?thesis by (cases inp) (auto simp: conn_step_def)
  next
    case COldClear
    with assms cn that(4) show ?thesis by (cases inp) (auto simp: conn_step_def)
  next
    case CInsert
    with assms cn that(5) show ?thesis by (cases inp) (auto simp: conn_step_def)
  next
    case CInc
    with assms cn that(6) show ?thesis by (cases inp) (auto simp: conn_step_def)
  next
    case CRecv
    with assms cn that(9) show ?thesis by (cases inp) (auto simp: conn_step_def)
  next
    case CDeliver
    with assms cn that(10) show ?thesis by (cases inp) (auto simp: conn_step_def)
  next
    case CDropWriter
    with assms cn that(11) show ?thesis by (cases inp) (auto simp: conn_step_def)
  next
    case CReject
    with assms cn that(12) show ?thesis by (cases inp) (auto simp: conn_step_def)
  next
    case CCloseFlag
    with assms cn that(13) show ?thesis by (cases inp) (auto simp: conn_step_def)
  next
    case CCloseClear
    with assms cn that(14) show ?thesis by (cases inp) (auto simp: conn_step_def)
  next
    case CCleanup
    with assms cn that(15) show ?thesis by (cases inp) (auto simp: conn_step_def)
  next
    case CAbort
    with assms cn that(16) show ?thesis by (cases inp) (auto simp: conn_step_def)
  next
    case CDone
    with assms cn show ?thesis by (cases inp) (auto simp: conn_step_def)
  qed
qed

lemma acc_stepE:
  assumes "acc_step a r s = Some s'"
  obtains
    (Check) ac where "accs s a = Some ac" "ac_pc ac = ACheck" "s' = acc_check a ac s"
  | (Accept) ac where "accs s a = Some ac" "ac_pc ac = AAccept" "acc_accept a ac r s = Some s'"
  | (Insert) ac sid k where "accs s a = Some ac" "ac_pc ac = AInsert sid k"
      "s' = acc_insert a ac sid k s"
  | (Open) ac sid k where "accs s a = Some ac" "ac_pc ac = AOpen sid k"
      "acc_open a ac sid k s = Some s'"
  | (Roll) ac sid k where "accs s a = Some ac" "ac_pc ac = ARoll sid k"
      "s' = acc_roll a ac sid k s"
  using assms by (auto simp: acc_step_def split: option.splits acc_pc.splits)

lemma up_stepE:
  assumes "up_step k r s = Some s'"
  obtains
    (Read) v where "strms s k = Some v" "vs_up v = UpRead" "up_read k v r s = Some s'"
  | (Send) v p where "strms s k = Some v" "vs_up v = UpSend p" "up_send k v p s = Some s'"
  | (SendClose) v where "strms s k = Some v" "vs_up v = UpSendClose" "up_send_close k v s = Some s'"
  | (Remove) v where "strms s k = Some v" "vs_up v = UpRemove" "s' = up_remove k v s"
  using assms by (auto simp: up_step_def split: option.splits up_pc.splits)

lemma dn_stepE:
  assumes "dn_step k r s = Some s'"
  obtains
    (Recv) v where "strms s k = Some v" "vs_dn v = DnRecv" "dn_recv k v s = Some s'"
  | (Write) v p where "strms s k = Some v" "vs_dn v = DnWrite p" "s' = dn_write k p r s"
  | (Shutdown) v where "strms s k = Some v" "vs_dn v = DnShutdown" "s' = dn_shutdown k s"
  using assms by (auto simp: dn_step_def split: option.splits dn_pc.splits)

end
