(* ===== verification/Server_Demo.thy ===== *)
theory Server_Demo
  imports Server_System
begin

text \<open>
  A small concrete deployment: one cluster spoke with two ports and one application spoke, and the
  event sequences the witnesses run through the transition system.
\<close>

definition demo_cfg :: server_config where
  "demo_cfg = \<lparr>grpc_listen = V4 wildcard 8080, metrics_listen = V4 wildcard 9090,
     spokes = map_of (map (\<lambda>sc. (sc_spoke_id sc, sc)) sample_spokes),
     kernel_url = ''http://rag-backend-kernel.rag-company1.svc.cluster.local:8000'',
     allowed_paths = set default_allowed_paths\<rparr>"

lemma load_demo_cfg: "load_config [''TUNNEL_SPOKES'' \<mapsto> print_spokes sample_spokes] = Inr demo_cfg"
  unfolding demo_cfg_def by (rule load_config_printed) (rule sample_spokes_printable)+

definition hello :: "string \<Rightarrow> string \<Rightarrow> client_frame" where
  "hello sp tok = \<lparr>cf_stream_id = 0, cf_kind = Some (Handshake
     \<lparr>hs_spoke_id = sp, hs_signature = as_bytes tok, hs_client_ver = ''tc-rust/0.1.0''\<rparr>)\<rparr>"

text \<open>Connection \<open>c\<close> opens, authenticates and registers on an empty registry.\<close>

definition join_events :: "nat \<Rightarrow> string \<Rightarrow> string \<Rightarrow> event list" where
  "join_events c sp tok =
     [EvConnect c (replicate 32 0) 0, EvConn c (InRecv (Frame (hello sp tok)) 0),
      EvConn c InStep, EvConn c InStep]"

end
