(* ===== verification/Server_Safety.thy ===== *)
theory Server_Safety
  imports Server_Demo
begin

text \<open>
  Invariants of the server's reachable states: who may hold a session, a listening port or a
  forwarding task.
\<close>

lemmas conn_ops =
  conn_fail_def conn_lock_def conn_old_flag_def conn_old_clear_def conn_insert_def
  conn_inc_def conn_bind_alt conn_recv_def conn_frame_def conn_data_def conn_http_def
  conn_deliver_def conn_drop_writer_def conn_reject_def conn_close_flag_def conn_close_clear_def
  conn_cleanup_def cleanup_session_def conn_abort_def

lemmas acc_ops =
  acc_check_def acc_finish_def acc_accept_def acc_insert_def acc_open_def acc_roll_def
  acc_cancel_def up_read_def up_send_def up_send_close_def up_remove_def dn_recv_def dn_write_def
  dn_shutdown_def alloc_sid_def

lemmas op_splits = option.splits if_splits sent.splits prod.splits recv_result.splits
  bind_outcome.splits client_kind.splits conn_ret.splits accept_outcome.splits read_outcome.splits
  write_outcome.splits

section \<open>Authentication\<close>

fun ctx_of :: "conn_pc \<Rightarrow> conn_ctx option" where
  "ctx_of CFirst = None"
| "ctx_of (CLock ctx) = Some ctx"
| "ctx_of (COldFlag ctx _) = Some ctx"
| "ctx_of (COldClear ctx _) = Some ctx"
| "ctx_of (CInsert ctx) = Some ctx"
| "ctx_of (CInc ctx) = Some ctx"
| "ctx_of (CBind ctx _) = Some ctx"
| "ctx_of (CRecv ctx) = Some ctx"
| "ctx_of (CDeliver ctx _ _ _) = Some ctx"
| "ctx_of (CDropWriter ctx _) = Some ctx"
| "ctx_of (CReject ctx _) = Some ctx"
| "ctx_of (CCloseFlag ctx _) = Some ctx"
| "ctx_of (CCloseClear ctx _) = Some ctx"
| "ctx_of (CCleanup ctx _) = Some ctx"
| "ctx_of (CAbort _) = None"
| "ctx_of (CDone _) = None"

text \<open>
  The first frame of a connection was a handshake for the spoke \<open>sp\<close> that carried the bytes of the
  token configured for it.
\<close>

definition authenticated :: "server_config \<Rightarrow> client_frame list \<Rightarrow> string \<Rightarrow> spoke_config \<Rightarrow> bool" where
  "authenticated cfg fs sp sc \<longleftrightarrow>
     spokes cfg sp = Some sc \<and>
     (\<exists>f hs rest. fs = f # rest \<and> cf_kind f = Some (Handshake hs) \<and> hs_spoke_id hs = sp \<and>
        hs_signature hs = as_bytes (sc_token sc))"

lemma authenticated_append: "authenticated cfg fs sp sc \<Longrightarrow> authenticated cfg (fs @ gs) sp sc"
  by (auto simp: authenticated_def)

lemma check_handshake_Inr:
  assumes "check_handshake cfg f = Inr ctx"
  shows "authenticated cfg [f] (cx_id ctx) (cx_sc ctx)"
  using assms
  by (auto simp: check_handshake_def authenticated_def split: option.splits client_kind.splits if_splits)

text \<open>
  What a connection's position says about the frames it received and about its session object.
\<close>

definition conn_ok ::
  "server_config \<Rightarrow> nat \<Rightarrow> conn_pc option \<Rightarrow> client_frame list option \<Rightarrow> (string \<times> nat) option \<Rightarrow> bool" where
  "conn_ok cfg c po ro io \<longleftrightarrow>
     (case (po, ro) of
        (Some pc, Some fs) \<Rightarrow>
          if pc = CFirst then fs = [] \<and> io = None
          else (case ctx_of pc of
                  Some ctx \<Rightarrow> io = Some (cx_id ctx, c) \<and> authenticated cfg fs (cx_id ctx) (cx_sc ctx)
                | None \<Rightarrow>
                    (case io of
                       None \<Rightarrow> True
                     | Some (sp, tx) \<Rightarrow> tx = c \<and> (\<exists>sc. authenticated cfg fs sp sc)))
      | (None, None) \<Rightarrow> io = None
      | _ \<Rightarrow> False)"

definition inv_auth :: "server_config \<Rightarrow> server \<Rightarrow> bool" where
  "inv_auth cfg s \<longleftrightarrow>
     (\<forall>c. conn_ok cfg c (pc_of s c) (rcvd_of s c) (ident_of s c)) \<and>
     (\<forall>sp c. sessions s sp = Some c \<longrightarrow> map_option fst (ident_of s c) = Some sp)"

lemma inv_auth_init: "inv_auth cfg server_init"
  by (simp add: inv_auth_def server_init_def conn_ok_def view_defs)

lemma inv_auth_connI:
  assumes "inv_auth cfg s"
    and "\<And>d. d \<noteq> c \<Longrightarrow> pc_of s' d = pc_of s d \<and> rcvd_of s' d = rcvd_of s d \<and> ident_of s' d = ident_of s d"
    and "conn_ok cfg c (pc_of s' c) (rcvd_of s' c) (ident_of s' c)"
    and "\<And>sp d. sessions s' sp = Some d \<Longrightarrow> map_option fst (ident_of s' d) = Some sp"
  shows "inv_auth cfg s'"
  unfolding inv_auth_def
proof (intro conjI allI impI)
  show "conn_ok cfg d (pc_of s' d) (rcvd_of s' d) (ident_of s' d)" for d
    using assms(1,2,3) by (cases "d = c") (auto simp: inv_auth_def)
qed (use assms(4) in blast)

lemma inv_auth_connD:
  assumes "inv_auth cfg s" "conns s c = Some cn" "ctx_of (cn_pc cn) = Some ctx"
  shows "ident_of s c = Some (cx_id ctx, c)"
    "authenticated cfg (cn_rcvd cn) (cx_id ctx) (cx_sc ctx)"
    "pc_of s c = Some (cn_pc cn)" "rcvd_of s c = Some (cn_rcvd cn)"
proof -
  have "conn_ok cfg c (pc_of s c) (rcvd_of s c) (ident_of s c)"
    using assms(1) by (simp add: inv_auth_def)
  with assms(2,3) show "ident_of s c = Some (cx_id ctx, c)"
    "authenticated cfg (cn_rcvd cn) (cx_id ctx) (cx_sc ctx)"
    by (auto simp: conn_ok_def pc_of_def rcvd_of_def split: if_splits)
qed (use assms in \<open>simp_all add: pc_of_def rcvd_of_def\<close>)

lemma inv_auth_sessionsD:
  "inv_auth cfg s \<Longrightarrow> sessions s sp = Some c \<Longrightarrow> map_option fst (ident_of s c) = Some sp"
  by (simp add: inv_auth_def)

lemma inv_auth_first:
  assumes inv: "inv_auth cfg s" and cn: "conns s c = Some cn" "cn_pc cn = CFirst"
  shows "inv_auth cfg (conn_first cfg c r s)"
proof -
  have ok: "cn_rcvd cn = []" "ident_of s c = None"
    using inv cn by (auto simp: inv_auth_def conn_ok_def pc_of_def rcvd_of_def dest!: spec [of _ c])
  have reg: "sp \<noteq> sp'" if "sessions s sp = Some c" for sp sp'
    using inv_auth_sessionsD [OF inv that] ok by simp
  have pc: "pc_of s c = Some CFirst" "rcvd_of s c = Some []"
    using cn ok by (simp_all add: pc_of_def rcvd_of_def)
  show ?thesis
  proof (rule inv_auth_connI [OF inv, where c = c])
    show "conn_ok cfg c (pc_of (conn_first cfg c r s) c) (rcvd_of (conn_first cfg c r s) c)
        (ident_of (conn_first cfg c r s) c)"
      using pc ok by (auto simp: conn_first_def conn_fail_def conn_ok_def check_handshake_Inr
          session_new_def split: recv_result.splits sum.splits)
  qed (use inv reg in \<open>auto simp: conn_first_def conn_fail_def inv_auth_def session_new_def
      split: recv_result.splits sum.splits\<close>)
qed

text \<open>
  The effect of any later segment of a connection on the views: it moves to a position with the same
  locals (or none), may log a frame, and may only register itself under its own identifier.
\<close>

definition conn_moves :: "nat \<Rightarrow> conn \<Rightarrow> server \<Rightarrow> server \<Rightarrow> bool" where
  "conn_moves c cn s s' \<longleftrightarrow>
     (\<exists>pc' gs. pc_of s' c = Some pc' \<and> pc' \<noteq> CFirst \<and>
        (ctx_of pc' = ctx_of (cn_pc cn) \<or> ctx_of pc' = None) \<and>
        rcvd_of s' c = Some (cn_rcvd cn @ gs)) \<and>
     (\<forall>d. d \<noteq> c \<longrightarrow> pc_of s' d = pc_of s d \<and> rcvd_of s' d = rcvd_of s d) \<and>
     (\<forall>d. ident_of s' d = ident_of s d) \<and>
     (\<forall>sp d. sessions s' sp = Some d \<longrightarrow>
        sessions s sp = Some d \<or> d = c \<and> map_option cx_id (ctx_of (cn_pc cn)) = Some sp)"

lemma conn_movesI:
  assumes "conns s c = Some cn" and "pc_of s' c = Some pc'" and "pc' \<noteq> CFirst"
    and "ctx_of pc' = ctx_of (cn_pc cn) \<or> ctx_of pc' = None"
    and "rcvd_of s' c = Some (cn_rcvd cn @ gs)"
    and "\<And>d. d \<noteq> c \<Longrightarrow> pc_of s' d = pc_of s d \<and> rcvd_of s' d = rcvd_of s d"
    and "\<And>d. ident_of s' d = ident_of s d"
    and "\<And>sp d. sessions s' sp = Some d \<Longrightarrow>
        sessions s sp = Some d \<or> d = c \<and> map_option cx_id (ctx_of (cn_pc cn)) = Some sp"
  shows "conn_moves c cn s s'"
  using assms unfolding conn_moves_def by blast

lemma conn_moves_refl:
  "conns s c = Some cn \<Longrightarrow> cn_pc cn \<noteq> CFirst \<Longrightarrow> conn_moves c cn s s"
  unfolding conn_moves_def by (auto simp: pc_of_def rcvd_of_def intro: exI [of _ "[]"])

lemma conn_step_moves:
  assumes st: "conn_step cfg c inp s = Some s'" and cn: "conns s c = Some cn" "cn_pc cn \<noteq> CFirst"
  shows "conn_moves c cn s s'"
proof -
  have pc: "pc_of s c = Some (cn_pc cn)" and fs: "rcvd_of s c = Some (cn_rcvd cn)"
    using cn by (simp_all add: pc_of_def rcvd_of_def)
  from st show ?thesis
  proof (cases rule: conn_stepE)
    case (First cn' r)
    with cn show ?thesis by simp
  next
    case (Lock cn' ctx)
    with cn pc fs show ?thesis
      unfolding conn_moves_def by (auto simp: conn_ops split: option.splits)
  next
    case (OldFlag cn' ctx old)
    with cn pc fs show ?thesis unfolding conn_moves_def by (auto simp: conn_ops)
  next
    case (OldClear cn' ctx old)
    with cn pc fs show ?thesis unfolding conn_moves_def by (auto simp: conn_ops)
  next
    case (Insert cn' ctx)
    with cn pc fs show ?thesis unfolding conn_moves_def by (auto simp: conn_ops split: if_splits)
  next
    case (Inc cn' ctx)
    with cn pc fs show ?thesis unfolding conn_moves_def by (auto simp: conn_ops)
  next
    case (Bound cn' ctx)
    with cn pc fs show ?thesis unfolding conn_moves_def by auto
  next
    case (Bind cn' ctx b bs r)
    with cn pc fs show ?thesis
      unfolding conn_moves_def by (auto simp: conn_ops split: op_splits)
  next
    case (Recv cn' ctx r h)
    with cn pc fs show ?thesis
      unfolding conn_moves_def by (auto simp: conn_ops split: op_splits)
  next
    case (Deliver cn' ctx sid k p)
    with cn pc fs show ?thesis
      unfolding conn_moves_def by (auto simp: conn_ops split: op_splits)
  next
    case (DropWriter cn' ctx sid)
    with cn pc fs show ?thesis unfolding conn_moves_def by (auto simp: conn_ops)
  next
    case (Reject cn' ctx f)
    with cn pc fs show ?thesis
      unfolding conn_moves_def
      by (auto simp: conn_ops dest!: session_send_frame split: op_splits)
  next
    case (CloseFlag cn' ctx r)
    with cn pc fs show ?thesis unfolding conn_moves_def by (auto simp: conn_ops)
  next
    case (CloseClear cn' ctx r)
    with cn pc fs show ?thesis unfolding conn_moves_def by (auto simp: conn_ops)
  next
    case (Cleanup cn' ctx r)
    with cn pc fs show ?thesis
      unfolding conn_moves_def by (auto simp: conn_ops split: op_splits)
  next
    case (Abort cn' r)
    with cn pc fs show ?thesis unfolding conn_moves_def by (auto simp: conn_ops)
  qed
qed

text \<open>The other tasks leave connections, session identities and the registry alone.\<close>

definition quiet :: "server \<Rightarrow> server \<Rightarrow> bool" where
  "quiet s s' \<longleftrightarrow>
     (\<forall>d. pc_of s' d = pc_of s d \<and> rcvd_of s' d = rcvd_of s d \<and> ident_of s' d = ident_of s d) \<and>
     sessions s' = sessions s \<and> connected (mets s') = connected (mets s)"

lemma quiet_upd_sess_streams [simp]:
  "ident_of (upd_sess a (\<lambda>ss. ss\<lparr>ss_streams := g ss\<rparr>) s) d = ident_of s d"
  by (rule ident_of_upd_sess) simp

lemma connected_ops [simp]:
  "connected (mets (set_conn_pc c pc s)) = connected (mets s)"
  "connected (mets (upd_sess a f s)) = connected (mets s)"
  "connected (mets (upd_acc a g s)) = connected (mets s)"
  "connected (mets (upd_strm a h s)) = connected (mets s)"
  "connected (mets (upd_http a j s)) = connected (mets s)"
  "connected (mets (session_close_flag a s)) = connected (mets s)"
  "connected (mets (session_close_clear a s)) = connected (mets s)"
  "connected (mets (session_remove a sid s)) = connected (mets s)"
  "connected (mets (session_remove_counted a sid s)) = connected (mets s)"
  "mets (upd_mets m s) = m (mets s)"
  by (simp_all add: state_ops)

lemma quiet_acc_step: "acc_step a r s = Some s' \<Longrightarrow> quiet s s'"
  by (erule acc_stepE)
    (auto simp: quiet_def acc_ops dest!: session_send_frame split: op_splits)

lemma quiet_acc_cancel: "acc_cancel a s = Some s' \<Longrightarrow> quiet s s'"
  by (auto simp: quiet_def acc_ops split: op_splits acc_pc.splits)

lemma quiet_up_step: "up_step k r s = Some s' \<Longrightarrow> quiet s s'"
  by (erule up_stepE)
    (auto simp: quiet_def acc_ops dest!: session_send_frame split: op_splits)

lemma quiet_dn_step: "dn_step k r s = Some s' \<Longrightarrow> quiet s s'"
  by (erule dn_stepE) (auto simp: quiet_def acc_ops split: op_splits)

lemma connected_handle_http:
  "handle_http_request cfg env sid req sp m = (f, m') \<Longrightarrow> connected m' = connected m"
  by (auto simp: handle_http_request_def Let_def split: sum.splits if_splits)

lemma quiet_http_run: "http_run cfg env h s = Some s' \<Longrightarrow> quiet s s'"
  by (auto simp: quiet_def http_run_def dest: connected_handle_http
      split: option.splits http_pc.splits prod.splits)

lemma quiet_http_send: "http_send h s = Some s' \<Longrightarrow> quiet s s'"
  by (auto simp: quiet_def http_send_def dest!: session_send_frame
      split: option.splits http_pc.splits sent.splits)

lemma quiet_out: "out_take c s = Some s' \<Longrightarrow> quiet s s'" "out_drop c s = Some s' \<Longrightarrow> quiet s s'"
  by (auto simp: quiet_def out_take_def out_drop_def split: op_splits)

lemmas quiet_steps =
  quiet_acc_step quiet_acc_cancel quiet_up_step quiet_dn_step quiet_http_run quiet_http_send quiet_out

text \<open>So a step opens a connection, moves a connection, or is quiet.\<close>

lemma step_cases:
  assumes "step cfg e s = Some s'"
  obtains
    (Connect) c n t where "e = EvConnect c n t" "connect c n t s = Some s'"
  | (Conn) c inp where "e = EvConn c inp" "conn_step cfg c inp s = Some s'"
  | (Quiet) "quiet s s'" "\<And>c inp. e \<noteq> EvConn c inp" "\<And>c n t. e \<noteq> EvConnect c n t"
proof (cases e)
  case (EvConnect c n t)
  with assms Connect show thesis by simp
next
  case (EvConn c inp)
  with assms Conn show thesis by simp
qed (use assms Quiet quiet_steps in \<open>simp; blast\<close>)+

lemma connect_SomeD:
  assumes "connect c n t s = Some s'"
  shows "conns s c = None" "outs s c = None" "sess s c = None" "length n = 32"
    "s' = s\<lparr>outs := (outs s)(c \<mapsto>
            \<lparr>ot_chan = \<lparr>ch_queue = [challenge_frame n t], ch_cap = 256, ch_rx = True\<rparr>, ot_sent = []\<rparr>),
            conns := (conns s)(c \<mapsto> \<lparr>cn_pc = CFirst, cn_rcvd = []\<rparr>)\<rparr>"
  using assms by (auto simp: connect_def chan_send_def channel_def split: if_splits)

lemma connect_views:
  assumes "connect c n t s = Some s'"
  shows "pc_of s' d = (if d = c then Some CFirst else pc_of s d)"
    "rcvd_of s' d = (if d = c then Some [] else rcvd_of s d)"
    "ident_of s' d = ident_of s d" "sessions s' = sessions s" "mets s' = mets s"
    "pc_of s c = None" "rcvd_of s c = None" "ident_of s c = None"
  using connect_SomeD [OF assms] by (simp_all add: view_defs)

lemma conn_ok_move:
  assumes "conn_ok cfg c (Some pc) (Some fs) io" "pc \<noteq> CFirst"
    and "pc' \<noteq> CFirst" "ctx_of pc' = ctx_of pc \<or> ctx_of pc' = None"
  shows "conn_ok cfg c (Some pc') (Some (fs @ gs)) io"
  using assms authenticated_append
  by (fastforce simp: conn_ok_def split: option.splits prod.splits)

lemma inv_auth_step:
  assumes inv: "inv_auth cfg s" and st: "step cfg e s = Some s'"
  shows "inv_auth cfg s'"
  using st
proof (cases rule: step_cases)
  case (Connect c n t)
  note v = connect_views [OF Connect(2)]
  show ?thesis
    by (rule inv_auth_connI [OF inv, where c = c])
      (use v inv in \<open>auto simp: conn_ok_def inv_auth_def\<close>)
next
  case (Conn c inp)
  then obtain cn where cn: "conns s c = Some cn"
    by (auto simp: conn_step_def split: option.splits)
  show ?thesis
  proof (cases "cn_pc cn = CFirst")
    case True
    with Conn(2) cn obtain r where "s' = conn_first cfg c r s"
      by (auto elim!: conn_stepE)
    with inv_auth_first [OF inv cn True] show ?thesis by simp
  next
    case False
    have ok: "conn_ok cfg c (Some (cn_pc cn)) (Some (cn_rcvd cn)) (ident_of s c)"
      using inv cn by (auto simp: inv_auth_def pc_of_def rcvd_of_def dest!: spec [of _ c])
    note mv = conn_step_moves [OF Conn(2) cn False, unfolded conn_moves_def]
    then obtain pc' gs where new: "pc_of s' c = Some pc'" "pc' \<noteq> CFirst"
      "ctx_of pc' = ctx_of (cn_pc cn) \<or> ctx_of pc' = None" "rcvd_of s' c = Some (cn_rcvd cn @ gs)"
      by blast
    show ?thesis
    proof (rule inv_auth_connI [OF inv, where c = c])
      show "conn_ok cfg c (pc_of s' c) (rcvd_of s' c) (ident_of s' c)"
        using conn_ok_move [OF ok False new(2,3)] new mv by simp
    next
      fix sp d
      assume "sessions s' sp = Some d"
      with mv consider "sessions s sp = Some d" | ctx where "d = c" "ctx_of (cn_pc cn) = Some ctx" "cx_id ctx = sp"
        by (metis map_option_eq_Some)
      then show "map_option fst (ident_of s' d) = Some sp"
        using mv inv inv_auth_connD(1) [OF inv cn] by cases (auto simp: inv_auth_def)
    qed (use mv in auto)
  qed
next
  case Quiet
  with inv show ?thesis by (simp add: quiet_def inv_auth_def)
qed

lemma inv_auth_reach: "reach cfg n s \<Longrightarrow> inv_auth cfg s"
  by (induction rule: reach.induct) (auto intro: inv_auth_init inv_auth_step)

section \<open>Listeners and forwarding tasks\<close>

text \<open>Connection \<open>c\<close> owns a session of the spoke \<open>sp\<close>, whose configured token it presented.\<close>

definition owner :: "server_config \<Rightarrow> server \<Rightarrow> nat \<Rightarrow> string \<Rightarrow> spoke_config \<Rightarrow> bool" where
  "owner cfg s c sp sc \<longleftrightarrow>
     ident_of s c = Some (sp, c) \<and> (\<exists>fs. rcvd_of s c = Some fs \<and> authenticated cfg fs sp sc)"

lemma owner_of_ctx:
  assumes "inv_auth cfg s" "conns s c = Some cn" "ctx_of (cn_pc cn) = Some ctx"
  shows "owner cfg s c (cx_id ctx) (cx_sc ctx)"
  using inv_auth_connD [OF assms] by (simp add: owner_def)

lemma owner_step:
  assumes inv: "inv_auth cfg s" and st: "step cfg e s = Some s'" and ow: "owner cfg s d sp sc"
  shows "owner cfg s' d sp sc"
  using st
proof (cases rule: step_cases)
  case (Connect c n t)
  with ow connect_views [OF Connect(2)] show ?thesis by (auto simp: owner_def)
next
  case (Conn c inp)
  then obtain cn where cn: "conns s c = Some cn"
    by (auto simp: conn_step_def split: option.splits)
  show ?thesis
  proof (cases "cn_pc cn = CFirst")
    case True
    with Conn(2) cn obtain r where s': "s' = conn_first cfg c r s"
      by (auto elim!: conn_stepE)
    have "ident_of s c = None"
      using inv cn True by (auto simp: inv_auth_def conn_ok_def pc_of_def rcvd_of_def dest!: spec [of _ c])
    with ow have "d \<noteq> c" by (auto simp: owner_def)
    with ow s' show ?thesis
      by (auto simp: owner_def conn_first_def conn_fail_def split: recv_result.splits sum.splits)
  next
    case False
    from conn_step_moves [OF Conn(2) cn False] ow cn show ?thesis
      by (cases "d = c")
        (auto simp: conn_moves_def owner_def rcvd_of_def intro: authenticated_append)
  qed
next
  case Quiet
  with ow show ?thesis by (auto simp: quiet_def owner_def)
qed

definition same_listener :: "acceptor \<Rightarrow> acceptor \<Rightarrow> bool" where
  "same_listener ac ac' \<longleftrightarrow>
     ac_sess ac' = ac_sess ac \<and> ac_port ac' = ac_port ac \<and> ac_target ac' = ac_target ac"

definition listener_ok :: "server_config \<Rightarrow> server \<Rightarrow> acceptor \<Rightarrow> bool" where
  "listener_ok cfg s ac \<longleftrightarrow>
     (\<exists>sp sc b. owner cfg s (ac_sess ac) sp sc \<and> b \<in> set (sc_ports sc) \<and>
        pb_port b = ac_port ac \<and> pb_target b = ac_target ac)"

definition forward_ok :: "server_config \<Rightarrow> server \<Rightarrow> http_task \<Rightarrow> bool" where
  "forward_ok cfg s t \<longleftrightarrow> (\<exists>sp sc. owner cfg s (ht_sess t) sp sc \<and> sc_kind sc = Application)"

lemma listener_ok_same: "same_listener ac ac' \<Longrightarrow> listener_ok cfg s ac \<Longrightarrow> listener_ok cfg s ac'"
  by (simp add: listener_ok_def same_listener_def)

definition owners_kept :: "server_config \<Rightarrow> server \<Rightarrow> server \<Rightarrow> bool" where
  "owners_kept cfg s s' \<longleftrightarrow> (\<forall>d sp sc. owner cfg s d sp sc \<longrightarrow> owner cfg s' d sp sc)"

lemma listener_ok_mono: "owners_kept cfg s s' \<Longrightarrow> listener_ok cfg s ac \<Longrightarrow> listener_ok cfg s' ac"
  unfolding listener_ok_def owners_kept_def by blast

lemma forward_ok_mono: "owners_kept cfg s s' \<Longrightarrow> forward_ok cfg s t \<Longrightarrow> forward_ok cfg s' t"
  unfolding forward_ok_def owners_kept_def by blast

text \<open>The ports still to bind are ports of the connection's own spoke.\<close>

definition binds_ok :: "server \<Rightarrow> bool" where
  "binds_ok s \<longleftrightarrow>
     (\<forall>c ctx bs. pc_of s c = Some (CBind ctx bs) \<longrightarrow> set bs \<subseteq> set (sc_ports (cx_sc ctx)))"

definition inv_tasks :: "server_config \<Rightarrow> server \<Rightarrow> bool" where
  "inv_tasks cfg s \<longleftrightarrow>
     (\<forall>a ac. accs s a = Some ac \<longrightarrow> listener_ok cfg s ac) \<and>
     (\<forall>p a. ports s p = Some a \<longrightarrow>
        (\<exists>ac. accs s a = Some ac \<and> ac_port ac = p \<and> ac_pc ac \<noteq> ADone)) \<and>
     (\<forall>h t. https s h = Some t \<longrightarrow> forward_ok cfg s t) \<and>
     binds_ok s"

text \<open>What a step may do to the tables of listeners and of forwarding tasks.\<close>

definition tasks_kept :: "server \<Rightarrow> server \<Rightarrow> bool" where
  "tasks_kept s s' \<longleftrightarrow>
     (\<forall>a ac'. accs s' a = Some ac' \<longrightarrow> (\<exists>ac. accs s a = Some ac \<and> same_listener ac ac')) \<and>
     (\<forall>p a. ports s' p = Some a \<longrightarrow> ports s p = Some a) \<and>
     (\<forall>a ac. accs s a = Some ac \<longrightarrow> (\<exists>p. ports s' p = Some a) \<longrightarrow> ac_pc ac \<noteq> ADone \<longrightarrow>
        (\<exists>ac'. accs s' a = Some ac' \<and> same_listener ac ac' \<and> ac_pc ac' \<noteq> ADone)) \<and>
     (\<forall>h t'. https s' h = Some t' \<longrightarrow> (\<exists>t. https s h = Some t \<and> ht_sess t' = ht_sess t))"

lemma tasks_kept_same:
  "accs s' = accs s \<Longrightarrow> ports s' = ports s \<Longrightarrow> https s' = https s \<Longrightarrow> tasks_kept s s'"
  by (auto simp: tasks_kept_def same_listener_def)

lemma tables_ops [simp]:
  "accs (set_conn_pc c pc s) = accs s" "ports (set_conn_pc c pc s) = ports s"
  "https (set_conn_pc c pc s) = https s"
  "accs (upd_sess a f s) = accs s" "ports (upd_sess a f s) = ports s"
  "https (upd_sess a f s) = https s"
  "ports (upd_acc a g s) = ports s" "https (upd_acc a g s) = https s"
  "accs (upd_strm k v s) = accs s" "ports (upd_strm k v s) = ports s"
  "https (upd_strm k v s) = https s"
  "accs (upd_http h t s) = accs s" "ports (upd_http h t s) = ports s"
  "accs (upd_mets m s) = accs s" "ports (upd_mets m s) = ports s" "https (upd_mets m s) = https s"
  "accs (session_close_flag a s) = accs s" "ports (session_close_flag a s) = ports s"
  "https (session_close_flag a s) = https s"
  "accs (session_close_clear a s) = accs s" "ports (session_close_clear a s) = ports s"
  "https (session_close_clear a s) = https s"
  "accs (session_remove a sid s) = accs s" "ports (session_remove a sid s) = ports s"
  "https (session_remove a sid s) = https s"
  "accs (session_remove_counted a sid s) = accs s" "ports (session_remove_counted a sid s) = ports s"
  "https (session_remove_counted a sid s) = https s"
  by (simp_all add: state_ops)

lemma accs_upd_acc [simp]: "accs (upd_acc a f s) b = (if b = a then map_option f (accs s a) else accs s b)"
  by (simp add: upd_acc_def)

lemma https_upd_http [simp]:
  "https (upd_http h f s) g = (if g = h then map_option f (https s h) else https s g)"
  by (simp add: upd_http_def)

lemma tasks_kept_acc_step: "acc_step a r s = Some s' \<Longrightarrow> tasks_kept s s'"
  by (erule acc_stepE)
    (auto simp: tasks_kept_def same_listener_def acc_ops dest!: session_send_frame split: op_splits)

lemma tasks_kept_acc_cancel: "acc_cancel a s = Some s' \<Longrightarrow> tasks_kept s s'"
  by (auto simp: tasks_kept_def same_listener_def acc_ops split: op_splits acc_pc.splits)

lemma tasks_kept_up_step: "up_step k r s = Some s' \<Longrightarrow> tasks_kept s s'"
  by (erule up_stepE)
    (auto intro!: tasks_kept_same simp: acc_ops dest!: session_send_frame split: op_splits)

lemma tasks_kept_dn_step: "dn_step k r s = Some s' \<Longrightarrow> tasks_kept s s'"
  by (erule dn_stepE) (auto intro!: tasks_kept_same simp: acc_ops split: op_splits)

lemma tasks_kept_http_run: "http_run cfg env h s = Some s' \<Longrightarrow> tasks_kept s s'"
  by (auto simp: tasks_kept_def same_listener_def http_run_def
      split: option.splits http_pc.splits prod.splits if_splits)

lemma tasks_kept_http_send: "http_send h s = Some s' \<Longrightarrow> tasks_kept s s'"
  by (auto simp: tasks_kept_def same_listener_def http_send_def dest!: session_send_frame
      split: option.splits http_pc.splits sent.splits if_splits)

lemma tasks_kept_out:
  "out_take c s = Some s' \<Longrightarrow> tasks_kept s s'" "out_drop c s = Some s' \<Longrightarrow> tasks_kept s s'"
  by (auto intro!: tasks_kept_same simp: out_take_def out_drop_def split: op_splits)

lemma inv_tasks_kept:
  assumes inv: "inv_tasks cfg s" and kept: "tasks_kept s s'"
    and own: "owners_kept cfg s s'" and pcs: "binds_ok s'"
  shows "inv_tasks cfg s'"
  unfolding inv_tasks_def
proof (intro conjI allI impI)
  fix a ac'
  assume "accs s' a = Some ac'"
  with kept obtain ac where "accs s a = Some ac" "same_listener ac ac'"
    unfolding tasks_kept_def by blast
  moreover from this(1) inv have "listener_ok cfg s ac"
    by (simp add: inv_tasks_def)
  ultimately show "listener_ok cfg s' ac'"
    by (blast intro: listener_ok_mono [OF own] listener_ok_same)
next
  fix p a
  assume p: "ports s' p = Some a"
  with kept have "ports s p = Some a"
    unfolding tasks_kept_def by blast
  with inv obtain ac where ac: "accs s a = Some ac" "ac_port ac = p" "ac_pc ac \<noteq> ADone"
    unfolding inv_tasks_def by blast
  with kept p obtain ac' where "accs s' a = Some ac'" "same_listener ac ac'" "ac_pc ac' \<noteq> ADone"
    unfolding tasks_kept_def by blast
  with ac show "\<exists>ac. accs s' a = Some ac \<and> ac_port ac = p \<and> ac_pc ac \<noteq> ADone"
    by (auto simp: same_listener_def)
next
  fix h t'
  assume "https s' h = Some t'"
  with kept obtain t where "https s h = Some t" "ht_sess t' = ht_sess t"
    unfolding tasks_kept_def by blast
  moreover from this(1) inv have "forward_ok cfg s t"
    by (simp add: inv_tasks_def)
  then have "forward_ok cfg s' t" by (rule forward_ok_mono [OF own])
  ultimately show "forward_ok cfg s' t'" by (simp add: forward_ok_def)
qed (rule pcs)

lemma pc_of_conn: "conns s d = Some cn \<Longrightarrow> pc_of s d = Some (cn_pc cn)"
  by (simp add: pc_of_def)

text \<open>Only two segments lead to the binding loop: counting the session, and binding one port.\<close>

lemma conn_step_to_bind:
  assumes st: "conn_step cfg d inp s = Some s'" and pc': "pc_of s' d = Some (CBind ctx bs)"
  shows "pc_of s d = Some (CInc ctx) \<and> bs = sc_ports (cx_sc ctx) \<or>
         (\<exists>b. pc_of s d = Some (CBind ctx (b # bs)))"
  using st
proof (cases rule: conn_stepE)
  case (Recv cn ctx' r h)
  then show ?thesis using pc' by (auto simp: conn_ops pc_of_conn split: op_splits)
next
  case (Reject cn ctx' f)
  then show ?thesis
    using pc' by (auto simp: conn_ops pc_of_conn dest!: session_send_frame split: op_splits)
qed (use pc' in \<open>auto simp: conn_ops conn_first_def pc_of_conn split: op_splits sum.splits\<close>)

lemma conn_step_other_pc:
  assumes "conn_step cfg d inp s = Some s'" "c \<noteq> d"
  shows "pc_of s' c = pc_of s c"
proof -
  from assms obtain cn where cn: "conns s d = Some cn"
    by (auto simp: conn_step_def split: option.splits)
  show ?thesis
  proof (cases "cn_pc cn = CFirst")
    case True
    with assms(1) cn obtain r where "s' = conn_first cfg d r s" by (auto elim!: conn_stepE)
    with assms(2) show ?thesis
      by (auto simp: conn_first_def conn_fail_def split: recv_result.splits sum.splits)
  next
    case False
    from conn_step_moves [OF assms(1) cn False] assms(2) show ?thesis
      unfolding conn_moves_def by blast
  qed
qed

lemma bind_pc_step:
  assumes inv: "inv_tasks cfg s" and st: "step cfg e s = Some s'"
  shows "binds_ok s'"
  unfolding binds_ok_def
proof (intro allI impI)
  fix c ctx bs
  assume pc': "pc_of s' c = Some (CBind ctx bs)"
  have old: "set xs \<subseteq> set (sc_ports (cx_sc ctx))" if "pc_of s d = Some (CBind ctx xs)" for d xs
    using inv that by (simp add: inv_tasks_def binds_ok_def)
  from st show "set bs \<subseteq> set (sc_ports (cx_sc ctx))"
  proof (cases rule: step_cases)
    case (Connect d n t)
    with pc' old [of c bs] connect_views(1) [OF Connect(2)] show ?thesis by (simp split: if_splits)
  next
    case (Conn d inp)
    show ?thesis
    proof (cases "c = d")
      case True
      from conn_step_to_bind [OF Conn(2)] pc' True old show ?thesis by fastforce
    next
      case False
      from conn_step_other_pc [OF Conn(2) False] pc' old show ?thesis by simp
    qed
  next
    case Quiet
    with pc' old show ?thesis by (simp add: quiet_def)
  qed
qed

text \<open>The two segments that add a listener or a forwarding task.\<close>

lemma inv_tasks_bind:
  assumes auth: "inv_auth cfg s" and inv: "inv_tasks cfg s"
    and cn: "conns s c = Some cn" "cn_pc cn = CBind ctx (b # bs)"
    and free: "\<not> port_held (pb_port b) s" "accs s a = None"
    and own: "owners_kept cfg s s'" and pcs: "binds_ok s'"
    and s': "accs s' = (accs s)(a \<mapsto>
               \<lparr>ac_sess = c, ac_port = pb_port b, ac_target = pb_target b,
                ac_pc = ACheck, ac_abort = False\<rparr>)"
      "ports s' = (if pb_port b = 0 then ports s else (ports s)(pb_port b \<mapsto> a))"
      "https s' = https s"
  shows "inv_tasks cfg s'"
proof -
  let ?ac = "\<lparr>ac_sess = c, ac_port = pb_port b, ac_target = pb_target b, ac_pc = ACheck, ac_abort = False\<rparr>"
  have "owner cfg s' c (cx_id ctx) (cx_sc ctx)"
    using own owner_of_ctx [OF auth cn(1)] cn(2) by (simp add: owners_kept_def)
  moreover have "b \<in> set (sc_ports (cx_sc ctx))"
    using inv pc_of_conn [OF cn(1)] cn(2) unfolding inv_tasks_def binds_ok_def by fastforce
  ultimately have new: "listener_ok cfg s' ?ac"
    unfolding listener_ok_def by fastforce
  have noa: "ports s p \<noteq> Some a" for p
    using inv free(2) unfolding inv_tasks_def by fastforce
  show ?thesis
    unfolding inv_tasks_def
  proof (intro conjI allI impI)
    fix a' ac
    assume "accs s' a' = Some ac"
    then consider "ac = ?ac" | "accs s a' = Some ac"
      by (cases "a' = a") (simp_all add: s'(1))
    then show "listener_ok cfg s' ac"
    proof cases
      case 2
      with inv have "listener_ok cfg s ac" by (simp add: inv_tasks_def)
      then show ?thesis by (rule listener_ok_mono [OF own])
    qed (use new in simp)
  next
    fix p a'
    assume "ports s' p = Some a'"
    then consider "p = pb_port b" "a' = a" | "ports s p = Some a'" "a' \<noteq> a"
      using noa by (cases "p = pb_port b"; cases "pb_port b = 0") (auto simp: s'(2))
    then show "\<exists>ac. accs s' a' = Some ac \<and> ac_port ac = p \<and> ac_pc ac \<noteq> ADone"
      using inv by cases (auto simp: s' inv_tasks_def)
  next
    fix h t
    assume "https s' h = Some t"
    then have "forward_ok cfg s t" using inv by (simp add: s' inv_tasks_def)
    then show "forward_ok cfg s' t" by (rule forward_ok_mono [OF own])
  qed (rule pcs)
qed

lemma conn_recv_tables:
  assumes "conn_recv c ctx r h s = Some s'"
  shows "accs s' = accs s" "ports s' = ports s"
    "https s' = https s \<or>
     sc_kind (cx_sc ctx) = Application \<and>
     (\<exists>sid p. https s' = (https s)(h \<mapsto> \<lparr>ht_sess = c, ht_sid = sid, ht_pc = p\<rparr>))"
  using assms
  by (cases "sc_kind (cx_sc ctx)"; auto simp: conn_ops split: op_splits)+

lemma inv_tasks_recv:
  assumes auth: "inv_auth cfg s" and inv: "inv_tasks cfg s"
    and cn: "conns s c = Some cn" "cn_pc cn = CRecv ctx" and r: "conn_recv c ctx r h s = Some s'"
    and own: "owners_kept cfg s s'" and pcs: "binds_ok s'"
  shows "inv_tasks cfg s'"
proof -
  note t = conn_recv_tables [OF r]
  have ow: "owner cfg s' c (cx_id ctx) (cx_sc ctx)"
    using own owner_of_ctx [OF auth cn(1)] cn(2) by (simp add: owners_kept_def)
  have "forward_ok cfg s' tk" if "https s' g = Some tk" for g tk
  proof -
    from t(3) that consider "https s g = Some tk"
      | "sc_kind (cx_sc ctx) = Application" "ht_sess tk = c"
      by (auto split: if_splits)
    then show ?thesis
    proof cases
      case 1
      with inv have "forward_ok cfg s tk" by (simp add: inv_tasks_def)
      then show ?thesis by (rule forward_ok_mono [OF own])
    qed (use ow in \<open>auto simp: forward_ok_def\<close>)
  qed
  moreover have "listener_ok cfg s' ac" if "accs s' a = Some ac" for a ac
  proof -
    from that t(1) inv have "listener_ok cfg s ac" by (simp add: inv_tasks_def)
    then show ?thesis by (rule listener_ok_mono [OF own])
  qed
  ultimately show ?thesis
    using inv pcs t(1,2) unfolding inv_tasks_def by simp
qed

lemma inv_tasks_conn_step:
  assumes auth: "inv_auth cfg s" and inv: "inv_tasks cfg s"
    and st: "step cfg (EvConn c inp) s = Some s'"
  shows "inv_tasks cfg s'"
proof -
  have own: "owners_kept cfg s s'"
    using owner_step [OF auth st] by (simp add: owners_kept_def)
  have pcs: "binds_ok s'"
    by (rule bind_pc_step [OF inv st])
  have keptI: "inv_tasks cfg s'" if "tasks_kept s s'"
    using inv_tasks_kept [OF inv that own pcs] .
  from st have "conn_step cfg c inp s = Some s'" by simp
  then show ?thesis
  proof (cases rule: conn_stepE)
    case (Bind cn ctx b bs r)
    show ?thesis
    proof (cases r)
      case (BindOk a)
      with Bind(3) have "\<not> port_held (pb_port b) s" "accs s a = None"
        "accs s' = (accs s)(a \<mapsto>
           \<lparr>ac_sess = c, ac_port = pb_port b, ac_target = pb_target b, ac_pc = ACheck, ac_abort = False\<rparr>)"
        "ports s' = (if pb_port b = 0 then ports s else (ports s)(pb_port b \<mapsto> a))"
        "https s' = https s"
        by (auto simp: conn_bind_alt split: if_splits)
      from inv_tasks_bind [OF auth inv Bind(1,2) this(1,2) own pcs this(3-5)] show ?thesis .
    next
      case BindErr
      with Bind show ?thesis
        by (intro keptI) (auto simp: conn_bind_alt intro!: tasks_kept_same split: op_splits)
    qed
  next
    case (Recv cn ctx r h)
    from inv_tasks_recv [OF auth inv this own pcs] show ?thesis .
  next
    case (Deliver cn ctx sid k p)
    then show ?thesis
      by (intro keptI) (auto simp: conn_ops intro!: tasks_kept_same split: op_splits)
  next
    case (Reject cn ctx f)
    then show ?thesis
      by (intro keptI)
        (auto simp: conn_ops intro!: tasks_kept_same dest!: session_send_frame split: op_splits)
  next
    case (Abort cn r)
    then show ?thesis
      by (intro keptI) (auto simp: conn_ops tasks_kept_def same_listener_def)
  qed (intro keptI; auto simp: conn_ops conn_first_def intro!: tasks_kept_same split: op_splits sum.splits)+
qed

lemma tasks_kept_step:
  assumes "step cfg e s = Some s'" and "\<And>c inp. e \<noteq> EvConn c inp"
  shows "tasks_kept s s'"
proof (cases e)
  case (EvConnect c n t)
  with assms(1) have "connect c n t s = Some s'" by simp
  from connect_SomeD(5) [OF this] show ?thesis by (intro tasks_kept_same) simp_all
next
  case (EvConn c inp)
  with assms(2) [of c inp] show ?thesis by simp
qed (use assms(1) in \<open>auto intro: tasks_kept_acc_step tasks_kept_acc_cancel tasks_kept_up_step
      tasks_kept_dn_step tasks_kept_http_run tasks_kept_http_send tasks_kept_out\<close>)

lemma inv_tasks_step:
  assumes auth: "inv_auth cfg s" and inv: "inv_tasks cfg s" and st: "step cfg e s = Some s'"
  shows "inv_tasks cfg s'"
proof (cases "\<exists>c inp. e = EvConn c inp")
  case True
  with auth inv st show ?thesis by (auto intro: inv_tasks_conn_step)
next
  case False
  then have "tasks_kept s s'" using tasks_kept_step [OF st] by blast
  moreover have "owners_kept cfg s s'"
    using owner_step [OF auth st] by (simp add: owners_kept_def)
  ultimately show ?thesis
    using inv_tasks_kept [OF inv] bind_pc_step [OF inv st] by blast
qed

lemma inv_tasks_init: "inv_tasks cfg server_init"
  by (simp add: inv_tasks_def binds_ok_def server_init_def view_defs)

lemma inv_tasks_reach: "reach cfg n s \<Longrightarrow> inv_tasks cfg s"
  by (induction rule: reach.induct) (auto intro: inv_tasks_init inv_tasks_step inv_auth_reach)

section \<open>Who is connected\<close>

text \<open>
  C1. In every reachable state, a registered session belongs to a connection whose first frame was a
  handshake for exactly that spoke, with the bytes of the token configured for it.
\<close>
theorem session_is_authenticated:
  assumes "reach cfg n s" and "sessions s sp = Some c"
  shows "\<exists>cn sc. conns s c = Some cn \<and> authenticated cfg (cn_rcvd cn) sp sc"
proof -
  have inv: "inv_auth cfg s" using assms(1) by (rule inv_auth_reach)
  then have "map_option fst (ident_of s c) = Some sp"
    and ok: "conn_ok cfg c (pc_of s c) (rcvd_of s c) (ident_of s c)"
    using assms(2) by (auto simp: inv_auth_def)
  then obtain tx where "ident_of s c = Some (sp, tx)" by auto
  with ok show ?thesis
    by (auto simp: conn_ok_def pc_of_def rcvd_of_def split: option.splits if_splits)
qed

theorem session_is_authenticated_witness:
  "\<exists>n s cn sc. reach demo_cfg n s \<and> sessions s ''app-b'' = Some 0 \<and>
     conns s 0 = Some cn \<and> authenticated demo_cfg (cn_rcvd cn) ''app-b'' sc"
proof -
  have "map_option (\<lambda>s. sessions s ''app-b'' = Some 0)
      (run demo_cfg (join_events 0 ''app-b'' ''t'') server_init) = Some True"
    by code_simp
  then obtain s where s: "reach demo_cfg (length (join_events 0 ''app-b'' ''t'')) s"
    "sessions s ''app-b'' = Some 0"
    by (rule run_obtains)
  from session_is_authenticated [OF s] s show ?thesis by blast
qed

text \<open>
  C7. A hub port listens only on behalf of a spoke that authenticated on its connection, only if that
  port is configured for that spoke, and the listener forwards to the target configured with it.
\<close>
theorem listening_port_is_authenticated:
  assumes "reach cfg n s" and "ports s p = Some a"
  shows "\<exists>ac cn sp sc b. accs s a = Some ac \<and> conns s (ac_sess ac) = Some cn \<and>
     authenticated cfg (cn_rcvd cn) sp sc \<and> b \<in> set (sc_ports sc) \<and>
     pb_port b = p \<and> pb_target b = ac_target ac"
proof -
  from inv_tasks_reach [OF assms(1)] assms(2) obtain ac where "accs s a = Some ac" "ac_port ac = p"
    and "listener_ok cfg s ac"
    by (fastforce simp: inv_tasks_def)
  then show ?thesis
    by (fastforce simp: listener_ok_def owner_def rcvd_of_def)
qed

definition cluster_events :: "event list" where
  "cluster_events = join_events 0 ''spoke-a'' ''s3:cret'' @
     [EvConn 0 (InBind (BindOk 0)), EvConn 0 (InBind (BindOk 1)), EvConn 0 InStep]"

theorem listening_port_is_authenticated_witness:
  "\<exists>n s ac cn sp sc b. reach demo_cfg n s \<and> ports s 10011 = Some 1 \<and> accs s 1 = Some ac \<and>
     conns s (ac_sess ac) = Some cn \<and> authenticated demo_cfg (cn_rcvd cn) sp sc \<and>
     b \<in> set (sc_ports sc) \<and> pb_port b = 10011 \<and> pb_target b = ac_target ac"
proof -
  have "map_option (\<lambda>s. ports s 10011 = Some 1) (run demo_cfg cluster_events server_init) = Some True"
    by code_simp
  then obtain s where s: "reach demo_cfg (length cluster_events) s" "ports s 10011 = Some 1"
    by (rule run_obtains)
  from listening_port_is_authenticated [OF s] s show ?thesis by blast
qed

text \<open>
  C8. With a loaded configuration, a forwarding task to the hub kernel exists only for a spoke that
  authenticated and whose identifier starts with \<open>app-\<close>.
\<close>
theorem forwarding_is_for_application_spokes:
  assumes "load_config env = Inr cfg" and "reach cfg n s" and "https s h = Some t"
  shows "\<exists>cn sp sc. conns s (ht_sess t) = Some cn \<and> authenticated cfg (cn_rcvd cn) sp sc \<and>
     starts_with sp ''app-''"
proof -
  from inv_tasks_reach [OF assms(2)] assms(3) obtain sp sc where
    ow: "owner cfg s (ht_sess t) sp sc" and kind: "sc_kind sc = Application"
    by (fastforce simp: inv_tasks_def forward_ok_def)
  then have "spokes cfg sp = Some sc" by (auto simp: owner_def authenticated_def)
  with load_config_wf_spokes [OF assms(1)] have "sc_spoke_id sc = sp" "wf_spoke_config sc"
    by (auto simp: wf_spokes_def)
  with kind have "starts_with sp ''app-''"
    by (auto simp: wf_spoke_config_def starts_with_iff split: if_splits)
  with ow show ?thesis by (auto simp: owner_def rcvd_of_def)
qed

definition triage_request :: client_frame where
  "triage_request = \<lparr>cf_stream_id = 2 ^ 63, cf_kind = Some (CHttpRequest
     \<lparr>rq_method = ''POST'', rq_path = ''/core/orchestrator/triage'', rq_headers = [], rq_body = []\<rparr>)\<rparr>"

theorem forwarding_is_for_application_spokes_witness:
  "\<exists>n s t cn sp sc. reach demo_cfg n s \<and> https s 7 = Some t \<and> conns s (ht_sess t) = Some cn \<and>
     authenticated demo_cfg (cn_rcvd cn) sp sc \<and> starts_with sp ''app-''"
proof -
  have "map_option (\<lambda>s. https s 7 \<noteq> None)
      (run demo_cfg (join_events 0 ''app-b'' ''t'' @
         [EvConn 0 InStep, EvConn 0 (InRecv (Frame triage_request) 7)]) server_init) = Some True"
    by code_simp
  then obtain s t where s: "reach demo_cfg (length (join_events 0 ''app-b'' ''t'' @
         [EvConn 0 InStep, EvConn 0 (InRecv (Frame triage_request) 7)])) s" and t: "https s 7 = Some t"
    by (rule run_obtains) blast
  from forwarding_is_for_application_spokes [OF load_demo_cfg s t] s t show ?thesis by blast
qed

end
