(* ===== verification/Server_Registry.thy ===== *)
theory Server_Registry
  imports Server_Safety
begin

text \<open>
  The registry of sessions and the gauge \<open>openspoke_tunnel_connected_spokes\<close>: the registry never
  holds a finished connection, the gauge is the number of registered sessions plus the number of
  displacements so far, and what displacement does when connections race.
\<close>

section \<open>Closing is permanent\<close>

lemma closed_of_upd_sess:
  "(\<And>ss. ss_closed (f ss) = ss_closed ss) \<Longrightarrow> closed_of (upd_sess a f s) d = closed_of s d"
  by (simp add: closed_of_def upd_sess_def option.map_comp comp_def)

lemma closed_of_ops [simp]:
  "closed_of (set_conn_pc c pc s) d = closed_of s d"
  "closed_of (upd_acc a g s) d = closed_of s d" "closed_of (upd_strm a h s) d = closed_of s d"
  "closed_of (upd_http a j s) d = closed_of s d" "closed_of (upd_mets m s) d = closed_of s d"
  "closed_of (session_close_flag a s) d =
     (if d = a then map_option (\<lambda>_. True) (closed_of s a) else closed_of s d)"
  "closed_of (session_close_clear a s) d = closed_of s d"
  "closed_of (session_remove a sid s) d = closed_of s d"
  "closed_of (session_remove_counted a sid s) d = closed_of s d"
  "closed_of (log_frame c f s) d = closed_of s d"
  "closed_of (s\<lparr>sessions := x1\<rparr>) d = closed_of s d" "closed_of (s\<lparr>next_sid := x2\<rparr>) d = closed_of s d"
  "closed_of (s\<lparr>mets := x3\<rparr>) d = closed_of s d" "closed_of (s\<lparr>outs := x4\<rparr>) d = closed_of s d"
  "closed_of (s\<lparr>conns := x5\<rparr>) d = closed_of s d" "closed_of (s\<lparr>accs := x6\<rparr>) d = closed_of s d"
  "closed_of (s\<lparr>ports := x7\<rparr>) d = closed_of s d" "closed_of (s\<lparr>strms := x8\<rparr>) d = closed_of s d"
  "closed_of (s\<lparr>https := x9\<rparr>) d = closed_of s d"
  by (simp_all add: closed_of_def state_ops log_frame_def option.map_comp comp_def)

lemma closed_of_streams [simp]:
  "closed_of (upd_sess a (\<lambda>ss. ss\<lparr>ss_streams := g ss\<rparr>) s) d = closed_of s d"
  by (rule closed_of_upd_sess) simp

lemma closed_of_new [simp]:
  "closed_of (s\<lparr>sess := (sess t)(c \<mapsto> x)\<rparr>) d = (if d = c then Some (ss_closed x) else closed_of t d)"
  by (simp add: closed_of_def)

definition closed_kept :: "server \<Rightarrow> server \<Rightarrow> bool" where
  "closed_kept s s' \<longleftrightarrow> (\<forall>d. closed_of s d = Some True \<longrightarrow> closed_of s' d = Some True)"

lemma is_closed_iff: "is_closed c s \<longleftrightarrow> closed_of s c \<noteq> Some False"
  by (auto simp: is_closed_def closed_of_def split: option.splits)

lemma closed_kept_quiet:
  assumes "step cfg e s = Some s'" "\<And>c inp. e \<noteq> EvConn c inp"
  shows "closed_of s' d = closed_of s d"
proof (cases e)
  case (EvConnect c n t)
  with assms(1) have "connect c n t s = Some s'" by simp
  from connect_SomeD(5) [OF this] show ?thesis by simp
next
  case (EvConn c inp)
  with assms(2) [of c inp] show ?thesis by simp
next
  case (EvAcc a r)
  with assms(1) have "acc_step a r s = Some s'" by simp
  then show ?thesis
    by (rule acc_stepE) (auto simp: acc_ops dest!: session_send_frame split: op_splits)
next
  case (EvCancel a)
  with assms(1) show ?thesis by (auto simp: acc_ops split: op_splits acc_pc.splits)
next
  case (EvUp k r)
  with assms(1) have "up_step k r s = Some s'" by simp
  then show ?thesis
    by (rule up_stepE) (auto simp: acc_ops dest!: session_send_frame split: op_splits)
next
  case (EvDn k r)
  with assms(1) have "dn_step k r s = Some s'" by simp
  then show ?thesis by (rule dn_stepE) (auto simp: acc_ops split: op_splits)
next
  case (EvHttp h env)
  with assms(1) show ?thesis
    by (auto simp: http_run_def split: option.splits http_pc.splits prod.splits)
next
  case (EvHttpSend h)
  with assms(1) show ?thesis
    by (auto simp: http_send_def dest!: session_send_frame
        split: option.splits http_pc.splits sent.splits)
qed (use assms(1) in \<open>auto simp: out_take_def out_drop_def split: op_splits\<close>)

lemma closed_kept_conn_step:
  assumes "inv_auth cfg s" "conn_step cfg c inp s = Some s'"
  shows "closed_kept s s'"
  using assms(2)
proof (cases rule: conn_stepE)
  case (First cn r)
  have "ident_of s c = None"
    using assms(1) First(1,2)
    by (auto simp: inv_auth_def conn_ok_def pc_of_def rcvd_of_def dest!: spec [of _ c])
  then have "closed_of s c = None" by (simp add: closed_of_def ident_of_def)
  with First show ?thesis
    by (auto simp: closed_kept_def conn_first_def conn_fail_def session_new_def
        split: recv_result.splits sum.splits)
next
  case (Reject cn ctx f)
  then show ?thesis
    by (auto simp: closed_kept_def conn_ops dest!: session_send_frame split: op_splits)
qed (auto simp: closed_kept_def conn_ops split: op_splits)

lemma closed_kept_step:
  assumes "inv_auth cfg s" "step cfg e s = Some s'"
  shows "closed_kept s s'"
proof (cases "\<exists>c inp. e = EvConn c inp")
  case True
  with assms show ?thesis by (auto intro: closed_kept_conn_step)
next
  case False
  then show ?thesis using closed_kept_quiet [OF assms(2)] by (simp add: closed_kept_def)
qed

section \<open>The registry holds live connections\<close>

fun registered :: "conn_pc \<Rightarrow> bool" where
  "registered (CInc _) = True"
| "registered (CBind _ _) = True"
| "registered (CRecv _) = True"
| "registered (CDeliver _ _ _ _) = True"
| "registered (CDropWriter _ _) = True"
| "registered (CReject _ _) = True"
| "registered (CCloseFlag _ _) = True"
| "registered (CCloseClear _ _) = True"
| "registered (CCleanup _ _) = True"
| "registered _ = False"

fun self_closed :: "conn_pc \<Rightarrow> bool" where
  "self_closed (CCloseClear _ _) = True"
| "self_closed (CCleanup _ _) = True"
| "self_closed _ = False"

definition inv_reg :: "server \<Rightarrow> bool" where
  "inv_reg s \<longleftrightarrow>
     (\<forall>sp c. sessions s sp = Some c \<longrightarrow> (\<exists>pc. pc_of s c = Some pc \<and> registered pc)) \<and>
     (\<forall>c pc. pc_of s c = Some pc \<longrightarrow> self_closed pc \<longrightarrow> closed_of s c = Some True)"

text \<open>Where a connection in the registry goes next, and that entering the closing part closes it.\<close>

lemma conn_step_registered:
  assumes "conn_step cfg c inp s = Some s'" "pc_of s c = Some pc" "registered pc"
  shows "(\<exists>pc'. pc_of s' c = Some pc' \<and> registered pc') \<or>
         (\<exists>ctx r. pc = CCleanup ctx r \<and> s' = conn_cleanup c ctx r s)"
proof (cases "\<exists>ctx r. pc = CCleanup ctx r")
  case True
  from assms(1) True show ?thesis
    by (cases rule: conn_stepE) (use assms(2) True in \<open>auto simp: pc_of_conn\<close>)
next
  case False
  with assms(2,3) obtain cn where reg: "conns s c = Some cn" "registered (cn_pc cn)"
    "\<forall>ctx r. cn_pc cn \<noteq> CCleanup ctx r"
    by (auto simp: pc_of_def)
  from assms(1) have "\<exists>pc'. pc_of s' c = Some pc' \<and> registered pc'"
  proof (cases rule: conn_stepE)
    case (Reject cn' ctx f)
    with reg show ?thesis
      by (auto simp: conn_ops pc_of_conn dest!: session_send_frame split: op_splits)
  qed (use reg in \<open>auto simp: conn_ops pc_of_conn split: op_splits\<close>)
  then show ?thesis ..
qed

lemma conn_step_self_closed:
  assumes "conn_step cfg c inp s = Some s'" "pc_of s' c = Some pc'" "self_closed pc'"
    and "inv_auth cfg s" and "\<And>pc. pc_of s c = Some pc \<Longrightarrow> self_closed pc \<Longrightarrow> closed_of s c = Some True"
  shows "closed_of s' c = Some True"
  using assms(1)
proof (cases rule: conn_stepE)
  case (CloseFlag cn ctx r)
  have "ident_of s c = Some (cx_id ctx, c)"
    using inv_auth_connD(1) [OF assms(4) CloseFlag(1)] CloseFlag(2) by simp
  then obtain b where "closed_of s c = Some b"
    by (auto simp: closed_of_def ident_of_def)
  with CloseFlag show ?thesis by (simp add: conn_ops)
next
  case (Reject cn ctx f)
  with assms show ?thesis
    by (auto simp: conn_ops pc_of_conn dest!: session_send_frame split: op_splits)
qed (use assms in \<open>auto simp: conn_ops conn_first_def pc_of_conn split: op_splits sum.splits\<close>)

lemma conn_insert_registers:
  assumes "conn_step cfg c inp s = Some s'" "sessions s' sp = Some d" "sessions s sp \<noteq> Some d"
  shows "d = c \<and> (\<exists>ctx. pc_of s' c = Some (CInc ctx) \<and> cx_id ctx = sp)"
  using assms(1)
proof (cases rule: conn_stepE)
  case (Reject cn ctx f)
  with assms(2,3) show ?thesis
    by (auto simp: conn_ops dest!: session_send_frame split: op_splits)
qed (use assms(2,3) in \<open>auto simp: conn_ops conn_first_def pc_of_conn split: op_splits sum.splits\<close>)

lemma inv_reg_conn_step:
  assumes auth: "inv_auth cfg s" and inv: "inv_reg s" and st: "conn_step cfg c inp s = Some s'"
  shows "inv_reg s'"
  unfolding inv_reg_def
proof (intro conjI allI impI)
  fix sp d
  assume d: "sessions s' sp = Some d"
  show "\<exists>pc. pc_of s' d = Some pc \<and> registered pc"
  proof (cases "sessions s sp = Some d")
    case False
    from conn_insert_registers [OF st d False] show ?thesis by auto
  next
    case True
    with inv obtain pc where pc: "pc_of s d = Some pc" "registered pc"
      unfolding inv_reg_def by blast
    show ?thesis
    proof (cases "d = c")
      case False
      with pc conn_step_other_pc [OF st False] show ?thesis by simp
    next
      case True
      from conn_step_registered [OF st] pc True
      consider "\<exists>pc'. pc_of s' c = Some pc' \<and> registered pc'"
        | ctx r where "pc = CCleanup ctx r" "s' = conn_cleanup c ctx r s"
        by blast
      then show ?thesis
      proof cases
        case (2 ctx r)
        have "closed_of s c = Some True"
          using inv pc True 2 by (auto simp: inv_reg_def)
        moreover have "ident_of s c = Some (cx_id ctx, c)"
        proof -
          from pc True 2 obtain cn where "conns s c = Some cn" "cn_pc cn = CCleanup ctx r"
            by (auto simp: pc_of_def)
          then show ?thesis using inv_auth_connD(1) [OF auth] by simp
        qed
        moreover from this have "sp = cx_id ctx"
          using inv_auth_sessionsD [OF auth \<open>sessions s sp = Some d\<close>] True by simp
        ultimately have False
          using 2 d True \<open>sessions s sp = Some d\<close>
          by (simp add: conn_cleanup_def cleanup_session_def is_closed_iff)
        then show ?thesis ..
      qed (use True in simp)
    qed
  qed
next
  fix d pc
  assume pc: "pc_of s' d = Some pc" "self_closed pc"
  show "closed_of s' d = Some True"
  proof (cases "d = c")
    case True
    with conn_step_self_closed [OF st _ _ auth] pc inv show ?thesis
      by (simp add: inv_reg_def)
  next
    case False
    with pc conn_step_other_pc [OF st False] inv have "closed_of s d = Some True"
      by (simp add: inv_reg_def)
    with closed_kept_conn_step [OF auth st] show ?thesis by (simp add: closed_kept_def)
  qed
qed

lemma inv_reg_step:
  assumes auth: "inv_auth cfg s" and inv: "inv_reg s" and st: "step cfg e s = Some s'"
  shows "inv_reg s'"
  using st
proof (cases rule: step_cases)
  case (Connect c n t)
  note v = connect_views [OF Connect(2)]
  have cl: "closed_of s' d = closed_of s d" for d
    using closed_kept_quiet [OF st] Connect(1) by simp
  show ?thesis
    unfolding inv_reg_def
  proof (intro conjI allI impI)
    fix sp d
    assume "sessions s' sp = Some d"
    then have "sessions s sp = Some d" by (simp add: v)
    with inv obtain pc where "pc_of s d = Some pc" "registered pc" unfolding inv_reg_def by blast
    with v show "\<exists>pc. pc_of s' d = Some pc \<and> registered pc" by (cases "d = c") auto
  next
    fix d pc
    assume "pc_of s' d = Some pc" "self_closed pc"
    with v inv cl show "closed_of s' d = Some True" by (auto simp: inv_reg_def split: if_splits)
  qed
next
  case (Conn c inp)
  with auth inv show ?thesis by (blast intro: inv_reg_conn_step)
next
  case Quiet
  with closed_kept_quiet [OF st] inv show ?thesis by (simp add: inv_reg_def quiet_def)
qed

lemma inv_reg_reach: "reach cfg n s \<Longrightarrow> inv_reg s"
proof (induction rule: reach.induct)
  case reach_init
  show ?case by (simp add: inv_reg_def server_init_def view_defs)
next
  case (reach_step n s e s')
  then show ?case by (blast intro: inv_reg_step inv_auth_reach)
qed

text \<open>
  C14. The registry never points at a finished connection: whatever the interleaving of handshakes,
  displacements, failures and clean-ups, a registered connection has not yet run its clean-up.
\<close>
theorem registry_never_stale:
  assumes "reach cfg n s" and "sessions s sp = Some c"
  shows "\<exists>cn. conns s c = Some cn \<and> registered (cn_pc cn)"
proof -
  from inv_reg_reach [OF assms(1)] assms(2) obtain pc where "pc_of s c = Some pc" "registered pc"
    unfolding inv_reg_def by blast
  then show ?thesis by (auto simp: pc_of_def)
qed

theorem registry_never_stale_witness:
  "\<exists>n s cn. reach demo_cfg n s \<and> sessions s ''app-b'' = Some 1 \<and>
     conns s 1 = Some cn \<and> registered (cn_pc cn)"
proof -
  have "map_option (\<lambda>s. sessions s ''app-b'' = Some 1)
      (run demo_cfg (join_events 0 ''app-b'' ''t'' @ join_events 1 ''app-b'' ''t'' @
         [EvConn 1 InStep, EvConn 1 InStep, EvConn 1 InStep]) server_init) = Some True"
    by code_simp
  then obtain n s where s: "reach demo_cfg n s" "sessions s ''app-b'' = Some 1"
    by (rule run_obtains)
  from registry_never_stale [OF s] s show ?thesis by blast
qed

section \<open>The gauge of connected spokes\<close>

text \<open>
  A displacement is an insertion into the registry over an entry that is still there. A connection
  between its insertion and \<open>connected.inc()\<close> is pending.
\<close>

fun is_inc :: "conn_pc option \<Rightarrow> bool" where
  "is_inc (Some (CInc _)) = True"
| "is_inc _ = False"

definition pending_inc :: "server \<Rightarrow> nat set" where
  "pending_inc s = {c. is_inc (pc_of s c)}"

fun displaces :: "event \<Rightarrow> server \<Rightarrow> bool" where
  "displaces (EvConn c _) s =
     (case pc_of s c of Some (CInsert ctx) \<Rightarrow> sessions s (cx_id ctx) \<noteq> None | _ \<Rightarrow> False)"
| "displaces _ s = False"

fun displacements :: "server_config \<Rightarrow> event list \<Rightarrow> server \<Rightarrow> nat" where
  "displacements cfg [] s = 0"
| "displacements cfg (e # es) s =
     (if displaces e s then 1 else 0) +
     (case step cfg e s of None \<Rightarrow> 0 | Some s' \<Rightarrow> displacements cfg es s')"

definition gauge_balance :: "int \<Rightarrow> server \<Rightarrow> bool" where
  "gauge_balance d s \<longleftrightarrow>
     finite (dom (sessions s)) \<and> finite (pending_inc s) \<and>
     connected (mets s) + int (card (pending_inc s)) = int (card (dom (sessions s))) + d"

text \<open>The four ways a connection task touches the registry and the gauge.\<close>

lemma conn_step_gauge_cases:
  assumes "conn_step cfg c inp s = Some s'"
  obtains
    (Same) "sessions s' = sessions s" "connected (mets s') = connected (mets s)"
      "is_inc (pc_of s' c) = is_inc (pc_of s c)" "\<not> displaces (EvConn c inp) s"
  | (Insert) sp where "sessions s' = (sessions s)(sp \<mapsto> c)" "connected (mets s') = connected (mets s)"
      "\<not> is_inc (pc_of s c)" "is_inc (pc_of s' c)"
      "displaces (EvConn c inp) s \<longleftrightarrow> sessions s sp \<noteq> None"
  | (Inc) "sessions s' = sessions s" "connected (mets s') = connected (mets s) + 1"
      "is_inc (pc_of s c)" "\<not> is_inc (pc_of s' c)" "\<not> displaces (EvConn c inp) s"
  | (Remove) sp where "sessions s sp \<noteq> None" "sessions s' = (sessions s)(sp := None)"
      "connected (mets s') = connected (mets s) - 1" "\<not> is_inc (pc_of s c)" "\<not> is_inc (pc_of s' c)"
      "\<not> displaces (EvConn c inp) s"
  using assms
proof (cases rule: conn_stepE)
  case (Lock cn ctx)
  show thesis
  proof (cases "sessions s (cx_id ctx)")
    case None
    with Lock show thesis
      by (intro that(2) [of "cx_id ctx"]) (simp_all add: conn_lock_def pc_of_conn)
  next
    case (Some old)
    with Lock show thesis by (intro that(1)) (simp_all add: conn_lock_def pc_of_conn)
  qed
next
  case (Insert cn ctx)
  then show thesis
    by (intro that(2) [of "cx_id ctx"]) (simp_all add: conn_insert_def pc_of_conn)
next
  case (Inc cn ctx)
  then show thesis by (intro that(3)) (simp_all add: conn_inc_def pc_of_conn)
next
  case (Cleanup cn ctx r)
  show thesis
  proof (cases "\<exists>cur. sessions s (cx_id ctx) = Some cur \<and> is_closed cur s")
    case True
    with Cleanup show thesis
      by (intro that(4) [of "cx_id ctx"])
        (auto simp: conn_cleanup_def cleanup_session_def pc_of_conn split: conn_ret.splits)
  next
    case False
    with Cleanup show thesis
      by (intro that(1))
        (auto simp: conn_cleanup_def cleanup_session_def pc_of_conn split: conn_ret.splits option.splits)
  qed
next
  case (First cn r)
  then show thesis
    by (intro that(1))
      (auto simp: conn_first_def conn_fail_def pc_of_conn split: recv_result.splits sum.splits)
next
  case (Reject cn ctx f)
  then show thesis
    by (intro that(1))
      (auto simp: conn_reject_def pc_of_conn dest!: session_send_frame split: sent.splits)
qed (intro that(1); auto simp: conn_ops pc_of_conn split: op_splits)+

lemma pending_inc_conn_step:
  assumes "conn_step cfg c inp s = Some s'"
  shows "pending_inc s' = (if is_inc (pc_of s' c) then insert c (pending_inc s) else pending_inc s - {c})"
proof -
  have "d \<in> pending_inc s' \<longleftrightarrow> d \<in> pending_inc s" if "d \<noteq> c" for d
    using conn_step_other_pc [OF assms that] by (simp add: pending_inc_def)
  moreover have "c \<in> pending_inc s' \<longleftrightarrow> is_inc (pc_of s' c)" by (simp add: pending_inc_def)
  ultimately show ?thesis by (intro set_eqI) (metis Diff_iff insert_iff singletonD singletonI)
qed

lemma gauge_balance_conn_step:
  assumes "gauge_balance d s" and st: "conn_step cfg c inp s = Some s'"
  shows "gauge_balance (d + (if displaces (EvConn c inp) s then 1 else 0)) s'"
  using st
proof (cases rule: conn_step_gauge_cases)
  case Same
  have "pending_inc s' = pending_inc s"
    using pending_inc_conn_step [OF st] Same(3) by (auto simp: pending_inc_def)
  with Same assms(1) show ?thesis by (simp add: gauge_balance_def)
next
  case (Insert sp)
  have "card (pending_inc s') = Suc (card (pending_inc s))" "finite (pending_inc s')"
    using pending_inc_conn_step [OF st] Insert(3,4) assms(1)
    by (simp_all add: gauge_balance_def) (simp add: pending_inc_def)
  moreover have "card (dom (sessions s')) =
      card (dom (sessions s)) + (if sessions s sp = None then 1 else 0)"
    using assms(1) Insert(1) card_dom_upd_new [of "sessions s" sp c] card_dom_upd_old [of "sessions s" sp _ c]
    by (cases "sessions s sp") (simp_all add: gauge_balance_def)
  ultimately show ?thesis
    using Insert(1,2,5) assms(1) by (simp add: gauge_balance_def)
next
  case Inc
  have "c \<in> pending_inc s" using Inc(3) by (simp add: pending_inc_def)
  then have "Suc (card (pending_inc s')) = card (pending_inc s)" "finite (pending_inc s')"
    using pending_inc_conn_step [OF st] Inc(4) assms(1) card.remove [of "pending_inc s" c]
    by (simp_all add: gauge_balance_def)
  with Inc(1,2,5) assms(1) show ?thesis by (simp add: gauge_balance_def)
next
  case (Remove sp)
  have "pending_inc s' = pending_inc s"
    using pending_inc_conn_step [OF st] Remove(4,5) by (auto simp: pending_inc_def)
  moreover obtain w where "sessions s sp = Some w" using Remove(1) by auto
  then have "Suc (card (dom (sessions s'))) = card (dom (sessions s))"
    using assms(1) card_dom_del [of "sessions s" sp w] Remove(2) by (simp add: gauge_balance_def)
  ultimately show ?thesis
    using Remove(2,3,6) assms(1) by (simp add: gauge_balance_def)
qed

lemma gauge_balance_step:
  assumes inv: "gauge_balance d s" and st: "step cfg e s = Some s'"
  shows "gauge_balance (d + (if displaces e s then 1 else 0)) s'"
  using st
proof (cases rule: step_cases)
  case (Connect c n t)
  have "pending_inc s' = pending_inc s"
    using connect_views [OF Connect(2)] by (auto simp: pending_inc_def split: if_splits)
  with inv Connect(1) connect_views(4,5) [OF Connect(2)] show ?thesis
    by (simp add: gauge_balance_def)
next
  case (Conn c inp)
  with gauge_balance_conn_step [OF inv Conn(2)] show ?thesis by simp
next
  case Quiet
  have "\<not> displaces e s" using Quiet(2) by (cases e) auto
  with Quiet(1) inv show ?thesis by (simp add: quiet_def gauge_balance_def pending_inc_def)
qed

lemma gauge_balance_run:
  "run cfg es s = Some s' \<Longrightarrow> gauge_balance d s \<Longrightarrow> gauge_balance (d + int (displacements cfg es s)) s'"
proof (induction es arbitrary: s d)
  case (Cons e es)
  then obtain t where st: "step cfg e s = Some t" and t: "run cfg es t = Some s'"
    by (auto split: Option.bind_splits)
  from Cons.IH [OF t gauge_balance_step [OF Cons.prems(2) st]] st show ?case
    by (simp add: algebra_simps split: if_splits)
qed simp

lemma gauge_balance_init: "gauge_balance 0 server_init"
  by (simp add: gauge_balance_def server_init_def pending_inc_def pc_of_def metrics_new_def)

text \<open>
  C15. Along every run, the gauge of connected spokes plus the connections that are registered but not
  yet counted equals the number of registered spokes plus the number of displacements so far. So the
  gauge is exact as long as no session was displaced, and each displacement leaves it one too high.
\<close>
theorem connected_gauge_counts:
  assumes "run cfg es server_init = Some s"
  shows "connected (mets s) + int (card (pending_inc s)) =
     int (card (dom (sessions s))) + int (displacements cfg es server_init)"
  using gauge_balance_run [OF assms gauge_balance_init] by (simp add: gauge_balance_def)

text \<open>Two connections of one application spoke: the second displaces the first, then both end.\<close>

definition displace_events :: "event list" where
  "displace_events =
     join_events 0 ''app-b'' ''t'' @ join_events 1 ''app-b'' ''t'' @
     [EvConn 1 InStep, EvConn 1 InStep, EvConn 1 InStep,
      EvConn 0 InStep, EvConn 0 (InRecv RecvEnd 0), EvConn 0 InStep, EvConn 0 InStep, EvConn 0 InStep,
      EvConn 1 InStep, EvConn 1 (InRecv RecvEnd 0), EvConn 1 InStep, EvConn 1 InStep, EvConn 1 InStep]"

theorem connected_gauge_counts_witness:
  "\<exists>s. run demo_cfg displace_events server_init = Some s \<and> sessions s ''app-b'' = None \<and>
     connected (mets s) = 1 \<and>
     connected (mets s) + int (card (pending_inc s)) =
       int (card (dom (sessions s))) + int (displacements demo_cfg displace_events server_init)"
proof -
  have "map_option (\<lambda>s. sessions s ''app-b'' = None \<and> connected (mets s) = 1)
      (run demo_cfg displace_events server_init) = Some True"
    by code_simp
  then obtain s where "run demo_cfg displace_events server_init = Some s"
    "sessions s ''app-b'' = None" "connected (mets s) = 1"
    by (rule run_obtains) blast
  with connected_gauge_counts [of demo_cfg displace_events s] show ?thesis by blast
qed

section \<open>Racing connections\<close>

text \<open>
  The lock is released between reading the old entry and inserting the new one. When two connections
  of one spoke both read the same old session, the later insertion overwrites the earlier one without
  closing it: both keep serving frames.
\<close>

lemma racing_displacements_leave_two_live_sessions:
  "map_option (\<lambda>s. sessions s ''app-b'' = Some 2 \<and>
      pc_of s 1 = Some (CRecv \<lparr>cx_id = ''app-b'', cx_sc = the (spokes demo_cfg ''app-b'')\<rparr>) \<and>
      \<not> is_closed 1 s \<and>
      pc_of s 2 = Some (CRecv \<lparr>cx_id = ''app-b'', cx_sc = the (spokes demo_cfg ''app-b'')\<rparr>) \<and>
      \<not> is_closed 2 s)
    (run demo_cfg
       (join_events 0 ''app-b'' ''t'' @
        take 3 (join_events 1 ''app-b'' ''t'') @ take 3 (join_events 2 ''app-b'' ''t'') @
        concat (replicate 5 [EvConn 1 InStep]) @ concat (replicate 5 [EvConn 2 InStep]))
       server_init) = Some True"
  by code_simp

text \<open>
  A cluster spoke that reconnects while the acceptor of its old session still waits in \<open>accept\<close>
  finds its port taken: the new session is closed, and the registry ends up empty.
\<close>

lemma reconnect_before_release_loses_the_spoke:
  "map_option (\<lambda>s. sessions s ''spoke-a'' = None \<and> is_closed 0 s \<and> is_closed 1 s \<and>
      port_held 10001 s \<and> pc_of s 1 = Some (CDone (RetErr (ListenErr 10001))))
    (run demo_cfg (cluster_events @ join_events 1 ''spoke-a'' ''s3:cret'' @
       [EvConn 1 InStep, EvConn 1 InStep, EvConn 1 InStep, EvConn 1 (InBind BindErr),
        EvConn 1 InStep, EvConn 1 InStep, EvConn 1 InStep]) server_init) = Some True"
  by code_simp

end
