(* ===== verification/Server_Streams.thy ===== *)
theory Server_Streams
  imports Server_Safety
begin

text \<open>
  Identifiers of virtual streams. While fewer than \<open>2^63\<close> events have happened, the counter has not
  wrapped: every accepted connection has an identifier of its own, in the hub's half of the
  identifier space, and the table of every session maps an identifier to the stream that carries it.
\<close>

section \<open>Views of streams\<close>

text \<open>The session and the identifier of a stream; the stream an \<open>accept_loop\<close> or a \<open>recv_loop\<close> works on.\<close>

definition sid_of :: "server \<Rightarrow> nat \<Rightarrow> (nat \<times> u64) option" where
  "sid_of s k = map_option (\<lambda>v. (vs_sess v, vs_sid v)) (strms s k)"

fun held :: "acc_pc \<Rightarrow> (u64 \<times> nat) option" where
  "held (AInsert sid k) = Some (sid, k)"
| "held (AOpen sid k) = Some (sid, k)"
| "held (ARoll sid k) = Some (sid, k)"
| "held _ = None"

definition task_of :: "server \<Rightarrow> nat \<Rightarrow> (nat \<times> u64 \<times> nat) option" where
  "task_of s a =
     (case accs s a of
        None \<Rightarrow> None
      | Some ac \<Rightarrow> map_option (\<lambda>(sid, k). (ac_sess ac, sid, k)) (held (ac_pc ac)))"

fun delivering :: "conn_pc option \<Rightarrow> (u64 \<times> nat) option" where
  "delivering (Some (CDeliver _ sid k _)) = Some (sid, k)"
| "delivering _ = None"

lemma strms_ops [simp]:
  "strms (set_conn_pc c pc s) = strms s" "strms (upd_sess a f s) = strms s"
  "strms (upd_acc a g s) = strms s" "strms (upd_http h j s) = strms s"
  "strms (upd_mets m s) = strms s"
  "strms (session_close_flag a s) = strms s" "strms (session_close_clear a s) = strms s"
  "strms (session_remove a sid s) = strms s" "strms (session_remove_counted a sid s) = strms s"
  "strms (upd_strm k v s) i = (if i = k then map_option v (strms s k) else strms s i)"
  by (simp_all add: state_ops)

lemma next_sid_ops [simp]:
  "next_sid (set_conn_pc c pc s) = next_sid s" "next_sid (upd_sess a f s) = next_sid s"
  "next_sid (upd_acc a g s) = next_sid s" "next_sid (upd_http h j s) = next_sid s"
  "next_sid (upd_mets m s) = next_sid s" "next_sid (upd_strm k v s) = next_sid s"
  "next_sid (session_close_flag a s) = next_sid s" "next_sid (session_close_clear a s) = next_sid s"
  "next_sid (session_remove a sid s) = next_sid s"
  "next_sid (session_remove_counted a sid s) = next_sid s"
  by (simp_all add: state_ops)

lemma sid_of_ops [simp]:
  "sid_of (set_conn_pc c pc s) j = sid_of s j" "sid_of (upd_sess a f s) j = sid_of s j"
  "sid_of (upd_acc a g s) j = sid_of s j" "sid_of (upd_http h ht s) j = sid_of s j"
  "sid_of (upd_mets m s) j = sid_of s j" "sid_of (log_frame c fr s) j = sid_of s j"
  "sid_of (session_close_flag a s) j = sid_of s j" "sid_of (session_close_clear a s) j = sid_of s j"
  "sid_of (session_remove a sid s) j = sid_of s j"
  "sid_of (session_remove_counted a sid s) j = sid_of s j"
  "sid_of (s\<lparr>sessions := x1\<rparr>) j = sid_of s j" "sid_of (s\<lparr>next_sid := x2\<rparr>) j = sid_of s j"
  "sid_of (s\<lparr>mets := x3\<rparr>) j = sid_of s j" "sid_of (s\<lparr>outs := x4\<rparr>) j = sid_of s j"
  "sid_of (s\<lparr>conns := x5\<rparr>) j = sid_of s j" "sid_of (s\<lparr>accs := x6\<rparr>) j = sid_of s j"
  "sid_of (s\<lparr>ports := x7\<rparr>) j = sid_of s j" "sid_of (s\<lparr>sess := x8\<rparr>) j = sid_of s j"
  "sid_of (s\<lparr>https := x9\<rparr>) j = sid_of s j"
  "sid_of (s\<lparr>strms := (strms t)(k \<mapsto> v)\<rparr>) j =
     (if j = k then Some (vs_sess v, vs_sid v) else sid_of t j)"
  by (simp_all add: sid_of_def)

lemma sid_of_upd_strm:
  "(\<And>v. vs_sess (f v) = vs_sess v \<and> vs_sid (f v) = vs_sid v) \<Longrightarrow> sid_of (upd_strm k f s) j = sid_of s j"
  by (simp add: sid_of_def option.map_comp comp_def)

lemma task_of_cong: "accs s' a = accs s a \<Longrightarrow> task_of s' a = task_of s a"
  by (simp add: task_of_def)

lemma streams_of_ops [simp]:
  "streams_of (set_conn_pc c pc s) d = streams_of s d"
  "streams_of (upd_acc a g s) d = streams_of s d" "streams_of (upd_strm a h s) d = streams_of s d"
  "streams_of (upd_http a j s) d = streams_of s d" "streams_of (upd_mets m s) d = streams_of s d"
  "streams_of (session_close_flag a s) d = streams_of s d"
  "streams_of (session_close_clear a s) d = (if d = a then Map.empty else streams_of s d)"
  "streams_of (session_remove a sid s) d =
     (if d = a then (streams_of s a)(sid := None) else streams_of s d)"
  "streams_of (session_remove_counted a sid s) d =
     (if d = a then (streams_of s a)(sid := None) else streams_of s d)"
  "streams_of (log_frame c f s) d = streams_of s d"
  "streams_of (s\<lparr>sessions := x1\<rparr>) d = streams_of s d" "streams_of (s\<lparr>next_sid := x2\<rparr>) d = streams_of s d"
  "streams_of (s\<lparr>mets := x3\<rparr>) d = streams_of s d" "streams_of (s\<lparr>outs := x4\<rparr>) d = streams_of s d"
  "streams_of (s\<lparr>conns := x5\<rparr>) d = streams_of s d" "streams_of (s\<lparr>accs := x6\<rparr>) d = streams_of s d"
  "streams_of (s\<lparr>ports := x7\<rparr>) d = streams_of s d" "streams_of (s\<lparr>strms := x8\<rparr>) d = streams_of s d"
  "streams_of (s\<lparr>https := x9\<rparr>) d = streams_of s d"
  "streams_of (s\<lparr>sess := (sess t)(a \<mapsto> x)\<rparr>) d = (if d = a then ss_streams x else streams_of t d)"
  by (auto simp: fun_eq_iff streams_of_def state_ops log_frame_def split: option.splits)

lemma streams_of_insert [simp]:
  "streams_of (upd_sess a (\<lambda>ss. ss\<lparr>ss_streams := (ss_streams ss)(sid \<mapsto> k)\<rparr>) s) d =
     (if d = a \<and> sess s a \<noteq> None then (streams_of s a)(sid \<mapsto> k) else streams_of s d)"
  by (auto simp: fun_eq_iff streams_of_def upd_sess_def split: option.splits)

lemma streams_of_sess: "sess s c = Some ss \<Longrightarrow> streams_of s c = ss_streams ss"
  by (auto simp: streams_of_def)

section \<open>The counter and the tables\<close>

text \<open>
  Everything but an accepted connection keeps the identities of the streams; a table entry comes
  from the task that accepted the connection, a delivery from a table entry.
\<close>

definition ids_kept :: "server \<Rightarrow> server \<Rightarrow> bool" where
  "ids_kept s s' \<longleftrightarrow>
     next_sid s' = next_sid s \<and> (\<forall>k. sid_of s' k = sid_of s k) \<and>
     (\<forall>a x. task_of s' a = Some x \<longrightarrow> task_of s a = Some x) \<and>
     (\<forall>c sid k. streams_of s' c sid = Some k \<longrightarrow>
        streams_of s c sid = Some k \<or> (\<exists>a. task_of s a = Some (c, sid, k))) \<and>
     (\<forall>c sid k. delivering (pc_of s' c) = Some (sid, k) \<longrightarrow>
        delivering (pc_of s c) = Some (sid, k) \<or> streams_of s c sid = Some k)"

definition inv_ids :: "nat \<Rightarrow> server \<Rightarrow> bool" where
  "inv_ids n s \<longleftrightarrow>
     unat (next_sid s) \<le> n \<and>
     (\<forall>k c sid. sid_of s k = Some (c, sid) \<longrightarrow> 0 < unat sid \<and> unat sid \<le> unat (next_sid s)) \<and>
     (\<forall>k k' c c' sid. sid_of s k = Some (c, sid) \<longrightarrow> sid_of s k' = Some (c', sid) \<longrightarrow> k' = k) \<and>
     (\<forall>a c sid k. task_of s a = Some (c, sid, k) \<longrightarrow> sid_of s k = Some (c, sid)) \<and>
     (\<forall>a a' c c' sid sid' k. task_of s a = Some (c, sid, k) \<longrightarrow> task_of s a' = Some (c', sid', k) \<longrightarrow> a' = a) \<and>
     (\<forall>c sid k. streams_of s c sid = Some k \<longrightarrow> sid_of s k = Some (c, sid)) \<and>
     (\<forall>c sid k. delivering (pc_of s c) = Some (sid, k) \<longrightarrow> sid_of s k = Some (c, sid))"

lemma inv_idsD:
  assumes "inv_ids n s"
  shows "unat (next_sid s) \<le> n"
    "sid_of s k = Some (c, sid) \<Longrightarrow> 0 < unat sid \<and> unat sid \<le> unat (next_sid s)"
    "sid_of s k = Some (c, sid) \<Longrightarrow> sid_of s k' = Some (c', sid) \<Longrightarrow> k' = k"
    "task_of s a = Some (c, sid, k) \<Longrightarrow> sid_of s k = Some (c, sid)"
    "task_of s a = Some (c, sid, k) \<Longrightarrow> task_of s a' = Some (c', sid', k) \<Longrightarrow> a' = a"
    "streams_of s c sid = Some k \<Longrightarrow> sid_of s k = Some (c, sid)"
    "delivering (pc_of s c) = Some (sid, k) \<Longrightarrow> sid_of s k = Some (c, sid)"
  using assms unfolding inv_ids_def by (elim conjE; metis)+

lemma inv_ids_kept:
  assumes inv: "inv_ids n s" and kept: "ids_kept s s'"
  shows "inv_ids (Suc n) s'"
proof -
  note k = kept [unfolded ids_kept_def]
  have sid: "sid_of s' j = sid_of s j" and nx: "next_sid s' = next_sid s" for j
    using k by blast+
  show ?thesis
    unfolding inv_ids_def sid nx
  proof (intro conjI allI impI)
    show "unat (next_sid s) \<le> Suc n" using inv_idsD(1) [OF inv] by simp
  next
    fix c sid k assume "streams_of s' c sid = Some k"
    then show "sid_of s k = Some (c, sid)" using k inv_idsD(4,6) [OF inv] by blast
  next
    fix c sid k assume "delivering (pc_of s' c) = Some (sid, k)"
    then show "sid_of s k = Some (c, sid)" using k inv_idsD(6,7) [OF inv] by blast
  next
    fix a c sid k assume "task_of s' a = Some (c, sid, k)"
    then show "sid_of s k = Some (c, sid)" using k inv_idsD(4) [OF inv] by blast
  next
    fix a a' c c' sid sid' k assume "task_of s' a = Some (c, sid, k)" "task_of s' a' = Some (c', sid', k)"
    then have "task_of s a = Some (c, sid, k)" "task_of s a' = Some (c', sid', k)" using k by blast+
    then show "a' = a" by (rule inv_idsD(5) [OF inv])
  qed (use inv_idsD(2,3) [OF inv] in blast)+
qed

lemma ids_kept_same:
  assumes "next_sid s' = next_sid s" "\<And>k. sid_of s' k = sid_of s k" "accs s' = accs s"
    "\<And>c sid k. streams_of s' c sid = Some k \<Longrightarrow> streams_of s c sid = Some k"
    "\<And>c sid k. delivering (pc_of s' c) = Some (sid, k) \<Longrightarrow> delivering (pc_of s c) = Some (sid, k)"
  shows "ids_kept s s'"
  using assms by (auto simp: ids_kept_def task_of_def)

section \<open>Every step but accept\<close>

lemma ids_kept_connect: "connect c n t s = Some s' \<Longrightarrow> ids_kept s s'"
  using connect_views(1,6) [of c n t s s'] connect_SomeD(5) [of c n t s s']
  by (intro ids_kept_same) (simp_all split: if_splits)

lemma ids_kept_conn_step:
  assumes "conn_step cfg c inp s = Some s'"
  shows "ids_kept s s'"
  using assms
proof (cases rule: conn_stepE)
  case (First cn r)
  then show ?thesis
    by (intro ids_kept_same)
      (auto simp: conn_first_def conn_fail_def session_new_def pc_of_conn
        split: recv_result.splits sum.splits if_splits)
next
  case (Bind cn ctx b bs r)
  then show ?thesis
    by (auto simp: ids_kept_def conn_bind_alt task_of_def pc_of_conn split: op_splits)
next
  case (Recv cn ctx r h)
  then show ?thesis
    by (auto simp: ids_kept_def conn_ops task_of_def pc_of_conn streams_of_sess split: op_splits)
next
  case (Deliver cn ctx sid k p)
  then show ?thesis
    by (intro ids_kept_same)
      (auto simp: conn_ops pc_of_conn sid_of_upd_strm split: op_splits if_splits)
next
  case (Reject cn ctx f)
  then show ?thesis
    by (intro ids_kept_same) (auto simp: conn_ops pc_of_conn dest!: session_send_frame split: op_splits)
next
  case (Abort cn r)
  then show ?thesis
    by (auto simp: ids_kept_def conn_ops task_of_def pc_of_conn split: option.splits if_splits)
qed (intro ids_kept_same; auto simp: conn_ops pc_of_conn split: op_splits)+

text \<open>What the accept loop does to its own position, and a loop that ends holds no stream.\<close>

lemma task_of_upd_acc [simp]:
  "task_of (upd_acc a f s) b =
     (if b = a then case accs s a of None \<Rightarrow> None
        | Some ac \<Rightarrow> map_option (\<lambda>(sid, k). (ac_sess (f ac), sid, k)) (held (ac_pc (f ac)))
      else task_of s b)"
  by (simp add: task_of_def split: option.splits)

lemma task_of_ops [simp]:
  "task_of (upd_strm k v s) b = task_of s b" "task_of (upd_mets m s) b = task_of s b"
  "task_of (upd_sess c g s) b = task_of s b" "task_of (session_remove c sid s) b = task_of s b"
  "task_of (session_remove_counted c sid s) b = task_of s b" "task_of (upd_http h j s) b = task_of s b"
  "task_of (s\<lparr>outs := x1\<rparr>) b = task_of s b" "task_of (s\<lparr>ports := x2\<rparr>) b = task_of s b"
  "task_of (s\<lparr>mets := x3\<rparr>) b = task_of s b" "task_of (s\<lparr>strms := x4\<rparr>) b = task_of s b"
  "task_of (s\<lparr>next_sid := x5\<rparr>) b = task_of s b"
  by (simp_all add: task_of_def)

lemma task_of_acc: "accs s a = Some ac \<Longrightarrow> task_of s a = map_option (\<lambda>(sid, k). (ac_sess ac, sid, k)) (held (ac_pc ac))"
  by (simp add: task_of_def)

lemma ids_kept_acc_step:
  assumes "acc_step a r s = Some s'" "\<And>ac k. accs s a = Some ac \<Longrightarrow> ac_pc ac = AAccept \<Longrightarrow> r \<noteq> AcceptOk k"
  shows "ids_kept s s'"
  using assms(1)
proof (cases rule: acc_stepE)
  case (Accept ac)
  with assms(2) show ?thesis
    by (auto simp: ids_kept_def acc_ops task_of_acc split: accept_outcome.splits if_splits)
next
  case (Open ac sid k)
  then show ?thesis
    by (auto simp: ids_kept_def acc_ops task_of_acc sid_of_upd_strm dest!: session_send_frame
        split: sent.splits if_splits)
next
  case (Insert ac sid k)
  then have "task_of s a = Some (ac_sess ac, sid, k)" by (simp add: task_of_acc)
  with Insert show ?thesis
    by (auto simp: ids_kept_def acc_ops split: if_splits)
qed (auto simp: ids_kept_def acc_ops task_of_acc sid_of_upd_strm split: if_splits)

lemma ids_kept_acc_cancel: "acc_cancel a s = Some s' \<Longrightarrow> ids_kept s s'"
  by (auto simp: ids_kept_def acc_ops task_of_acc sid_of_upd_strm split: option.splits if_splits acc_pc.splits)

lemma ids_kept_up_step: "up_step k r s = Some s' \<Longrightarrow> ids_kept s s'"
  by (erule up_stepE)
    (auto simp: ids_kept_def acc_ops sid_of_upd_strm dest!: session_send_frame split: op_splits)

lemma ids_kept_dn_step: "dn_step k r s = Some s' \<Longrightarrow> ids_kept s s'"
  by (erule dn_stepE) (auto simp: ids_kept_def acc_ops sid_of_upd_strm split: op_splits)

lemma ids_kept_http: "http_run cfg env h s = Some s' \<Longrightarrow> ids_kept s s'"
  "http_send h s = Some s' \<Longrightarrow> ids_kept s s'"
  by (auto simp: ids_kept_def http_run_def http_send_def dest!: session_send_frame
      split: option.splits http_pc.splits prod.splits sent.splits)

lemma ids_kept_out: "out_take c s = Some s' \<Longrightarrow> ids_kept s s'" "out_drop c s = Some s' \<Longrightarrow> ids_kept s s'"
  by (auto simp: ids_kept_def out_take_def out_drop_def split: op_splits)

section \<open>Accepting a connection\<close>

text \<open>The one step that makes a stream, with the next identifier of the counter.\<close>

definition accepts :: "server \<Rightarrow> event \<Rightarrow> nat \<Rightarrow> acceptor \<Rightarrow> nat \<Rightarrow> bool" where
  "accepts s e a ac k \<longleftrightarrow>
     e = EvAcc a (AcceptOk k) \<and> accs s a = Some ac \<and> ac_pc ac = AAccept \<and> strms s k = None"

lemma step_ids_cases:
  assumes "step cfg e s = Some s'"
  obtains
    (Kept) "ids_kept s s'"
  | (Accept) a ac k where "accepts s e a ac k"
      "s' = upd_acc a (\<lambda>ac. ac\<lparr>ac_pc := AInsert (next_sid s + 1) k\<rparr>)
              (s\<lparr>next_sid := next_sid s + 1,
                 strms := (strms s)(k \<mapsto> vstream_new (ac_sess ac) (next_sid s + 1))\<rparr>)"
proof (cases e)
  case (EvAcc a r)
  with assms have st: "acc_step a r s = Some s'" by simp
  show thesis
  proof (cases "\<exists>ac k. accs s a = Some ac \<and> ac_pc ac = AAccept \<and> r = AcceptOk k")
    case True
    then obtain ac k where ac: "accs s a = Some ac" "ac_pc ac = AAccept" "r = AcceptOk k" by blast
    with st show thesis
      by (intro Accept [of a ac k])
        (auto simp: accepts_def EvAcc acc_step_def acc_accept_def alloc_sid_def split: if_splits)
  next
    case False
    with ids_kept_acc_step [OF st] Kept show thesis by blast
  qed
qed (use assms Kept in \<open>auto intro: ids_kept_connect ids_kept_conn_step ids_kept_acc_cancel
      ids_kept_up_step ids_kept_dn_step ids_kept_http ids_kept_out\<close>)

lemma inv_ids_accept:
  assumes inv: "inv_ids n s" and n: "n < 2 ^ 63" and ac: "accs s a = Some ac" "ac_pc ac = AAccept"
    and k: "strms s k = None"
    and s': "s' = upd_acc a (\<lambda>ac. ac\<lparr>ac_pc := AInsert (next_sid s + 1) k\<rparr>)
              (s\<lparr>next_sid := next_sid s + 1,
                 strms := (strms s)(k \<mapsto> vstream_new (ac_sess ac) (next_sid s + 1))\<rparr>)"
  shows "inv_ids (Suc n) s'"
proof -
  let ?sid = "next_sid s + 1"
  have new: "unat ?sid = Suc (unat (next_sid s))"
    using unat_inc64 [of "next_sid s"] inv_idsD(1) [OF inv] n by simp
  have sid: "sid_of s' j = (if j = k then Some (ac_sess ac, ?sid) else sid_of s j)" for j
    by (simp add: s' vstream_new_def)
  have nx: "next_sid s' = ?sid" by (simp add: s')
  have task: "task_of s' b = (if b = a then Some (ac_sess ac, ?sid, k) else task_of s b)" for b
    using ac by (simp add: s')
  have same: "streams_of s' = streams_of s" "pc_of s' = pc_of s"
    by (auto simp: s' fun_eq_iff)
  have none: "sid_of s k = None" using k by (simp add: sid_of_def)
  have old: "sid_of s j = Some (c, sid) \<Longrightarrow> sid \<noteq> ?sid \<and> j \<noteq> k" for j c sid
    using inv_idsD(2) [OF inv, of j c sid] new none by auto
  show ?thesis
    unfolding inv_ids_def nx same
  proof (intro conjI allI impI)
    show "unat ?sid \<le> Suc n" using inv_idsD(1) [OF inv] new by simp
  next
    fix j c sid assume "sid_of s' j = Some (c, sid)"
    then show "0 < unat sid" "unat sid \<le> unat ?sid"
      using inv_idsD(2) [OF inv, of j c sid] new by (auto simp: sid split: if_splits)
  next
    fix i j c d sid assume "sid_of s' i = Some (c, sid)" "sid_of s' j = Some (d, sid)"
    then show "j = i" using old inv_idsD(3) [OF inv] by (auto simp: sid split: if_splits)
  next
    fix b c sid j assume "task_of s' b = Some (c, sid, j)"
    then show "sid_of s' j = Some (c, sid)"
      using old inv_idsD(4) [OF inv, of b c sid j] by (auto simp: sid task split: if_splits)
  next
    fix b b' c c' sid sid' j assume "task_of s' b = Some (c, sid, j)" "task_of s' b' = Some (c', sid', j)"
    then show "b' = b"
      using old inv_idsD(4) [OF inv, of b c sid j] inv_idsD(4) [OF inv, of b' c' sid' j]
        inv_idsD(5) [OF inv, of b c sid j b' c' sid']
      by (auto simp: task split: if_splits)
  next
    fix c sid j assume "streams_of s c sid = Some j"
    then show "sid_of s' j = Some (c, sid)"
      using old [of j c sid] inv_idsD(6) [OF inv, of c sid j] by (simp add: sid)
  next
    fix c sid j assume "delivering (pc_of s c) = Some (sid, j)"
    then show "sid_of s' j = Some (c, sid)"
      using old [of j c sid] inv_idsD(7) [OF inv, of c sid j] by (simp add: sid)
  qed
qed

lemma inv_ids_step:
  assumes "inv_ids n s" "n < 2 ^ 63" "step cfg e s = Some s'"
  shows "inv_ids (Suc n) s'"
  using assms(3)
proof (cases rule: step_ids_cases)
  case Kept
  with assms(1) show ?thesis by (rule inv_ids_kept)
next
  case (Accept a ac k)
  then show ?thesis
    using inv_ids_accept [OF assms(1,2) _ _ _ Accept(2)] by (simp add: accepts_def)
qed

lemma inv_ids_reach: "reach cfg n s \<Longrightarrow> n \<le> 2 ^ 63 \<Longrightarrow> inv_ids n s"
proof (induction rule: reach.induct)
  case reach_init
  show ?case
    by (simp add: inv_ids_def server_init_def sid_of_def task_of_def streams_of_def pc_of_def)
next
  case (reach_step n s e s')
  then show ?case by (auto intro: inv_ids_step)
qed

text \<open>
  C19. For the first \<open>2^63 - 1\<close> events, every virtual stream the hub ever opened has an identifier of
  its own: no two streams share one, whichever sessions they belong to, identifiers are never 0 and
  lie in the hub's half of the space, so they differ from every identifier a spoke may allocate.
\<close>
theorem stream_ids_unique:
  assumes "reach cfg n s" and "n < 2 ^ 63" and "strms s k = Some v"
  shows "hub_range (vs_sid v) \<and>
    (\<forall>j w. strms s j = Some w \<longrightarrow> vs_sid w = vs_sid v \<longrightarrow> j = k) \<and>
    (\<forall>c j. streams_of s c (vs_sid v) = Some j \<longrightarrow> j = k \<and> c = vs_sess v)"
proof -
  have inv: "inv_ids n s" using assms(1,2) by (simp add: inv_ids_reach)
  have sid: "sid_of s k = Some (vs_sess v, vs_sid v)" using assms(3) by (simp add: sid_of_def)
  have "hub_range (vs_sid v)"
    using inv_idsD(1,2) [OF inv] sid assms(2) by (fastforce simp: hub_range_def)
  moreover have "j = k" if "strms s j = Some w" "vs_sid w = vs_sid v" for j w
  proof -
    have "sid_of s j = Some (vs_sess w, vs_sid v)" using that by (simp add: sid_of_def)
    with inv_idsD(3) [OF inv sid] show ?thesis by blast
  qed
  moreover have "j = k \<and> c = vs_sess v" if "streams_of s c (vs_sid v) = Some j" for c j
    using inv_idsD(6) [OF inv that] inv_idsD(3) [OF inv sid] sid by force
  ultimately show ?thesis by blast
qed

text \<open>One TCP connection is accepted on the first port of the cluster spoke, registered and opened.\<close>

definition open_events :: "event list" where
  "open_events = cluster_events @
     [EvAcc 0 AcceptErr, EvAcc 0 (AcceptOk 5), EvAcc 0 AcceptErr, EvAcc 0 AcceptErr]"

theorem stream_ids_unique_witness:
  "\<exists>n s v. reach demo_cfg n s \<and> strms s 5 = Some v \<and> hub_range (vs_sid v) \<and>
     (\<forall>c j. streams_of s c (vs_sid v) = Some j \<longrightarrow> j = 5 \<and> c = vs_sess v)"
proof -
  have "map_option (\<lambda>s. strms s 5 \<noteq> None) (run demo_cfg open_events server_init) = Some True"
    by code_simp
  then obtain s v where s: "reach demo_cfg (length open_events) s" "strms s 5 = Some v"
    by (rule run_obtains) blast
  have "length open_events < 2 ^ 63"
    by (simp add: open_events_def cluster_events_def join_events_def)
  from stream_ids_unique [OF s(1) this s(2)] s show ?thesis by blast
qed

end
