(* ===== verification/Server_Delivery.thy ===== *)
theory Server_Delivery
  imports Server_Streams
begin

text \<open>
  The way down: from the \<open>Data\<close> frames a spoke sends for one virtual stream to the writes on the
  hub's TCP socket, through the writer channel of the stream. From the moment the stream is
  registered nothing is lost, repeated or reordered, until the stream is closed by one of its sides.
\<close>

section \<open>One stream's payloads\<close>

text \<open>What the downstream pump still has in hand or in its queue; nothing once it gave up.\<close>

fun in_flight :: "dn_pc \<Rightarrow> bytes list \<Rightarrow> bytes list option" where
  "in_flight DnIdle q = Some q"
| "in_flight DnRecv q = Some q"
| "in_flight (DnWrite p) q = Some (p # q)"
| "in_flight _ q = None"

text \<open>
  \<open>B\<close> is what arrived before the registration. Of the payloads received since, the first ones are
  written (\<open>w\<close>), the next ones in flight, the next one perhaps on its way into the channel (\<open>pend\<close>).
  While the stream is \<open>live\<close>, that is all of them.
\<close>

definition delivered ::
  "bytes list \<Rightarrow> u64 \<Rightarrow> client_frame list \<Rightarrow> dn_pc \<Rightarrow> bytes list \<Rightarrow> bytes list \<Rightarrow> bytes list \<Rightarrow> bool \<Rightarrow> bool" where
  "delivered B sid fs d w q pend live \<longleftrightarrow>
     (\<exists>post. case in_flight d q of
        None \<Rightarrow> client_payloads sid fs = B @ w @ post
      | Some xs \<Rightarrow>
          client_payloads sid fs = B @ w @ xs @ pend @ post \<and> (live \<longrightarrow> post = []))"

lemma delivered_weaken: "delivered B sid fs d w q pend live \<Longrightarrow> (live' \<Longrightarrow> live) \<Longrightarrow> delivered B sid fs d w q pend live'"
  by (auto simp: delivered_def split: option.splits)

lemma delivered_absorb: "delivered B sid fs d w q [] live \<Longrightarrow> delivered B sid (fs @ [f]) d w q [] False"
  by (auto simp: delivered_def split: option.splits)

lemma delivered_skip:
  "delivered B sid fs d w q pend live \<Longrightarrow> client_payloads sid [f] = [] \<Longrightarrow>
   delivered B sid (fs @ [f]) d w q pend live"
  unfolding delivered_def client_payloads_append by (simp only: append_Nil2)

lemma delivered_take:
  "delivered B sid fs d w q [] True \<Longrightarrow> client_payloads sid [f] = [p] \<Longrightarrow>
   delivered B sid (fs @ [f]) d w q [p] True"
  unfolding delivered_def client_payloads_append
  by (cases "in_flight d q") (auto simp del: client_payloads.simps)

lemma delivered_enqueue: "delivered B sid fs d w q [p] live \<Longrightarrow> delivered B sid fs d w (q @ [p]) [] live"
  by (cases d) (auto simp: delivered_def)

lemma delivered_refuse: "delivered B sid fs d w q [p] live \<Longrightarrow> delivered B sid fs d w q [] False"
  by (auto simp: delivered_def split: option.splits)

lemma delivered_open: "delivered B sid fs DnIdle w q pend live \<Longrightarrow> delivered B sid fs DnRecv w q pend live"
  by (simp add: delivered_def)

lemma delivered_recv:
  "delivered B sid fs DnRecv w q pend live \<Longrightarrow> p # q' = q \<Longrightarrow> delivered B sid fs (DnWrite p) w q' pend live"
  by (auto simp: delivered_def)

lemma delivered_written:
  "delivered B sid fs d w q pend live \<Longrightarrow> DnWrite p = d \<Longrightarrow> delivered B sid fs DnRecv (w @ [p]) q pend live"
  by (auto simp: delivered_def)

lemma delivered_stop:
  "delivered B sid fs d w q pend live \<Longrightarrow> in_flight d' q' = None \<Longrightarrow> delivered B sid fs d' w q' pend' live'"
  by (auto simp: delivered_def split: option.splits)

lemma delivered_start: "delivered (client_payloads sid fs) sid fs DnIdle [] [] [] live"
  by (simp add: delivered_def)

section \<open>The stream in the state\<close>

definition dn_view :: "server \<Rightarrow> nat \<Rightarrow> (nat \<times> u64 \<times> dn_pc \<times> bytes list \<times> bytes list) option" where
  "dn_view s k =
     map_option (\<lambda>v. (vs_sess v, vs_sid v, vs_dn v, vs_written v, ch_queue (vs_chan v))) (strms s k)"

fun pend_of :: "conn_pc option \<Rightarrow> nat \<Rightarrow> bytes list" where
  "pend_of (Some (CDeliver _ _ j p)) k = (if j = k then [p] else [])"
| "pend_of _ k = []"

fun refused :: "conn_pc option \<Rightarrow> u64 \<Rightarrow> bool" where
  "refused (Some (CDropWriter _ i)) sid \<longleftrightarrow> i = sid"
| "refused _ sid \<longleftrightarrow> False"

definition at_insert :: "server \<Rightarrow> nat \<Rightarrow> (nat \<times> u64 \<times> nat) option" where
  "at_insert s a =
     (case accs s a of
        Some ac \<Rightarrow> (case ac_pc ac of AInsert sid k \<Rightarrow> Some (ac_sess ac, sid, k) | _ \<Rightarrow> None)
      | None \<Rightarrow> None)"

definition is_live :: "server \<Rightarrow> nat \<Rightarrow> u64 \<Rightarrow> nat \<Rightarrow> bool" where
  "is_live s c sid k \<longleftrightarrow> streams_of s c sid = Some k \<and> \<not> refused (pc_of s c) sid"

definition delivery :: "bytes list \<Rightarrow> nat \<Rightarrow> nat \<Rightarrow> u64 \<Rightarrow> server \<Rightarrow> bool" where
  "delivery B k c sid s \<longleftrightarrow>
     (\<exists>d w q fs. dn_view s k = Some (c, sid, d, w, q) \<and> rcvd_of s c = Some fs \<and>
        (\<forall>a i e. at_insert s a \<noteq> Some (i, e, k)) \<and>
        delivered B sid fs d w q (pend_of (pc_of s c) k) (is_live s c sid k))"

text \<open>
  Before the registration: nothing is queued, written or on its way, and until its pumps are spawned
  the downstream pump is idle.
\<close>

definition inv_fresh :: "server \<Rightarrow> bool" where
  "inv_fresh s \<longleftrightarrow>
     (\<forall>a c sid k. task_of s a = Some (c, sid, k) \<longrightarrow> (\<exists>q. dn_view s k = Some (c, sid, DnIdle, [], q))) \<and>
     (\<forall>a c sid k. at_insert s a = Some (c, sid, k) \<longrightarrow>
        dn_view s k = Some (c, sid, DnIdle, [], []) \<and> streams_of s c sid \<noteq> Some k \<and>
        delivering (pc_of s c) \<noteq> Some (sid, k))"

lemma at_insert_task: "at_insert s a = Some x \<Longrightarrow> task_of s a = Some x"
  by (auto simp: at_insert_def task_of_def split: option.splits acc_pc.splits)

lemma dn_view_sid: "dn_view s k = Some (c, sid, d, w, q) \<Longrightarrow> sid_of s k = Some (c, sid)"
  by (auto simp: dn_view_def sid_of_def)

lemma dn_view_cong: "strms s' k = strms s k \<Longrightarrow> dn_view s' k = dn_view s k"
  by (simp add: dn_view_def)

lemma at_insert_cong: "accs s' = accs s \<Longrightarrow> at_insert s' = at_insert s"
  by (simp add: at_insert_def fun_eq_iff)

text \<open>Steps that leave the stream and its connection alone, or unregister the stream.\<close>

lemma delivery_kept:
  assumes "delivery B k c sid s" and "dn_view s' k = dn_view s k" and "rcvd_of s' c = rcvd_of s c"
    and "pc_of s' c = pc_of s c"
    and "streams_of s' c sid = Some k \<Longrightarrow> streams_of s c sid = Some k"
    and "\<And>a i e. at_insert s' a = Some (i, e, k) \<Longrightarrow> at_insert s a = Some (i, e, k)"
  shows "delivery B k c sid s'"
proof -
  from assms(1) obtain d w q fs where
    v: "dn_view s k = Some (c, sid, d, w, q)" "rcvd_of s c = Some fs"
      "\<forall>a i e. at_insert s a \<noteq> Some (i, e, k)"
      "delivered B sid fs d w q (pend_of (pc_of s c) k) (is_live s c sid k)"
    unfolding delivery_def by blast
  from v(4) have "delivered B sid fs d w q (pend_of (pc_of s' c) k) (is_live s' c sid k)"
    unfolding assms(4) by (rule delivered_weaken) (use assms(4,5) in \<open>simp add: is_live_def\<close>)
  with v(1-3) assms(2,3,6) show ?thesis unfolding delivery_def by metis
qed

section \<open>The other tasks\<close>

lemma at_insert_ops [simp]:
  "at_insert (upd_strm k v s) = at_insert s" "at_insert (upd_mets m s) = at_insert s"
  "at_insert (upd_sess c g s) = at_insert s" "at_insert (session_remove c sid s) = at_insert s"
  "at_insert (session_remove_counted c sid s) = at_insert s" "at_insert (upd_http h j s) = at_insert s"
  "at_insert (s\<lparr>outs := x1\<rparr>) = at_insert s" "at_insert (s\<lparr>ports := x2\<rparr>) = at_insert s"
  "at_insert (s\<lparr>mets := x3\<rparr>) = at_insert s" "at_insert (s\<lparr>strms := x4\<rparr>) = at_insert s"
  "at_insert (s\<lparr>next_sid := x5\<rparr>) = at_insert s"
  by (simp_all add: at_insert_def fun_eq_iff)

lemma at_insert_upd_acc [simp]:
  "at_insert (upd_acc a f s) b =
     (if b = a then case accs s a of None \<Rightarrow> None
        | Some ac \<Rightarrow> (case ac_pc (f ac) of AInsert sid k \<Rightarrow> Some (ac_sess (f ac), sid, k) | _ \<Rightarrow> None)
      else at_insert s b)"
  by (simp add: at_insert_def split: option.splits)

lemma dn_view_ops [simp]:
  "dn_view (set_conn_pc c pc s) = dn_view s" "dn_view (upd_sess a f s) = dn_view s"
  "dn_view (upd_acc a g s) = dn_view s" "dn_view (upd_http h j s) = dn_view s"
  "dn_view (upd_mets m s) = dn_view s"
  "dn_view (session_remove a sid s) = dn_view s" "dn_view (session_remove_counted a sid s) = dn_view s"
  "dn_view (s\<lparr>outs := x1\<rparr>) = dn_view s" "dn_view (s\<lparr>ports := x2\<rparr>) = dn_view s"
  "dn_view (s\<lparr>mets := x3\<rparr>) = dn_view s" "dn_view (s\<lparr>next_sid := x4\<rparr>) = dn_view s"
  by (simp_all add: dn_view_def fun_eq_iff)

lemma dn_view_upd_same:
  "(\<And>v. vs_sess (f v) = vs_sess v \<and> vs_sid (f v) = vs_sid v \<and> vs_dn (f v) = vs_dn v \<and>
      vs_written (f v) = vs_written v \<and> ch_queue (vs_chan (f v)) = ch_queue (vs_chan v)) \<Longrightarrow>
   dn_view (upd_strm k f s) = dn_view s"
  by (simp add: dn_view_def fun_eq_iff option.map_comp comp_def)

lemma dn_view_drop_rx [simp]:
  "dn_view (upd_strm k (\<lambda>v. v\<lparr>vs_chan := chan_drop_rx (vs_chan v)\<rparr>) s) = dn_view s"
  by (rule dn_view_upd_same) (simp add: chan_drop_rx_def)

lemma dn_view_up [simp]:
  "dn_view (upd_strm k (\<lambda>v. v\<lparr>vs_up := u\<rparr>) s) = dn_view s"
  "dn_view (upd_strm k (\<lambda>v. v\<lparr>vs_up := u, vs_read := g v\<rparr>) s) = dn_view s"
  by (rule dn_view_upd_same, simp)+

lemma quiet_conn: "quiet s s' \<Longrightarrow> rcvd_of s' c = rcvd_of s c \<and> pc_of s' c = pc_of s c"
  by (simp add: quiet_def)

lemma delivery_up_step:
  assumes d: "delivery B k c sid s" and st: "up_step j r s = Some s'"
  shows "delivery B k c sid s'"
proof -
  note q = quiet_conn [OF quiet_up_step [OF st], of c]
  have "dn_view s' = dn_view s \<and> at_insert s' = at_insert s \<and>
      (streams_of s' c sid = Some k \<longrightarrow> streams_of s c sid = Some k)"
    using st by (rule up_stepE)
      (auto simp: acc_ops dest!: session_send_frame split: op_splits)
  with q show ?thesis by (intro delivery_kept [OF d]) auto
qed

lemma delivery_http:
  assumes d: "delivery B k c sid s" and st: "http_run cfg env h s = Some s' \<or> http_send h s = Some s'"
  shows "delivery B k c sid s'"
proof -
  have q: "quiet s s'" using st quiet_http_run quiet_http_send by blast
  have "dn_view s' = dn_view s \<and> at_insert s' = at_insert s \<and> streams_of s' = streams_of s"
    using st by (auto simp: http_run_def http_send_def fun_eq_iff dest!: session_send_frame
        split: option.splits http_pc.splits prod.splits sent.splits)
  with quiet_conn [OF q, of c] show ?thesis by (intro delivery_kept [OF d]) auto
qed

lemma delivery_out:
  assumes d: "delivery B k c sid s" and st: "out_take e s = Some s' \<or> out_drop e s = Some s'"
  shows "delivery B k c sid s'"
proof -
  have q: "quiet s s'" using st quiet_out by blast
  have "dn_view s' = dn_view s \<and> at_insert s' = at_insert s \<and> streams_of s' = streams_of s"
    using st by (auto simp: out_take_def out_drop_def fun_eq_iff split: op_splits)
  with quiet_conn [OF q, of c] show ?thesis by (intro delivery_kept [OF d]) auto
qed

lemma delivery_acc_cancel:
  assumes d: "delivery B k c sid s" and st: "acc_cancel a s = Some s'"
  shows "delivery B k c sid s'"
proof -
  have "dn_view s' = dn_view s \<and> streams_of s' = streams_of s \<and>
      (\<forall>b x. at_insert s' b = Some x \<longrightarrow> at_insert s b = Some x)"
    using st by (auto simp: acc_ops fun_eq_iff split: option.splits if_splits acc_pc.splits)
  with quiet_conn [OF quiet_acc_cancel [OF st], of c] show ?thesis by (intro delivery_kept [OF d]) auto
qed

text \<open>The accept loops: another stream may start, and this one's pump may be spawned.\<close>

lemma delivery_dn:
  assumes d: "delivery B k c sid s" and v: "dn_view s k = Some (c, sid, d0, w0, q0)"
    and v': "dn_view s' k = Some (c, sid, d1, w1, q1)"
    and mv: "\<And>fs pend live. delivered B sid fs d0 w0 q0 pend live \<Longrightarrow> delivered B sid fs d1 w1 q1 pend live"
    and same: "rcvd_of s' c = rcvd_of s c" "pc_of s' c = pc_of s c" "streams_of s' c = streams_of s c"
      "\<And>a i e. at_insert s' a = Some (i, e, k) \<Longrightarrow> at_insert s a = Some (i, e, k)"
  shows "delivery B k c sid s'"
proof -
  from d v obtain fs where "rcvd_of s c = Some fs" "\<forall>a i e. at_insert s a \<noteq> Some (i, e, k)"
      "delivered B sid fs d0 w0 q0 (pend_of (pc_of s c) k) (is_live s c sid k)"
    unfolding delivery_def by auto
  with mv v' same show ?thesis unfolding delivery_def is_live_def by metis
qed

lemma delivery_acc_step:
  assumes ids: "inv_ids n s" and fr: "inv_fresh s" and d: "delivery B k c sid s"
    and st: "acc_step a r s = Some s'"
  shows "delivery B k c sid s'"
proof -
  note q = quiet_conn [OF quiet_acc_step [OF st], of c]
  from d obtain d0 w0 q0 where v: "dn_view s k = Some (c, sid, d0, w0, q0)"
    and ni: "\<And>a i e. at_insert s a \<noteq> Some (i, e, k)"
    unfolding delivery_def by blast
  have k: "strms s k \<noteq> None" using v by (auto simp: dn_view_def)
  from st show ?thesis
  proof (cases rule: acc_stepE)
    case (Accept ac)
    with k ni q show ?thesis
      by (intro delivery_kept [OF d])
        (auto simp: acc_ops dn_view_def split: accept_outcome.splits if_splits)
  next
    case (Insert ac i j)
    then have "at_insert s a = Some (ac_sess ac, i, j)" by (simp add: at_insert_def)
    then have "j \<noteq> k" "sid_of s j = Some (ac_sess ac, i)"
      using ni inv_idsD(4) [OF ids at_insert_task] by blast+
    with Insert q show ?thesis
      by (intro delivery_kept [OF d]) (auto simp: acc_ops split: if_splits)
  next
    case (Open ac i j)
    show ?thesis
    proof (cases "j = k \<and> (\<exists>t. session_send (ac_sess ac) (open_frame i (ac_target ac)) s = SendOk t)")
      case True
      then obtain t where t: "session_send (ac_sess ac) (open_frame i (ac_target ac)) s = SendOk t" by blast
      from session_send_frame [OF t] obtain x where "t = s\<lparr>outs := x\<rparr>" by blast
      with Open True t have s': "s' = upd_acc a (\<lambda>ac. ac\<lparr>ac_pc := ACheck\<rparr>)
          (upd_strm k (\<lambda>v. v\<lparr>vs_up := UpRead, vs_dn := DnRecv\<rparr>) (s\<lparr>outs := x\<rparr>))"
        by (simp add: acc_open_def)
      then have v': "dn_view s' k = Some (c, sid, DnRecv, w0, q0)" using v by (auto simp: dn_view_def)
      show ?thesis
      proof (rule delivery_dn [OF d v v'])
        have "task_of s a = Some (ac_sess ac, i, k)" using Open True by (simp add: task_of_acc)
        with fr have "\<exists>q. dn_view s k = Some (ac_sess ac, i, DnIdle, [], q)"
          unfolding inv_fresh_def by blast
        with v have "d0 = DnIdle" by auto
        then show "delivered B sid fs DnRecv w0 q0 pend live" if "delivered B sid fs d0 w0 q0 pend live" for fs pend live
          using that delivered_open by simp
      qed (use s' q in \<open>auto split: if_splits option.splits\<close>)
    next
      case False
      with Open q show ?thesis
        by (intro delivery_kept [OF d])
          (auto simp: acc_ops dn_view_def dest!: session_send_frame split: sent.splits if_splits)
    qed
  qed (use q in \<open>intro delivery_kept [OF d]; auto simp: acc_ops split: if_splits\<close>)+
qed

lemma delivery_dn_step:
  assumes d: "delivery B k c sid s" and st: "dn_step j r s = Some s'"
  shows "delivery B k c sid s'"
proof -
  note q = quiet_conn [OF quiet_dn_step [OF st], of c]
  have same: "streams_of s' = streams_of s \<and> at_insert s' = at_insert s"
    using st by (rule dn_stepE) (auto simp: acc_ops fun_eq_iff split: op_splits)
  show ?thesis
  proof (cases "j = k")
    case False
    have "dn_view s' k = dn_view s k"
      using st False by (elim dn_stepE) (auto simp: acc_ops dn_view_def split: op_splits)
    with same q show ?thesis by (intro delivery_kept [OF d]) auto
  next
    case True
    from d obtain d0 w0 q0 where v: "dn_view s k = Some (c, sid, d0, w0, q0)"
      unfolding delivery_def by blast
    have "\<exists>d1 w1 q1. dn_view s' k = Some (c, sid, d1, w1, q1) \<and>
        (\<forall>fs pend live. delivered B sid fs d0 w0 q0 pend live \<longrightarrow> delivered B sid fs d1 w1 q1 pend live)"
      using st
    proof (cases rule: dn_stepE)
      case (Recv x)
      show ?thesis
      proof (cases "chan_recv (vs_chan x)")
        case None
        with Recv v True show ?thesis
          by (auto simp: dn_recv_def dn_view_def split: if_splits elim!: delivered_stop)
      next
        case (Some pch)
        obtain p ch where "pch = (p, ch)" by (cases pch)
        with Recv v True Some chan_recv_SomeD [of "vs_chan x" p ch] show ?thesis
          by (auto simp: dn_recv_def dn_view_def intro: delivered_recv)
      qed
    next
      case (Write x p)
      with v True show ?thesis
        by (cases r) (auto simp: dn_write_def dn_view_def intro: delivered_written elim!: delivered_stop)
    next
      case (Shutdown x)
      with v True show ?thesis
        by (auto simp: dn_shutdown_def dn_view_def chan_drop_rx_def elim!: delivered_stop)
    qed
    then obtain d1 w1 q1 where "dn_view s' k = Some (c, sid, d1, w1, q1)"
      "\<And>fs pend live. delivered B sid fs d0 w0 q0 pend live \<Longrightarrow> delivered B sid fs d1 w1 q1 pend live"
      by blast
    from delivery_dn [OF d v this] same q show ?thesis by auto
  qed
qed

section \<open>The receive loop\<close>

lemma delivery_conn_other:
  assumes d: "delivery B k c sid s" and st: "conn_step cfg e inp s = Some s'" and ne: "e \<noteq> c"
    and ids: "inv_ids n s"
  shows "delivery B k c sid s'"
proof -
  from d obtain d0 w0 q0 where v: "dn_view s k = Some (c, sid, d0, w0, q0)"
    unfolding delivery_def by blast
  have dk: "delivering (pc_of s e) \<noteq> Some (i, k)" for i
    using inv_idsD(7) [OF ids, of e i k] dn_view_sid [OF v] ne by auto
  have "dn_view s' k = dn_view s k \<and> rcvd_of s' c = rcvd_of s c \<and>
      (streams_of s' c sid = Some k \<longrightarrow> streams_of s c sid = Some k) \<and>
      (\<forall>a i f. at_insert s' a = Some (i, f, k) \<longrightarrow> at_insert s a = Some (i, f, k))"
    using st
  proof (cases rule: conn_stepE)
    case (First cn r)
    with ne show ?thesis
      by (auto simp: conn_first_def conn_fail_def dn_view_def at_insert_def session_new_def
          split: recv_result.splits sum.splits)
  next
    case (Deliver cn ctx i j p)
    with dk have "j \<noteq> k" by (auto simp: pc_of_conn)
    with Deliver ne show ?thesis
      by (auto simp: conn_ops dn_view_def at_insert_def split: op_splits)
  next
    case (Abort cn r)
    with ne show ?thesis
      by (auto simp: conn_ops dn_view_def at_insert_def split: option.splits acc_pc.splits if_splits)
  next
    case (Bind cn ctx b bs r)
    with ne show ?thesis
      by (auto simp: conn_bind_alt dn_view_def at_insert_def split: op_splits acc_pc.splits)
  next
    case (Reject cn ctx f)
    with ne show ?thesis
      by (auto simp: conn_ops dn_view_def at_insert_def dest!: session_send_frame split: op_splits)
  qed (use ne in \<open>auto simp: conn_ops dn_view_def at_insert_def split: op_splits\<close>)
  with conn_step_other_pc [OF st] ne show ?thesis by (intro delivery_kept [OF d]) auto
qed

text \<open>Its own connection.\<close>

lemma delivery_conn_same:
  assumes d: "delivery B k c sid s"
    and v: "dn_view s' k = dn_view s k" "rcvd_of s' c = rcvd_of s c"
      "pend_of (pc_of s' c) k = pend_of (pc_of s c) k"
    and live: "is_live s' c sid k \<Longrightarrow> is_live s c sid k"
    and ins: "\<And>a i e. at_insert s' a = Some (i, e, k) \<Longrightarrow> at_insert s a = Some (i, e, k)"
  shows "delivery B k c sid s'"
proof -
  from d obtain d0 w q fs where
    o: "dn_view s k = Some (c, sid, d0, w, q)" "rcvd_of s c = Some fs"
      "\<forall>a i e. at_insert s a \<noteq> Some (i, e, k)"
      "delivered B sid fs d0 w q (pend_of (pc_of s c) k) (is_live s c sid k)"
    unfolding delivery_def by blast
  from delivered_weaken [OF o(4) live] o(1-3) v ins show ?thesis
    unfolding delivery_def by metis
qed

lemma delivery_conn_recv:
  assumes ids: "inv_ids n s" and d: "delivery B k c sid s" and cn: "conns s c = Some cn" "cn_pc cn = CRecv ctx"
    and r: "conn_recv c ctx r h s = Some s'"
  shows "delivery B k c sid s'"
proof (cases r)
  case (Frame f)
  from d obtain d0 w q fs where
    o: "dn_view s k = Some (c, sid, d0, w, q)" "rcvd_of s c = Some fs"
      "\<forall>a i e. at_insert s a \<noteq> Some (i, e, k)"
      "delivered B sid fs d0 w q [] (is_live s c sid k)"
    using cn by (auto simp: delivery_def pc_of_conn)
  have s': "s' = conn_frame c ctx f h (log_frame c f s)" using Frame r by (auto simp: conn_recv_def split: if_splits)
  have rc: "rcvd_of s' c = Some (fs @ [f])" and dv: "dn_view s' k = dn_view s k"
    and ni: "at_insert s' = at_insert s"
    using o(2) s' by (auto simp: conn_ops dn_view_def at_insert_def fun_eq_iff split: op_splits)
  have "delivered B sid (fs @ [f]) d0 w q (pend_of (pc_of s' c) k) (is_live s' c sid k)"
  proof (cases "\<exists>p. cf_kind f = Some (CData p) \<and> cf_stream_id f = sid")
    case False
    then have np: "client_payloads sid [f] = []" by (auto split: option.splits client_kind.splits)
    have "pend_of (pc_of s' c) k = [] \<and> (is_live s' c sid k \<longrightarrow> is_live s c sid k)"
    proof (cases "\<exists>p j. cf_kind f = Some (CData p) \<and> streams_of s c (cf_stream_id f) = Some j")
      case True
      then obtain p j where p: "cf_kind f = Some (CData p)" "streams_of s c (cf_stream_id f) = Some j" by blast
      with False have "j \<noteq> k"
        using inv_idsD(6) [OF ids p(2)] dn_view_sid [OF o(1)] by auto
      with p cn show ?thesis
        by (auto simp: s' conn_frame_def conn_data_def is_live_def pc_of_conn streams_of_sess
            split: option.splits)
    next
      case False
      with cn show ?thesis
        by (auto simp: s' conn_frame_def conn_data_def conn_http_def is_live_def pc_of_conn streams_of_sess
            split: option.splits client_kind.splits if_splits)
    qed
    then show ?thesis
      using delivered_skip [OF o(4) np] by (auto elim: delivered_weaken)
  next
    case True
    then obtain p where p: "cf_kind f = Some (CData p)" "cf_stream_id f = sid" by blast
    then have pay: "client_payloads sid [f] = [p]" by simp
    show ?thesis
    proof (cases "streams_of s c sid = Some k")
      case True
      then have live: "is_live s c sid k" using cn by (simp add: is_live_def pc_of_conn)
      from True obtain ss where ss: "sess s c = Some ss" "ss_streams ss sid = Some k"
        by (auto simp: streams_of_def split: option.splits)
      with p cn have "pend_of (pc_of s' c) k = [p] \<and> is_live s' c sid k"
        using True by (simp add: s' conn_frame_def conn_data_def is_live_def pc_of_conn)
      moreover have "delivered B sid fs d0 w q [] True" using o(4) live by simp
      from delivered_take [OF this pay] have "delivered B sid (fs @ [f]) d0 w q [p] True" .
      ultimately show ?thesis by simp
    next
      case False
      have "pend_of (pc_of s' c) k = [] \<and> \<not> is_live s' c sid k"
        using p cn False inv_idsD(6) [OF ids, of c sid] dn_view_sid [OF o(1)]
        by (auto simp: s' conn_frame_def conn_data_def is_live_def pc_of_conn streams_of_sess
            split: option.splits)
      with delivered_absorb [OF o(4), of f] show ?thesis by (auto elim: delivered_weaken)
    qed
  qed
  with o(1,3) rc dv ni show ?thesis unfolding delivery_def by auto
next
  case RecvError
  with r cn show ?thesis
    by (intro delivery_conn_same [OF d])
      (auto simp: conn_recv_def dn_view_def at_insert_def is_live_def pc_of_conn)
next
  case RecvEnd
  with r cn show ?thesis
    by (intro delivery_conn_same [OF d])
      (auto simp: conn_recv_def dn_view_def at_insert_def is_live_def pc_of_conn)
qed

lemma delivery_conn_deliver:
  assumes d: "delivery B k c sid s" and cn: "conns s c = Some cn" "cn_pc cn = CDeliver ctx i j p"
    and ids: "inv_ids n s" and st: "conn_deliver c ctx i j p s = Some s'"
  shows "delivery B k c sid s'"
proof -
  from d obtain d0 w q fs where
    o: "dn_view s k = Some (c, sid, d0, w, q)" "rcvd_of s c = Some fs"
      "\<forall>a i e. at_insert s a \<noteq> Some (i, e, k)"
      "delivered B sid fs d0 w q (if j = k then [p] else []) (is_live s c sid k)"
    using cn by (auto simp: delivery_def pc_of_conn)
  have "delivering (pc_of s c) = Some (i, j)" using cn by (simp add: pc_of_conn)
  from inv_idsD(7) [OF ids this] dn_view_sid [OF o(1)] have ji: "j = k \<Longrightarrow> i = sid" by simp
  have live: "is_live s c sid k \<longleftrightarrow> streams_of s c sid = Some k" using cn by (simp add: is_live_def pc_of_conn)
  have rest: "rcvd_of s' c = Some fs" "at_insert s' = at_insert s" "streams_of s' = streams_of s"
    using st o(2) by (auto simp: conn_deliver_def at_insert_def fun_eq_iff split: op_splits)
  show ?thesis
  proof (cases "j = k")
    case False
    have "dn_view s' k = dn_view s k" "pend_of (pc_of s' c) k = pend_of (pc_of s c) k"
      "is_live s' c sid k \<Longrightarrow> is_live s c sid k"
      using st cn False live by (auto simp: conn_deliver_def dn_view_def pc_of_conn is_live_def split: op_splits)
    with rest o(2) show ?thesis by (intro delivery_conn_same [OF d]) auto
  next
    case True
    note dl = o(4) [unfolded if_P [OF True]]
    have "\<exists>q' live'. dn_view s' k = Some (c, sid, d0, w, q') \<and> delivered B sid fs d0 w q' [] live' \<and>
        (is_live s' c sid k \<longrightarrow> live') \<and> pend_of (pc_of s' c) k = []"
    proof (cases "\<exists>v ch. strms s k = Some v \<and> chan_send p (vs_chan v) = SendOk ch")
      case True
      then obtain v ch where v: "strms s k = Some v" "chan_send p (vs_chan v) = SendOk ch" by blast
      with st \<open>j = k\<close> have s': "s' = set_conn_pc c (CRecv ctx) (upd_strm k (\<lambda>v. v\<lparr>vs_chan := ch\<rparr>) s)"
        by (simp add: conn_deliver_def)
      have "ch_queue ch = ch_queue (vs_chan v) @ [p]" using mpsc.send_appends [OF v(2)] .
      with v s' o(1) have "dn_view s' k = Some (c, sid, d0, w, q @ [p])" by (auto simp: dn_view_def)
      with delivered_enqueue [OF dl] s' cn live show ?thesis
        by (intro exI [of _ "q @ [p]"] exI [of _ "is_live s c sid k"]) (auto simp: is_live_def pc_of_conn)
    next
      case False
      with st \<open>j = k\<close> have s': "s' = set_conn_pc c (CDropWriter ctx i) s"
        by (auto simp: conn_deliver_def split: option.splits sent.splits)
      with delivered_refuse [OF dl] o(1) cn ji True show ?thesis
        by (intro exI [of _ q] exI [of _ False]) (auto simp: is_live_def pc_of_conn)
    qed
    then obtain q' live' where "dn_view s' k = Some (c, sid, d0, w, q')" "delivered B sid fs d0 w q' [] live'"
      "is_live s' c sid k \<Longrightarrow> live'" "pend_of (pc_of s' c) k = []"
      by blast
    with rest o(3) delivered_weaken [of B sid fs d0 w q' "[]" live' "is_live s' c sid k"]
    show ?thesis unfolding delivery_def by auto
  qed
qed

lemma delivery_conn_step:
  assumes auth: "inv_auth cfg s" and ids: "inv_ids n s" and d: "delivery B k c sid s" and st: "conn_step cfg e inp s = Some s'"
  shows "delivery B k c sid s'"
proof (cases "e = c")
  case False
  from delivery_conn_other [OF d st False ids] show ?thesis .
next
  case True
  from st show ?thesis
  proof (cases rule: conn_stepE)
    case (First cn r)
    from d obtain d0 w q fs where
      o: "dn_view s k = Some (c, sid, d0, w, q)" "rcvd_of s c = Some fs"
        "\<forall>a i e. at_insert s a \<noteq> Some (i, e, k)"
        "delivered B sid fs d0 w q [] (is_live s c sid k)"
      using First(1,2) True by (auto simp: delivery_def pc_of_conn)
    have "ident_of s c = None"
      using auth First(1,2) True
      by (auto simp: inv_auth_def conn_ok_def pc_of_def rcvd_of_def dest!: spec [of _ c])
    then have none: "streams_of s c = Map.empty"
      by (auto simp: ident_of_def streams_of_def fun_eq_iff)
    obtain gs where gs: "rcvd_of s' c = Some (fs @ gs)" "length gs \<le> 1"
      using First(3) True o(2)
      by (auto simp: conn_first_def conn_fail_def split: recv_result.splits sum.splits)
    have rest: "\<not> is_live s' c sid k" "dn_view s' k = dn_view s k" "at_insert s' = at_insert s"
      "pend_of (pc_of s' c) k = []"
      using First True none
      by (auto simp: conn_first_def conn_fail_def is_live_def dn_view_def at_insert_def fun_eq_iff
          session_new_def pc_of_conn split: recv_result.splits sum.splits)
    have "delivered B sid (fs @ gs) d0 w q [] False"
      using delivered_absorb [OF o(4)] delivered_weaken [OF o(4), of False] gs(2)
      by (cases gs) auto
    with o(1,3) gs(1) rest show ?thesis unfolding delivery_def by auto
  next
    case (Recv cn ctx r h)
    with delivery_conn_recv [OF ids d] True show ?thesis by blast
  next
    case (Deliver cn ctx i j p)
    with delivery_conn_deliver [OF d _ _ ids] True show ?thesis by blast
  next
    case (Bind cn ctx b bs r)
    with True d show ?thesis
      by (intro delivery_conn_same [OF d])
        (auto simp: conn_bind_alt dn_view_def at_insert_def is_live_def pc_of_conn split: op_splits acc_pc.splits)
  next
    case (Abort cn r)
    with True show ?thesis
      by (intro delivery_conn_same [OF d])
        (auto simp: conn_ops dn_view_def at_insert_def is_live_def pc_of_conn split: option.splits acc_pc.splits if_splits)
  next
    case (Reject cn ctx f)
    with True show ?thesis
      by (intro delivery_conn_same [OF d])
        (auto simp: conn_ops dn_view_def at_insert_def is_live_def pc_of_conn dest!: session_send_frame split: op_splits)
  next
    case (DropWriter cn ctx i)
    with True show ?thesis
      by (intro delivery_conn_same [OF d])
        (auto simp: conn_ops dn_view_def at_insert_def is_live_def pc_of_conn split: if_splits)
  qed (use True in \<open>intro delivery_conn_same [OF d];
        auto simp: conn_ops dn_view_def at_insert_def is_live_def pc_of_conn split: op_splits\<close>)+
qed

section \<open>Before the registration\<close>

definition fresh_kept :: "server \<Rightarrow> server \<Rightarrow> bool" where
  "fresh_kept s s' \<longleftrightarrow>
     (\<forall>a x. task_of s' a = Some x \<longrightarrow> task_of s a = Some x) \<and>
     (\<forall>a x. at_insert s' a = Some x \<longrightarrow> at_insert s a = Some x) \<and>
     (\<forall>k c sid q. dn_view s k = Some (c, sid, DnIdle, [], q) \<longrightarrow>
        (\<exists>a. task_of s' a = Some (c, sid, k)) \<longrightarrow>
        (\<exists>q'. dn_view s' k = Some (c, sid, DnIdle, [], q') \<and>
              (q' = q \<or> delivering (pc_of s c) = Some (sid, k)))) \<and>
     (\<forall>c sid k. streams_of s' c sid = Some k \<longrightarrow>
        streams_of s c sid = Some k \<or> (\<exists>a. at_insert s a = Some (c, sid, k) \<and> at_insert s' a = None)) \<and>
     (\<forall>c sid k. delivering (pc_of s' c) = Some (sid, k) \<longrightarrow>
        delivering (pc_of s c) = Some (sid, k) \<or> streams_of s c sid = Some k)"

lemma inv_freshD:
  assumes "inv_fresh s"
  shows "task_of s a = Some (c, sid, k) \<Longrightarrow> \<exists>q. dn_view s k = Some (c, sid, DnIdle, [], q)"
    "at_insert s a = Some (c, sid, k) \<Longrightarrow>
       dn_view s k = Some (c, sid, DnIdle, [], []) \<and> streams_of s c sid \<noteq> Some k \<and>
       delivering (pc_of s c) \<noteq> Some (sid, k)"
  using assms unfolding inv_fresh_def by blast+

lemma fresh_keptD:
  assumes "fresh_kept s s'"
  shows "task_of s' a = Some x \<Longrightarrow> task_of s a = Some x"
    "at_insert s' a = Some x \<Longrightarrow> at_insert s a = Some x"
    "dn_view s k = Some (c, sid, DnIdle, [], q) \<Longrightarrow> task_of s' a = Some (c, sid, k) \<Longrightarrow>
       \<exists>q'. dn_view s' k = Some (c, sid, DnIdle, [], q') \<and> (q' = q \<or> delivering (pc_of s c) = Some (sid, k))"
    "streams_of s' c sid = Some k \<Longrightarrow>
       streams_of s c sid = Some k \<or> (\<exists>a. at_insert s a = Some (c, sid, k) \<and> at_insert s' a = None)"
    "delivering (pc_of s' c) = Some (sid, k) \<Longrightarrow>
       delivering (pc_of s c) = Some (sid, k) \<or> streams_of s c sid = Some k"
  using assms unfolding fresh_kept_def by blast+

lemma inv_fresh_kept:
  assumes ids: "inv_ids n s" and inv: "inv_fresh s" and kept: "fresh_kept s s'"
  shows "inv_fresh s'"
  unfolding inv_fresh_def
proof (intro conjI allI impI)
  fix a c sid k
  assume a: "task_of s' a = Some (c, sid, k)"
  from inv_freshD(1) [OF inv fresh_keptD(1) [OF kept a]] obtain q
    where "dn_view s k = Some (c, sid, DnIdle, [], q)" by blast
  from fresh_keptD(3) [OF kept this a] show "\<exists>q. dn_view s' k = Some (c, sid, DnIdle, [], q)" by blast
next
  fix a c sid k
  assume a': "at_insert s' a = Some (c, sid, k)"
  note a = fresh_keptD(2) [OF kept a']
  note f = inv_freshD(2) [OF inv a]
  from fresh_keptD(3) [OF kept _ at_insert_task [OF a']] f
  show "dn_view s' k = Some (c, sid, DnIdle, [], [])" by blast
  have "b = a" if "at_insert s b = Some (c, sid, k)" for b
    using inv_idsD(5) [OF ids at_insert_task [OF a] at_insert_task [OF that]] .
  with fresh_keptD(4) [OF kept, of c sid k] f a' show "streams_of s' c sid \<noteq> Some k" by force
  from fresh_keptD(5) [OF kept, of c sid k] f show "delivering (pc_of s' c) \<noteq> Some (sid, k)" by blast
qed

lemma fresh_kept_same:
  assumes "ids_kept s s'" "dn_view s' = dn_view s" "\<And>a x. at_insert s' a = Some x \<Longrightarrow> at_insert s a = Some x"
    "\<And>c sid k. streams_of s' c sid = Some k \<Longrightarrow> streams_of s c sid = Some k"
  shows "fresh_kept s s'"
proof -
  note ids = assms(1) [unfolded ids_kept_def]
  show ?thesis
    unfolding fresh_kept_def assms(2)
  proof (intro conjI allI impI)
    fix a x assume "task_of s' a = Some x"
    with ids show "task_of s a = Some x" by blast
  next
    fix c sid k assume "delivering (pc_of s' c) = Some (sid, k)"
    with ids show "delivering (pc_of s c) = Some (sid, k) \<or> streams_of s c sid = Some k" by blast
  qed (use assms(3,4) in auto)
qed

lemma fresh_kept_conn_step:
  assumes ids: "inv_ids n s" and st: "conn_step cfg c inp s = Some s'"
  shows "fresh_kept s s'"
proof -
  note kept = ids_kept_conn_step [OF st]
  from st show ?thesis
  proof (cases rule: conn_stepE)
    case (Deliver cn ctx i j p)
    have "delivering (pc_of s c) = Some (i, j)" using Deliver by (simp add: pc_of_conn)
    note sj = inv_idsD(7) [OF ids this] and dj = this
    have dv: "dn_view s' k = dn_view s k \<or>
        k = j \<and> (\<forall>e sid d w q. dn_view s k = Some (e, sid, d, w, q) \<longrightarrow> (\<exists>q'. dn_view s' k = Some (e, sid, d, w, q')))" for k
      using Deliver(3) by (auto simp: conn_ops dn_view_def split: op_splits)
    have rest: "at_insert s' = at_insert s" "streams_of s' = streams_of s"
      using Deliver(3) by (auto simp: conn_ops at_insert_def fun_eq_iff split: op_splits)
    show ?thesis
      unfolding fresh_kept_def rest
    proof (intro conjI allI impI)
      fix k e sid q assume v: "dn_view s k = Some (e, sid, DnIdle, [], q)"
      show "\<exists>q'. dn_view s' k = Some (e, sid, DnIdle, [], q') \<and>
              (q' = q \<or> delivering (pc_of s e) = Some (sid, k))"
      proof (cases "dn_view s' k = dn_view s k")
        case False
        with dv [of k] v obtain q' where "k = j" "dn_view s' k = Some (e, sid, DnIdle, [], q')" by blast
        moreover from this dn_view_sid [OF v] sj dj have "delivering (pc_of s e) = Some (sid, k)" by simp
        ultimately show ?thesis by blast
      qed (use v in auto)
    qed (use kept in \<open>auto simp: ids_kept_def\<close>)
  next
    case (First cn r)
    then show ?thesis
      by (intro fresh_kept_same [OF kept])
        (auto simp: conn_first_def conn_fail_def dn_view_def at_insert_def fun_eq_iff session_new_def
          split: recv_result.splits sum.splits if_splits)
  next
    case (Bind cn ctx b bs r)
    then show ?thesis
      by (intro fresh_kept_same [OF kept])
        (auto simp: conn_bind_alt dn_view_def at_insert_def fun_eq_iff split: op_splits acc_pc.splits)
  next
    case (Abort cn r)
    then show ?thesis
      by (intro fresh_kept_same [OF kept])
        (auto simp: conn_ops dn_view_def at_insert_def fun_eq_iff split: option.splits acc_pc.splits if_splits)
  next
    case (Reject cn ctx f)
    then show ?thesis
      by (intro fresh_kept_same [OF kept])
        (auto simp: conn_ops dn_view_def at_insert_def fun_eq_iff dest!: session_send_frame split: op_splits)
  qed (intro fresh_kept_same [OF kept];
       auto simp: conn_ops dn_view_def at_insert_def fun_eq_iff split: op_splits)+
qed

lemma fresh_kept_acc_step:
  assumes ids: "inv_ids n s" and st: "acc_step a r s = Some s'"
    and na: "\<And>ac k. accs s a = Some ac \<Longrightarrow> ac_pc ac = AAccept \<Longrightarrow> r \<noteq> AcceptOk k"
  shows "fresh_kept s s'"
proof -
  note kept = ids_kept_acc_step [OF st na]
  from st show ?thesis
  proof (cases rule: acc_stepE)
    case (Accept ac)
    with na show ?thesis
      by (intro fresh_kept_same [OF kept]) (auto simp: acc_ops split: accept_outcome.splits if_splits)
  next
    case (Insert ac i j)
    then have a: "at_insert s a = Some (ac_sess ac, i, j)" "at_insert s' a = None"
      by (simp_all add: at_insert_def acc_insert_def upd_acc_def upd_sess_def upd_mets_def)
    have dv: "dn_view s' = dn_view s" using Insert by (simp add: acc_insert_def)
    show ?thesis
      unfolding fresh_kept_def dv
    proof (intro conjI allI impI)
      fix c sid k assume "streams_of s' c sid = Some k"
      with Insert(3) have "streams_of s c sid = Some k \<or> c = ac_sess ac \<and> sid = i \<and> k = j"
        by (auto simp: acc_insert_def split: if_splits)
      with a show "streams_of s c sid = Some k \<or> (\<exists>a. at_insert s a = Some (c, sid, k) \<and> at_insert s' a = None)"
        by blast
    next
      fix b x assume "at_insert s' b = Some x"
      with Insert show "at_insert s b = Some x" by (auto simp: acc_insert_def split: if_splits)
    qed (use kept in \<open>auto simp: ids_kept_def\<close>)
  next
    case (Open ac i j)
    then have tj: "task_of s a = Some (ac_sess ac, i, j)" by (simp add: task_of_acc)
    have dv: "dn_view s' k = dn_view s k" if "k \<noteq> j" for k
      using Open(3) that by (auto simp: acc_open_def dn_view_def dest!: session_send_frame split: sent.splits)
    have st': "streams_of s' = streams_of s"
      using Open(3) by (auto simp: acc_open_def fun_eq_iff dest!: session_send_frame split: sent.splits)
    have ai: "at_insert s' b = Some x \<Longrightarrow> at_insert s b = Some x" for b x
      using Open(3) by (auto simp: acc_open_def dest!: session_send_frame split: sent.splits if_splits option.splits)
    show ?thesis
    proof (cases "dn_view s' j = dn_view s j")
      case True
      with dv have "dn_view s' = dn_view s" by (intro ext) metis
      then show ?thesis by (intro fresh_kept_same [OF kept]) (use ai st' in auto)
    next
      case False
      then have none: "task_of s' a = None"
        using Open by (auto simp: acc_open_def dest!: session_send_frame split: sent.splits)
      show ?thesis
        unfolding fresh_kept_def st'
      proof (intro conjI allI impI)
        fix k c sid q assume v: "dn_view s k = Some (c, sid, DnIdle, [], q)" and "\<exists>b. task_of s' b = Some (c, sid, k)"
        then obtain b where b: "task_of s' b = Some (c, sid, k)" by blast
        with kept have "task_of s b = Some (c, sid, k)" by (auto simp: ids_kept_def)
        with inv_idsD(5) [OF ids tj] b none have "k \<noteq> j" by auto
        with dv v show "\<exists>q'. dn_view s' k = Some (c, sid, DnIdle, [], q') \<and>
            (q' = q \<or> delivering (pc_of s c) = Some (sid, k))" by simp
      qed (use kept ai in \<open>auto simp: ids_kept_def st'\<close>)
    qed
  qed (intro fresh_kept_same [OF kept]; auto simp: acc_ops split: if_splits)+
qed

lemma fresh_kept_other:
  "connect c n t s = Some s' \<Longrightarrow> fresh_kept s s'"
  "acc_cancel a s = Some s' \<Longrightarrow> fresh_kept s s'"
  "up_step k r s = Some s' \<Longrightarrow> fresh_kept s s'"
  "http_run cfg env h s = Some s' \<Longrightarrow> fresh_kept s s'"
  "http_send h s = Some s' \<Longrightarrow> fresh_kept s s'"
  "out_take c s = Some s' \<Longrightarrow> fresh_kept s s'" "out_drop c s = Some s' \<Longrightarrow> fresh_kept s s'"
proof -
  assume st: "connect c n t s = Some s'"
  show "fresh_kept s s'"
    by (rule fresh_kept_same [OF ids_kept_connect [OF st]])
      (use connect_SomeD(5) [OF st] in \<open>auto simp: dn_view_def at_insert_def fun_eq_iff\<close>)
next
  assume st: "acc_cancel a s = Some s'"
  show "fresh_kept s s'"
    by (rule fresh_kept_same [OF ids_kept_acc_cancel [OF st]])
      (use st in \<open>auto simp: acc_ops split: option.splits if_splits acc_pc.splits\<close>)
next
  assume st: "up_step k r s = Some s'"
  show "fresh_kept s s'"
    by (rule fresh_kept_same [OF ids_kept_up_step [OF st]])
      (use st in \<open>auto simp: acc_ops elim!: up_stepE dest!: session_send_frame split: op_splits\<close>)
next
  assume st: "http_run cfg env h s = Some s'"
  show "fresh_kept s s'"
    by (rule fresh_kept_same [OF ids_kept_http(1) [OF st]])
      (use st in \<open>auto simp: http_run_def split: option.splits http_pc.splits prod.splits\<close>)
next
  assume st: "http_send h s = Some s'"
  show "fresh_kept s s'"
    by (rule fresh_kept_same [OF ids_kept_http(2) [OF st]])
      (use st in \<open>auto simp: http_send_def dest!: session_send_frame split: option.splits http_pc.splits sent.splits\<close>)
next
  assume st: "out_take c s = Some s'"
  show "fresh_kept s s'"
    by (rule fresh_kept_same [OF ids_kept_out(1) [OF st]])
      (use st in \<open>auto simp: out_take_def split: op_splits\<close>)
next
  assume st: "out_drop c s = Some s'"
  show "fresh_kept s s'"
    by (rule fresh_kept_same [OF ids_kept_out(2) [OF st]])
      (use st in \<open>auto simp: out_drop_def split: op_splits\<close>)
qed

lemma fresh_kept_dn_step:
  assumes "dn_step j r s = Some s'"
  shows "fresh_kept s s'"
proof -
  note kept = ids_kept_dn_step [OF assms]
  have idle: "dn_view s' k = dn_view s k" if "dn_view s k = Some (c, sid, DnIdle, [], q)" for k c sid q
    using assms that by (elim dn_stepE) (auto simp: acc_ops dn_view_def split: op_splits)
  have "at_insert s' = at_insert s" "streams_of s' = streams_of s"
    using assms by (auto simp: acc_ops fun_eq_iff elim!: dn_stepE split: op_splits)
  with idle kept show ?thesis unfolding fresh_kept_def ids_kept_def by simp
qed

lemma inv_fresh_accept:
  assumes inv: "inv_fresh s" and ids: "inv_ids n s" and n: "n < 2 ^ 63" and a: "accepts s e a ac k"
    and s': "s' = upd_acc a (\<lambda>ac. ac\<lparr>ac_pc := AInsert (next_sid s + 1) k\<rparr>)
              (s\<lparr>next_sid := next_sid s + 1,
                 strms := (strms s)(k \<mapsto> vstream_new (ac_sess ac) (next_sid s + 1))\<rparr>)"
  shows "inv_fresh s'"
proof -
  let ?sid = "next_sid s + 1" and ?c = "ac_sess ac"
  have ac: "accs s a = Some ac" "strms s k = None" using a by (simp_all add: accepts_def)
  have none: "sid_of s k = None" using ac(2) by (simp add: sid_of_def)
  have dv: "dn_view s' j = (if j = k then Some (?c, ?sid, DnIdle, [], []) else dn_view s j)" for j
    by (simp add: s' dn_view_def vstream_new_def channel_def)
  have task: "task_of s' b = (if b = a then Some (?c, ?sid, k) else task_of s b)"
    "at_insert s' b = (if b = a then Some (?c, ?sid, k) else at_insert s b)" for b
    using ac by (simp_all add: s')
  have same: "streams_of s' = streams_of s" "pc_of s' = pc_of s"
    by (auto simp: s' fun_eq_iff)
  have old: "streams_of s c i \<noteq> Some k" "delivering (pc_of s c) \<noteq> Some (i, k)" for c i
    using inv_idsD(6,7) [OF ids, of c i k] none by auto
  have nk: "j \<noteq> k" if "task_of s b = Some (c, i, j)" for b c i j
    using inv_idsD(4) [OF ids that] none by auto
  show ?thesis
    unfolding inv_fresh_def same
  proof (intro conjI allI impI)
    fix b c i j assume "task_of s' b = Some (c, i, j)"
    then show "\<exists>q. dn_view s' j = Some (c, i, DnIdle, [], q)"
      using inv_freshD(1) [OF inv, of b c i j] nk [of b c i j]
      by (cases "b = a") (auto simp: task dv)
  next
    fix b c i j assume b: "at_insert s' b = Some (c, i, j)"
    show "dn_view s' j = Some (c, i, DnIdle, [], [])"
      using b inv_freshD(2) [OF inv, of b c i j] nk [OF at_insert_task, of b c i j]
      by (cases "b = a") (auto simp: task dv)
    show "streams_of s c i \<noteq> Some j" "delivering (pc_of s c) \<noteq> Some (i, j)"
      using b inv_freshD(2) [OF inv, of b c i j] old by (cases "b = a"; auto simp: task)+
  qed
qed

lemma fresh_kept_step:
  assumes ids: "inv_ids n s" and st: "step cfg e s = Some s'" and new: "\<nexists>a ac k. accepts s e a ac k"
  shows "fresh_kept s s'"
proof (cases e)
  case (EvAcc a r)
  with st have acc: "acc_step a r s = Some s'" by simp
  show ?thesis
  proof (rule fresh_kept_acc_step [OF ids acc])
    fix ac k assume ac: "accs s a = Some ac" "ac_pc ac = AAccept"
    show "r \<noteq> AcceptOk k"
    proof
      assume "r = AcceptOk k"
      with acc ac have "accepts s e a ac k"
        by (auto simp: EvAcc accepts_def acc_step_def acc_accept_def split: if_splits)
      with new show False by blast
    qed
  qed
next
  case (EvConn c inp)
  with st fresh_kept_conn_step [OF ids] show ?thesis by simp
qed (use st fresh_kept_other fresh_kept_dn_step in auto)

lemma inv_fresh_step:
  assumes inv: "inv_fresh s" and ids: "inv_ids n s" and n: "n < 2 ^ 63" and st: "step cfg e s = Some s'"
  shows "inv_fresh s'"
proof (cases "\<exists>a ac k. accepts s e a ac k")
  case True
  then obtain a ac k where a: "accepts s e a ac k" by blast
  with st show ?thesis
    by (intro inv_fresh_accept [OF inv ids n a])
      (auto simp: accepts_def acc_step_def acc_accept_def alloc_sid_def)
next
  case False
  from inv_fresh_kept [OF ids inv fresh_kept_step [OF ids st False]] show ?thesis .
qed

lemma inv_fresh_reach: "reach cfg n s \<Longrightarrow> n \<le> 2 ^ 63 \<Longrightarrow> inv_fresh s"
proof (induction rule: reach.induct)
  case (reach_step n s e s')
  then have n: "n < 2 ^ 63" by simp
  with reach_step have "inv_fresh s" "inv_ids n s" by (simp_all add: inv_ids_reach)
  from inv_fresh_step [OF this n reach_step(2)] show ?case .
qed (simp add: inv_fresh_def server_init_def task_of_def at_insert_def)

section \<open>From the registration on\<close>

lemma delivery_step:
  assumes auth: "inv_auth cfg s" and ids: "inv_ids n s" and fr: "inv_fresh s"
    and d: "delivery B k c sid s" and st: "step cfg e s = Some s'"
  shows "delivery B k c sid s'"
proof (cases e)
  case (EvConnect x m t)
  with st have co: "connect x m t s = Some s'" by simp
  from d have "x \<noteq> c" using connect_views(7) [OF co] by (auto simp: delivery_def)
  with connect_views [OF co] connect_SomeD(5) [OF co] show ?thesis
    by (intro delivery_kept [OF d]) (auto simp: dn_view_def at_insert_def)
next
  case (EvConn x inp)
  with st delivery_conn_step [OF auth ids d] show ?thesis by simp
next
  case (EvAcc a r)
  with st delivery_acc_step [OF ids fr d] show ?thesis by simp
next
  case (EvCancel a)
  with st delivery_acc_cancel [OF d] show ?thesis by simp
next
  case (EvUp j r)
  with st delivery_up_step [OF d] show ?thesis by simp
next
  case (EvDn j r)
  with st delivery_dn_step [OF d] show ?thesis by simp
next
  case (EvHttp h env)
  with st delivery_http [OF d, of cfg env h s'] show ?thesis by simp
next
  case (EvHttpSend h)
  with st delivery_http [OF d, of _ _ h s'] show ?thesis by simp
next
  case (EvTake x)
  with st delivery_out [OF d, of x s'] show ?thesis by simp
next
  case (EvDropOut x)
  with st delivery_out [OF d, of x s'] show ?thesis by simp
qed

lemma delivery_run:
  assumes "run cfg es s = Some s'" "reach cfg n s" "n + length es \<le> 2 ^ 63" "delivery B k c sid s"
  shows "delivery B k c sid s'"
  using assms
proof (induction es arbitrary: s n)
  case (Cons e es)
  then obtain t where st: "step cfg e s = Some t" and t: "run cfg es t = Some s'"
    by (auto split: Option.bind_splits)
  have n: "n \<le> 2 ^ 63" using Cons.prems(3) by simp
  have "delivery B k c sid t"
    using delivery_step [OF inv_auth_reach [OF Cons.prems(2)] inv_ids_reach [OF Cons.prems(2) n]
        inv_fresh_reach [OF Cons.prems(2) n] Cons.prems(4) st] .
  with Cons.IH [OF t reach_step [OF Cons.prems(2) st]] Cons.prems(3) show ?case by simp
qed simp

lemma at_insert_rcvd:
  assumes "reach cfg n s" "at_insert s a = Some (c, sid, k)"
  shows "\<exists>fs. rcvd_of s c = Some fs"
proof -
  from assms(2) obtain ac where ac: "accs s a = Some ac" "ac_sess ac = c"
    by (auto simp: at_insert_def split: option.splits acc_pc.splits)
  have "listener_ok cfg s ac" using inv_tasks_reach [OF assms(1)] ac by (simp add: inv_tasks_def)
  with ac show ?thesis by (auto simp: listener_ok_def owner_def)
qed

text \<open>The task that held an unregistered stream lets go of it, by registering it or by its end.\<close>

lemma delivery_fresh:
  assumes re: "reach cfg n s" and n: "n \<le> 2 ^ 63" and ins: "at_insert s a = Some (c, sid, k)"
    and fs: "rcvd_of s c = Some fs"
    and same: "dn_view s' k = dn_view s k" "rcvd_of s' c = rcvd_of s c" "pc_of s' c = pc_of s c"
    and ni: "\<And>b i e. at_insert s' b \<noteq> Some (i, e, k)"
  shows "delivery (client_payloads sid fs) k c sid s'"
proof -
  note f = inv_freshD(2) [OF inv_fresh_reach [OF re n] ins]
  have pend: "pend_of (pc_of s c) k = []"
  proof (cases "pc_of s c")
    case (Some pc)
    show ?thesis
    proof (cases pc)
      case (CDeliver ctx i j p)
      with Some have dl: "delivering (pc_of s c) = Some (i, j)" by simp
      from inv_idsD(7) [OF inv_ids_reach [OF re n] dl] inv_idsD(4) [OF inv_ids_reach [OF re n] at_insert_task [OF ins]]
        f dl have "j \<noteq> k" by auto
      with Some CDeliver show ?thesis by simp
    qed (use Some in simp_all)
  qed simp
  show ?thesis
    unfolding delivery_def same
    using f fs ni pend delivered_start by auto
qed

lemma delivery_starts:
  assumes re: "reach cfg n s" and n: "n \<le> 2 ^ 63" and ac: "accs s a = Some ac" "ac_pc ac = AInsert sid k"
    and st: "step cfg (EvAcc a r) s = Some s'"
  shows "\<exists>fs. rcvd_of s (ac_sess ac) = Some fs \<and> delivery (client_payloads sid fs) k (ac_sess ac) sid s'"
proof -
  have s': "s' = acc_insert a ac sid k s" using ac st by (simp add: acc_step_def)
  have ins: "at_insert s a = Some (ac_sess ac, sid, k)" using ac by (simp add: at_insert_def)
  note u = inv_idsD(5) [OF inv_ids_reach [OF re n] at_insert_task [OF ins]]
  from at_insert_rcvd [OF re ins] obtain fs where fs: "rcvd_of s (ac_sess ac) = Some fs" by blast
  have same: "dn_view s' = dn_view s" "rcvd_of s' = rcvd_of s" "pc_of s' = pc_of s"
    by (auto simp: s' acc_insert_def fun_eq_iff)
  have ni: "at_insert s' b \<noteq> Some (i, e, k)" for b i e
  proof (cases "b = a")
    case True
    then show ?thesis using ac by (simp add: s' acc_insert_def)
  next
    case False
    then have "at_insert s' b = at_insert s b" by (simp add: s' acc_insert_def)
    then show ?thesis using u [OF at_insert_task, of b i e] False by metis
  qed
  from delivery_fresh [OF re n ins fs _ _ _ ni] same fs show ?thesis by simp
qed

text \<open>
  C11. From the moment the hub registers an accepted connection as stream \<open>sid\<close>, what it writes to the
  TCP socket is exactly a prefix of the payloads the spoke sends under \<open>sid\<close> from then on, in order,
  whatever the interleaving. While the stream stays registered and its downstream pump is alive,
  nothing is dropped: every payload received is written, or still waits in the stream's channel.
\<close>
theorem delivery_in_order:
  assumes "reach cfg n s0" and "n + length es < 2 ^ 63" and "accs s0 a = Some ac"
    and "ac_pc ac = AInsert sid k" and "run cfg (EvAcc a r # es) s0 = Some s"
  shows "\<exists>v fs0 fs rest. strms s k = Some v \<and>
    rcvd_of s0 (ac_sess ac) = Some fs0 \<and> rcvd_of s (ac_sess ac) = Some fs \<and>
    client_payloads sid fs = client_payloads sid fs0 @ vs_written v @ rest \<and>
    (\<forall>ctx xs. streams_of s (ac_sess ac) sid = Some k \<longrightarrow> pc_of s (ac_sess ac) = Some (CRecv ctx) \<longrightarrow>
       in_flight (vs_dn v) (ch_queue (vs_chan v)) = Some xs \<longrightarrow> rest = xs)"
proof -
  let ?c = "ac_sess ac"
  from assms(5) obtain s1 where s1: "step cfg (EvAcc a r) s0 = Some s1" "run cfg es s1 = Some s"
    by (auto split: Option.bind_splits)
  have n: "n \<le> 2 ^ 63" "Suc n + length es \<le> 2 ^ 63" using assms(2) by simp_all
  from delivery_starts [OF assms(1) n(1) assms(3,4) s1(1)] obtain fs0
    where fs0: "rcvd_of s0 ?c = Some fs0" "delivery (client_payloads sid fs0) k ?c sid s1" by blast
  from delivery_run [OF s1(2) reach_step [OF assms(1) s1(1)] n(2) fs0(2)]
  obtain d w q fs where d: "dn_view s k = Some (?c, sid, d, w, q)" "rcvd_of s ?c = Some fs"
    and dl: "delivered (client_payloads sid fs0) sid fs d w q (pend_of (pc_of s ?c) k) (is_live s ?c sid k)"
    unfolding delivery_def by blast
  from d(1) obtain v where v: "strms s k = Some v" "d = vs_dn v" "w = vs_written v" "q = ch_queue (vs_chan v)"
    by (auto simp: dn_view_def)
  from dl obtain rest where "client_payloads sid fs = client_payloads sid fs0 @ w @ rest"
    "\<forall>xs. in_flight d q = Some xs \<longrightarrow> pend_of (pc_of s ?c) k = [] \<longrightarrow> is_live s ?c sid k \<longrightarrow> rest = xs"
    unfolding delivered_def by (cases "in_flight d q") fastforce+
  with d(2) fs0(1) v show ?thesis by (auto simp: is_live_def)
qed

definition spoke_data :: "bytes \<Rightarrow> client_frame" where
  "spoke_data p = \<lparr>cf_stream_id = 1, cf_kind = Some (CData p)\<rparr>"

definition inserting_events :: "event list" where
  "inserting_events = cluster_events @ [EvAcc 0 AcceptErr, EvAcc 0 (AcceptOk 5)]"

definition delivering_events :: "event list" where
  "delivering_events =
     [EvAcc 0 AcceptErr, EvConn 0 (InRecv (Frame (spoke_data [1, 2])) 0), EvConn 0 InStep,
      EvDn 5 WriteOk, EvConn 0 (InRecv (Frame (spoke_data [3])) 0), EvDn 5 WriteOk, EvConn 0 InStep]"

theorem delivery_in_order_witness:
  "\<exists>n s0 s ac v rest. reach demo_cfg n s0 \<and> accs s0 0 = Some ac \<and>
     run demo_cfg (EvAcc 0 AcceptErr # delivering_events) s0 = Some s \<and>
     strms s 5 = Some v \<and> vs_written v = [[1, 2]] \<and>
     (\<exists>fs. rcvd_of s (ac_sess ac) = Some fs \<and> client_payloads 1 fs = [[1, 2]] @ rest) \<and> rest = [[3]]"
proof -
  let ?ev = "EvAcc 0 AcceptErr # delivering_events"
  have "map_option (\<lambda>s0. map_option ac_sess (accs s0 0) = Some 0 \<and>
        map_option ac_pc (accs s0 0) = Some (AInsert 1 5) \<and>
        map_option (client_payloads 1) (rcvd_of s0 0) = Some [] \<and>
        map_option (\<lambda>s. map_option vs_written (strms s 5) = Some [[1, 2]] \<and>
           map_option (client_payloads 1) (rcvd_of s 0) = Some [[1, 2], [3]]) (run demo_cfg ?ev s0) = Some True)
      (run demo_cfg inserting_events server_init) = Some True"
    by code_simp
  then obtain s0 where re: "reach demo_cfg (length inserting_events) s0"
    and s0: "map_option ac_sess (accs s0 0) = Some 0" "map_option ac_pc (accs s0 0) = Some (AInsert 1 5)"
      "map_option (client_payloads 1) (rcvd_of s0 0) = Some []"
      "map_option (\<lambda>s. map_option vs_written (strms s 5) = Some [[1, 2]] \<and>
           map_option (client_payloads 1) (rcvd_of s 0) = Some [[1, 2], [3]]) (run demo_cfg ?ev s0) = Some True"
    by (rule run_obtains) blast
  from s0(1,2) obtain ac where ac: "accs s0 0 = Some ac" "ac_pc ac = AInsert 1 5" "ac_sess ac = 0" by auto
  from s0(4) obtain s where s: "run demo_cfg ?ev s0 = Some s"
    "map_option vs_written (strms s 5) = Some [[1, 2]]"
    "map_option (client_payloads 1) (rcvd_of s 0) = Some [[1, 2], [3]]"
    by (auto simp: map_option_eq_Some simp del: run.simps)
  have "length inserting_events + length delivering_events < 2 ^ 63"
    by (simp add: inserting_events_def delivering_events_def cluster_events_def join_events_def)
  from delivery_in_order [OF re this ac(1,2) s(1)] obtain v fs0 fs rest where
    v: "strms s 5 = Some v" "rcvd_of s0 0 = Some fs0" "rcvd_of s 0 = Some fs"
      "client_payloads 1 fs = client_payloads 1 fs0 @ vs_written v @ rest"
    unfolding ac(3) by blast
  with s0(3) s(2,3) have "vs_written v = [[1, 2]]" "client_payloads 1 fs = [[1, 2]] @ rest" "rest = [[3]]"
    by auto
  with re ac s(1) v show ?thesis by fastforce
qed

end
