(* ===== verification/Server_Gauge.thy ===== *)
theory Server_Gauge
  imports Server_Delivery Server_Demo
begin

text \<open>
  The gauge \<open>streams_open\<close>: what it counts along every run. A stream that is registered when its session
  is closed or displaced stays in it for good, because \<open>SpokeSession::close\<close> clears the map without
  decrementing.
\<close>

section \<open>The streams of a spoke\<close>

text \<open>The streams registered in the sessions of the spoke \<open>sp\<close>, live or closed.\<close>

definition open_streams :: "server \<Rightarrow> string \<Rightarrow> (nat \<times> u64) set" where
  "open_streams s sp = {(c, sid). streams_of s c sid \<noteq> None \<and> map_option fst (ident_of s c) = Some sp}"

lemma streams_open_metric_ops [simp]:
  "streams_open (fail_handshake r m) = streams_open m"
  "streams_open (add_bytes_sent sp n m) = streams_open m" "streams_open (add_bytes_recv sp n m) = streams_open m"
  "streams_open (count_http sp r m) = streams_open m"
  "streams_open (add_streams_open sp i m) = inc_by sp i (streams_open m)"
  by (simp_all add: fail_handshake_def add_bytes_sent_def add_bytes_recv_def count_http_def add_streams_open_def)

lemma mets_ops [simp]:
  "mets (upd_mets f s) = f (mets s)" "mets (set_conn_pc c pc s) = mets s" "mets (upd_sess a g s) = mets s"
  "mets (upd_acc a h s) = mets s" "mets (upd_strm k v s) = mets s" "mets (upd_http i j s) = mets s"
  "mets (session_close_flag a s) = mets s" "mets (session_close_clear a s) = mets s"
  "mets (session_remove a sid s) = mets s"
  by (simp_all add: state_ops)

text \<open>
  What one step loses: the streams a close clears from the map are not taken off the gauge; the roll-back
  of an \<open>Open\<close> that could not be sent takes one off even if the stream was gone already.
\<close>

fun lost_by :: "string \<Rightarrow> event \<Rightarrow> server \<Rightarrow> int" where
  "lost_by sp (EvConn c inp) s =
     (case pc_of s c of
        Some (COldClear ctx old) \<Rightarrow> int (card {sid. (old, sid) \<in> open_streams s sp})
      | Some (CCloseClear ctx r) \<Rightarrow> int (card {sid. (c, sid) \<in> open_streams s sp})
      | _ \<Rightarrow> 0)"
| "lost_by sp (EvAcc a r) s =
     (case accs s a of
        Some ac \<Rightarrow>
          (case ac_pc ac of
             ARoll sid k \<Rightarrow>
               if spoke_of (ac_sess ac) s = sp \<and> (ac_sess ac, sid) \<notin> open_streams s sp then -1 else 0
           | _ \<Rightarrow> 0)
      | None \<Rightarrow> 0)"
| "lost_by sp _ s = 0"

fun lost_along :: "server_config \<Rightarrow> string \<Rightarrow> event list \<Rightarrow> server \<Rightarrow> int" where
  "lost_along cfg sp [] s = 0"
| "lost_along cfg sp (e # es) s =
     lost_by sp e s + (case step cfg e s of Some s' \<Rightarrow> lost_along cfg sp es s' | None \<Rightarrow> 0)"

text \<open>The gauge of \<open>sp\<close> is its registered streams plus \<open>d\<close>.\<close>

definition stream_balance :: "string \<Rightarrow> int \<Rightarrow> server \<Rightarrow> bool" where
  "stream_balance sp d s \<longleftrightarrow>
     finite (open_streams s sp) \<and> sample (streams_open (mets s)) sp = int (card (open_streams s sp)) + d"

lemma open_streams_cong:
  "ident_of s' = ident_of s \<Longrightarrow> streams_of s' = streams_of s \<Longrightarrow> open_streams s' = open_streams s"
  by (simp add: open_streams_def fun_eq_iff)

lemma stream_balance_same:
  assumes "stream_balance sp d s" "ident_of s' = ident_of s" "streams_of s' = streams_of s"
    "streams_open (mets s') = streams_open (mets s)"
  shows "stream_balance sp d s'"
  using assms open_streams_cong [OF assms(2,3)] by (simp add: stream_balance_def)

section \<open>The operations\<close>

lemma spoke_of_ident: "spoke_of c s = (case ident_of s c of None \<Rightarrow> [] | Some (i, _) \<Rightarrow> i)"
  by (simp add: spoke_of_def ident_of_def split: option.splits)

lemma has_open_stream: "(c, sid) \<in> open_streams s sp \<longleftrightarrow> session_has c sid s \<and> spoke_of c s = sp"
  by (auto simp: open_streams_def session_has_def spoke_of_def streams_of_def ident_of_def split: option.splits)

lemma stream_balance_remove:
  assumes "stream_balance sp d s"
  shows "stream_balance sp d (session_remove_counted c sid s)"
proof -
  have os: "open_streams (session_remove_counted c sid s) sp = open_streams s sp - {(c, sid)}"
    by (auto simp: open_streams_def split: if_splits)
  have "sample (streams_open (mets (session_remove_counted c sid s))) sp =
      sample (streams_open (mets s)) sp - (if (c, sid) \<in> open_streams s sp then 1 else 0)"
    unfolding has_open_stream
    by (simp add: session_remove_counted_def session_remove_def upd_sess_def upd_mets_def)
  moreover have "card (open_streams s sp) > 0" if "(c, sid) \<in> open_streams s sp"
    using that assms card_gt_0_iff by (fastforce simp: stream_balance_def)
  ultimately show ?thesis
    using assms unfolding stream_balance_def os by (auto simp: card_Diff_singleton_if of_nat_diff)
qed

lemma stream_balance_clear:
  assumes "stream_balance sp d s"
  shows "stream_balance sp (d + int (card {sid. (c, sid) \<in> open_streams s sp})) (session_close_clear c s)"
proof -
  let ?X = "{sid. (c, sid) \<in> open_streams s sp}"
  have os: "open_streams (session_close_clear c s) sp = open_streams s sp - Pair c ` ?X"
    by (auto simp: open_streams_def split: if_splits)
  have sub: "Pair c ` ?X \<subseteq> open_streams s sp" by auto
  have card: "card (Pair c ` ?X) = card ?X" by (rule card_image) (simp add: inj_on_def)
  have fin: "finite (open_streams s sp)" using assms by (simp add: stream_balance_def)
  from card_Diff_subset [OF finite_subset [OF sub fin] sub] card card_mono [OF fin sub]
  have "int (card (open_streams s sp - Pair c ` ?X)) = int (card (open_streams s sp)) - int (card ?X)" by simp
  moreover have "mets (session_close_clear c s) = mets s" by (simp add: session_close_clear_def upd_sess_def)
  ultimately show ?thesis using assms fin unfolding stream_balance_def os by simp
qed

lemma stream_balance_insert:
  assumes "stream_balance sp d s" "sess s c \<noteq> None" "streams_of s c sid = None"
    and "ident_of s' = ident_of s" "streams_open (mets s') = inc_by (spoke_of c s) 1 (streams_open (mets s))"
    and "\<And>e. streams_of s' e = (if e = c then (streams_of s c)(sid \<mapsto> k) else streams_of s e)"
  shows "stream_balance sp d s'"
proof (cases "spoke_of c s = sp")
  case True
  then have "map_option fst (ident_of s c) = Some sp" using assms(2) by (auto simp: spoke_of_def ident_of_def)
  then have os: "open_streams s' sp = insert (c, sid) (open_streams s sp)"
    by (auto simp: open_streams_def assms(4,6) split: if_splits)
  have "(c, sid) \<notin> open_streams s sp" using assms(3) by (simp add: open_streams_def)
  with assms(1) True show ?thesis unfolding stream_balance_def os by (simp add: assms(5))
next
  case False
  have "open_streams s' sp = open_streams s sp"
    using False assms(2) by (auto simp: open_streams_def assms(4,6) spoke_of_ident ident_of_def split: if_splits)
  with assms(1) False show ?thesis unfolding stream_balance_def by (simp add: assms(5))
qed

section \<open>One step\<close>

lemma balance_recv:
  assumes b: "stream_balance sp d s" and st: "conn_recv c ctx r h s = Some s'"
  shows "stream_balance sp d s'"
proof (cases "\<exists>f x. r = Frame f \<and> cf_kind f = Some (CClose x)")
  case True
  then obtain f x where f: "r = Frame f" "cf_kind f = Some (CClose x)" by blast
  with st have s': "s' = session_remove_counted c (cf_stream_id f) (log_frame c f s)"
    by (auto simp: conn_recv_def conn_frame_def split: if_splits)
  have "stream_balance sp d (log_frame c f s)" by (rule stream_balance_same [OF b]) (auto simp: fun_eq_iff)
  then show ?thesis unfolding s' by (rule stream_balance_remove)
next
  case False
  have "ident_of s' = ident_of s \<and> streams_of s' = streams_of s \<and> streams_open (mets s') = streams_open (mets s)"
    using st False
    by (cases r) (auto simp: conn_recv_def conn_frame_def conn_data_def conn_http_def fun_eq_iff
        split: option.splits client_kind.splits if_splits)
  with stream_balance_same [OF b] show ?thesis by blast
qed

lemma balance_first:
  assumes auth: "inv_auth cfg s" and b: "stream_balance sp d s" and cn: "conns s c = Some cn" "cn_pc cn = CFirst"
  shows "stream_balance sp d (conn_first cfg c r s)"
proof -
  let ?s = "conn_first cfg c r s"
  have none: "ident_of s c = None"
    using auth cn by (auto simp: inv_auth_def conn_ok_def pc_of_def rcvd_of_def dest!: spec [of _ c])
  then have empty: "streams_of s c = Map.empty" by (auto simp: ident_of_def streams_of_def fun_eq_iff)
  have "streams_of ?s = streams_of s" "\<And>e. e \<noteq> c \<Longrightarrow> ident_of ?s e = ident_of s e"
    "streams_open (mets ?s) = streams_open (mets s)"
    using empty by (auto simp: conn_first_def conn_fail_def session_new_def Let_def fun_eq_iff
        split: recv_result.splits sum.splits)
  moreover from this empty have "open_streams ?s sp = open_streams s sp"
    by (auto simp: open_streams_def) (metis option.distinct(1))+
  ultimately show ?thesis using b by (simp add: stream_balance_def)
qed

lemma balance_conn:
  assumes auth: "inv_auth cfg s" and b: "stream_balance sp d s" and st: "conn_step cfg c inp s = Some s'"
  shows "stream_balance sp (d + lost_by sp (EvConn c inp) s) s'"
proof -
  have same: "stream_balance sp (d + lost_by sp (EvConn c inp) s) s'"
    if "lost_by sp (EvConn c inp) s = 0" "ident_of s' = ident_of s \<and> streams_of s' = streams_of s \<and>
      streams_open (mets s') = streams_open (mets s)"
    using stream_balance_same [OF b] that by simp
  have clear: "stream_balance sp (d + int (card {sid. (e, sid) \<in> open_streams s sp})) (set_conn_pc c pc (session_close_clear e s))"
    for e pc by (rule stream_balance_same [OF stream_balance_clear [OF b]]) (auto simp: fun_eq_iff)
  from st show ?thesis
  proof (cases rule: conn_stepE)
    case (First cn r)
    with balance_first [OF auth b] show ?thesis by (simp add: pc_of_conn)
  next
    case (OldClear cn ctx old)
    with clear show ?thesis by (simp add: pc_of_conn conn_old_clear_def)
  next
    case (CloseClear cn ctx r)
    with clear show ?thesis by (simp add: pc_of_conn conn_close_clear_def)
  next
    case (Recv cn ctx r h)
    with balance_recv [OF b] show ?thesis by (simp add: pc_of_conn)
  next
    case (DropWriter cn ctx sid)
    have "stream_balance sp d s'"
      unfolding DropWriter(3) conn_drop_writer_def
      by (rule stream_balance_same [OF stream_balance_remove [OF b]]) (auto simp: fun_eq_iff)
    with DropWriter show ?thesis by (simp add: pc_of_conn)
  next
    case (Reject cn ctx f)
    then show ?thesis
      by (intro same) (auto simp: pc_of_conn conn_ops fun_eq_iff dest!: session_send_frame split: op_splits)
  next
    case (Bind cn ctx x bs r)
    then show ?thesis by (intro same) (auto simp: pc_of_conn conn_bind_alt fun_eq_iff split: op_splits)
  qed (intro same; auto simp: pc_of_conn conn_ops fun_eq_iff split: op_splits)+
qed

lemma balance_acc:
  assumes tasks: "inv_tasks cfg s" and ids: "inv_ids n s" and fr: "inv_fresh s"
    and b: "stream_balance sp d s" and st: "acc_step a r s = Some s'"
  shows "stream_balance sp (d + lost_by sp (EvAcc a r) s) s'"
proof -
  have same: "stream_balance sp (d + lost_by sp (EvAcc a r) s) s'"
    if "lost_by sp (EvAcc a r) s = 0" "ident_of s' = ident_of s \<and> streams_of s' = streams_of s \<and>
      streams_open (mets s') = streams_open (mets s)"
    using stream_balance_same [OF b] that by simp
  have owned: "sess s (ac_sess ac) \<noteq> None" if "accs s a = Some ac" for ac
  proof -
    have "listener_ok cfg s ac" using tasks that by (simp add: inv_tasks_def)
    then show ?thesis by (auto simp: listener_ok_def owner_def ident_of_def)
  qed
  from st show ?thesis
  proof (cases rule: acc_stepE)
    case (Insert ac sid k)
    have ins: "at_insert s a = Some (ac_sess ac, sid, k)" using Insert by (simp add: at_insert_def)
    have new: "streams_of s (ac_sess ac) sid = None"
    proof (cases "streams_of s (ac_sess ac) sid")
      case (Some j)
      from inv_idsD(3) [OF ids inv_idsD(4) [OF ids at_insert_task [OF ins]] inv_idsD(6) [OF ids Some]]
      have "j = k" .
      with Some inv_freshD(2) [OF fr ins] show ?thesis by simp
    qed simp
    have "stream_balance sp d s'"
      by (rule stream_balance_insert [OF b owned [OF Insert(1)] new])
        (use Insert owned [OF Insert(1)] in \<open>auto simp: acc_insert_def fun_eq_iff ident_of_upd_sess\<close>)
    with Insert show ?thesis by simp
  next
    case (Roll ac sid k)
    let ?c = "ac_sess ac"
    have s': "ident_of s' = ident_of (session_remove_counted ?c sid s)"
      "streams_of s' = streams_of (session_remove_counted ?c sid s)"
      "streams_open (mets s') = inc_by (spoke_of ?c s) (- 1) (streams_open (mets s))"
      using Roll by (auto simp: acc_roll_def fun_eq_iff)
    show ?thesis
    proof (cases "session_has ?c sid s")
      case True
      have "stream_balance sp d s'"
        by (rule stream_balance_same [OF stream_balance_remove [OF b] s'(1,2)])
          (use True s'(3) in \<open>simp add: session_remove_counted_def\<close>)
      with True Roll show ?thesis by (simp add: has_open_stream)
    next
      case False
      have "stream_balance sp d (session_remove_counted ?c sid s)" by (rule stream_balance_remove [OF b])
      then have "finite (open_streams s' sp)"
        "sample (streams_open (mets s)) sp = int (card (open_streams s' sp)) + d"
        using False open_streams_cong [OF s'(1,2)]
        by (simp_all add: stream_balance_def session_remove_counted_def)
      with False Roll s'(3) show ?thesis by (auto simp: stream_balance_def has_open_stream)
    qed
  next
    case (Open ac sid k)
    then show ?thesis
      by (intro same) (auto simp: acc_open_def fun_eq_iff dest!: session_send_frame split: sent.splits)
  qed (intro same; auto simp: acc_ops fun_eq_iff split: op_splits)+
qed

lemma balance_up:
  assumes b: "stream_balance sp d s" and st: "up_step k r s = Some s'"
  shows "stream_balance sp d s'"
  using st
proof (cases rule: up_stepE)
  case (Remove v)
  show ?thesis
    unfolding Remove(3) up_remove_def
    by (rule stream_balance_same [OF stream_balance_remove [OF b]]) (auto simp: fun_eq_iff)
qed (rule stream_balance_same [OF b]; auto simp: acc_ops fun_eq_iff dest!: session_send_frame split: op_splits)+

lemma balance_step:
  assumes auth: "inv_auth cfg s" and tasks: "inv_tasks cfg s" and ids: "inv_ids n s" and fr: "inv_fresh s"
    and b: "stream_balance sp d s" and st: "step cfg e s = Some s'"
  shows "stream_balance sp (d + lost_by sp e s) s'"
proof -
  have same: "stream_balance sp (d + lost_by sp e s) s'"
    if "lost_by sp e s = 0" "ident_of s' = ident_of s \<and> streams_of s' = streams_of s \<and>
      streams_open (mets s') = streams_open (mets s)"
    using stream_balance_same [OF b] that by simp
  show ?thesis
  proof (cases e)
    case (EvConnect c m t)
    with st show ?thesis by (intro same) (auto simp: connect_def fun_eq_iff split: sent.splits if_splits)
  next
    case (EvConn c inp)
    with st balance_conn [OF auth b] show ?thesis by simp
  next
    case (EvAcc a r)
    with st balance_acc [OF tasks ids fr b] show ?thesis by simp
  next
    case (EvCancel a)
    with st show ?thesis
      by (intro same) (auto simp: acc_ops fun_eq_iff split: option.splits if_splits acc_pc.splits)
  next
    case (EvUp k r)
    with st balance_up [OF b] show ?thesis by simp
  next
    case (EvDn k r)
    with st have "dn_step k r s = Some s'" by simp
    with EvDn show ?thesis
      by (intro same) (auto simp: acc_ops fun_eq_iff elim!: dn_stepE split: op_splits)
  next
    case (EvHttp h env)
    with st obtain t req f m where t: "https s h = Some t" "ht_pc t = HRun req"
      "handle_http_request cfg env (ht_sid t) req (spoke_of (ht_sess t) s) (mets s) = (f, m)"
      "s' = upd_http h (\<lambda>t. t\<lparr>ht_pc := HSend f\<rparr>) (s\<lparr>mets := m\<rparr>)"
      by (auto simp: http_run_def split: option.splits http_pc.splits prod.splits)
    have "streams_open m = streams_open (mets s)"
      by (rule handle_http_verdict [of cfg env "ht_sid t" req "spoke_of (ht_sess t) s" "mets s"])
        (use t(3) in simp)
    with EvHttp t(4) show ?thesis by (intro same) (auto simp: fun_eq_iff)
  next
    case (EvHttpSend h)
    with st show ?thesis
      by (intro same) (auto simp: http_send_def fun_eq_iff dest!: session_send_frame
          split: option.splits http_pc.splits sent.splits)
  next
    case (EvTake c)
    with st show ?thesis by (intro same) (auto simp: out_take_def fun_eq_iff split: op_splits)
  next
    case (EvDropOut c)
    with st show ?thesis by (intro same) (auto simp: out_drop_def fun_eq_iff split: op_splits)
  qed
qed

section \<open>Every run\<close>

lemma balance_run:
  assumes "run cfg es s = Some s'" "reach cfg n s" "n + length es \<le> 2 ^ 63" "stream_balance sp d s"
  shows "stream_balance sp (d + lost_along cfg sp es s) s'"
  using assms
proof (induction es arbitrary: s n d)
  case (Cons e es)
  then obtain t where st: "step cfg e s = Some t" and t: "run cfg es t = Some s'"
    by (auto split: Option.bind_splits)
  have n: "n \<le> 2 ^ 63" "Suc n + length es \<le> 2 ^ 63" using Cons.prems(3) by simp_all
  note re = Cons.prems(2)
  from balance_step [OF inv_auth_reach [OF re] inv_tasks_reach [OF re] inv_ids_reach [OF re n(1)]
      inv_fresh_reach [OF re n(1)] Cons.prems(4) st]
  have "stream_balance sp (d + lost_by sp e s) t" .
  from Cons.IH [OF t reach_step [OF re st] n(2) this] st show ?case by (simp add: algebra_simps)
qed simp

text \<open>
  C39. Along every run (of fewer than \<open>2^63\<close> events) the gauge \<open>streams_open\<close> of a spoke is the number of
  streams registered in its sessions plus what was lost so far: each stream still registered when its
  session is closed or displaced counts for good, and each roll-back of an \<open>Open\<close> whose stream was no
  longer registered takes one away. So the gauge is exact as long as sessions end without streams.
\<close>
theorem streams_gauge_counts:
  assumes "run cfg es server_init = Some s" and "length es < 2 ^ 63"
  shows "finite (open_streams s sp) \<and>
    sample (streams_open (mets s)) sp = int (card (open_streams s sp)) + lost_along cfg sp es server_init"
proof -
  have "stream_balance sp 0 server_init"
    by (simp add: stream_balance_def server_init_def open_streams_def streams_of_def metrics_new_def sample_def)
  from balance_run [OF assms(1) reach_init _ this] assms(2) show ?thesis by (simp add: stream_balance_def)
qed

text \<open>A stream that is open when its session ends: everything about it ends, and it stays counted.\<close>

definition leak_events :: "event list" where
  "leak_events = join_events 0 ''spoke-a'' ''s3:cret'' @
     [EvConn 0 (InBind (BindOk 0)), EvConn 0 (InBind (BindOk 1)), EvConn 0 InStep,
      EvAcc 0 AcceptErr, EvAcc 1 AcceptErr,
      EvAcc 0 (AcceptOk 5), EvAcc 0 AcceptErr, EvAcc 0 AcceptErr, EvAcc 0 AcceptErr,
      EvConn 0 (InRecv RecvEnd 0), EvConn 0 InStep, EvConn 0 InStep, EvConn 0 InStep, EvConn 0 InStep,
      EvCancel 0, EvCancel 1,
      EvUp 5 ReadEof, EvUp 5 ReadEof, EvUp 5 ReadEof, EvDn 5 WriteOk, EvDn 5 WriteOk]"

definition leaked :: "server \<Rightarrow> bool" where
  "leaked s \<longleftrightarrow>
     pc_of s 0 = Some (CDone RetOk) \<and> sessions s ''spoke-a'' = None \<and>
     map_option ac_pc (accs s 0) = Some ADone \<and> map_option ac_pc (accs s 1) = Some ADone \<and>
     map_option (\<lambda>v. (vs_sid v, vs_up v, vs_dn v)) (strms s 5) = Some (1, UpDone, DnDone) \<and>
     streams_of s 0 1 = None \<and> sample (streams_open (mets s)) ''spoke-a'' = 1"

lemma leak_run: "map_option leaked (run demo_cfg leak_events server_init) = Some True"
  by code_simp

theorem streams_gauge_counts_witness:
  "\<exists>s. run demo_cfg leak_events server_init = Some s \<and> leaked s \<and>
     int (card (open_streams s ''spoke-a'')) + lost_along demo_cfg ''spoke-a'' leak_events server_init = 1"
proof -
  from leak_run obtain s where s: "run demo_cfg leak_events server_init = Some s" "leaked s"
    by (rule run_obtains) blast
  have "length leak_events < 2 ^ 63" by (simp add: leak_events_def join_events_def)
  from streams_gauge_counts [OF s(1) this, of "''spoke-a''"] s show ?thesis by (simp add: leaked_def)
qed

end
