(* ===== verification/Server_Liveness.thy ===== *)
theory Server_Liveness
  imports Server_Delivery "HOL-Library.Sublist"
begin

text \<open>
  What always comes to an end on the hub: the clean-up of a connection, whatever the other tasks do
  meanwhile, and the downstream pump of a stream whose sender is gone.
\<close>

section \<open>The clean-up of a connection\<close>

text \<open>The steps a connection in its clean-up still has to take, and what it will return.\<close>

fun teardown :: "conn_pc \<Rightarrow> (nat \<times> conn_ret) option" where
  "teardown (CCloseFlag _ r) = Some (case r of RetOk \<Rightarrow> 4 | RetErr _ \<Rightarrow> 3, r)"
| "teardown (CCloseClear _ r) = Some (case r of RetOk \<Rightarrow> 3 | RetErr _ \<Rightarrow> 2, r)"
| "teardown (CCleanup _ r) = Some (case r of RetOk \<Rightarrow> 2 | RetErr _ \<Rightarrow> 1, r)"
| "teardown (CAbort r) = Some (1, r)"
| "teardown (CDone r) = Some (0, r)"
| "teardown _ = None"

fun own_conn :: "nat \<Rightarrow> event \<Rightarrow> bool" where
  "own_conn c (EvConn d _) = (d = c)"
| "own_conn c _ = False"

definition in_teardown :: "nat \<Rightarrow> conn_ret \<Rightarrow> server \<Rightarrow> bool" where
  "in_teardown c r s \<longleftrightarrow> map_option snd (Option.bind (pc_of s c) teardown) = Some r"

definition teardown_left :: "nat \<Rightarrow> server \<Rightarrow> nat" where
  "teardown_left c s = (case Option.bind (pc_of s c) teardown of Some (n, _) \<Rightarrow> n | None \<Rightarrow> 0)"

lemma pc_of_other:
  assumes "step cfg e s = Some s'" "\<not> own_conn c e" "pc_of s c = Some pc"
  shows "pc_of s' c = Some pc"
  using assms(1)
proof (cases rule: step_cases)
  case (Connect d n t)
  from connect_views [OF Connect(2)] assms(3) show ?thesis by auto
next
  case (Conn d inp)
  with assms conn_step_other_pc [OF Conn(2)] show ?thesis by auto
next
  case Quiet
  with assms(3) show ?thesis by (simp add: quiet_def)
qed

lemma teardown_step:
  assumes "conn_step cfg c inp s = Some s'" "pc_of s c = Some pc" "teardown pc = Some (n, r)"
  shows "\<exists>pc' m. pc_of s' c = Some pc' \<and> teardown pc' = Some (m, r) \<and> n = Suc m"
proof -
  have td: "teardown (cn_pc cn) = Some (n, r)" "pc_of s c = Some (cn_pc cn)" if "conns s c = Some cn" for cn
    using assms(2,3) that by (simp_all add: pc_of_conn)
  from assms(1) show ?thesis
    by (cases rule: conn_stepE)
      (use td in \<open>fastforce simp: conn_close_flag_def conn_close_clear_def conn_cleanup_def conn_abort_def
        cleanup_session_def split: conn_ret.splits option.splits if_splits\<close>)+
qed

lemma teardown_enabled:
  assumes "pc_of s c = Some pc" "teardown pc = Some (Suc n, r)"
  shows "conn_step cfg c InStep s \<noteq> None"
  using assms by (cases pc) (auto simp: conn_step_def pc_of_def)

interpretation hub_teardown: winding_down "step cfg" "run cfg" "reach cfg" server_init "own_conn c"
    "in_teardown c r" "teardown_left c" "EvConn c InStep" for cfg c r
proof
  fix s s' e
  assume live: "in_teardown c r s"
  then obtain pc n where pc: "pc_of s c = Some pc" "teardown pc = Some (n, r)"
    by (cases "pc_of s c") (auto simp: in_teardown_def)
  then have n: "teardown_left c s = n" by (simp add: teardown_left_def)
  show "0 < teardown_left c s \<Longrightarrow> step cfg (EvConn c InStep) s \<noteq> None"
    using teardown_enabled [OF pc(1)] pc(2) n by (cases n) auto
  assume st: "step cfg e s = Some s'"
  show "in_teardown c r s' \<and> Suc (teardown_left c s') = teardown_left c s" if own: "own_conn c e"
  proof -
    from own obtain inp where "e = EvConn c inp" by (cases e) auto
    with teardown_step [OF _ pc, of cfg inp s'] st obtain pc' m
      where "pc_of s' c = Some pc'" "teardown pc' = Some (m, r)" "n = Suc m" by auto
    with n show ?thesis by (simp add: in_teardown_def teardown_left_def)
  qed
  show "\<not> own_conn c e \<Longrightarrow> in_teardown c r s' \<and> teardown_left c s' = teardown_left c s"
    using pc_of_other [OF st _ pc(1)] pc n by (simp add: in_teardown_def teardown_left_def)
qed simp

lemma teardown_0: "teardown pc = Some (0, r) \<longleftrightarrow> pc = CDone r"
  by (cases pc) (auto split: conn_ret.splits)

lemma teardown_left_0:
  assumes "in_teardown c r s"
  shows "teardown_left c s = 0 \<longleftrightarrow> pc_of s c = Some (CDone r)"
proof -
  from assms obtain pc n where pc: "pc_of s c = Some pc" "teardown pc = Some (n, r)"
    by (cases "pc_of s c") (auto simp: in_teardown_def)
  then have "teardown_left c s = n" by (simp add: teardown_left_def)
  with pc teardown_0 [of pc r] show ?thesis by auto
qed

text \<open>
  C16. The clean-up of a connection always ends: after \<open>recv_loop\<close> returned it takes four steps of the
  task, three when a port could not be bound; until then the next one is possible in every state that
  any interleaving with the other tasks leads to, and the connection returns what it set out to return.
\<close>
theorem connection_clean_up_ends:
  assumes "pc_of s c = Some (CCloseFlag ctx r)" and "run cfg es s = Some s'"
    and "n = length (filter (own_conn c) es)" and "m = (case r of RetOk \<Rightarrow> 4 | RetErr _ \<Rightarrow> 3)"
  shows "n \<le> m \<and> (n = m \<longleftrightarrow> pc_of s' c = Some (CDone r)) \<and>
     (n = m \<or> step cfg (EvConn c InStep) s' \<noteq> None)"
proof -
  have live: "in_teardown c r s" "teardown_left c s = m"
    using assms(1,4) by (simp_all add: in_teardown_def teardown_left_def)
  from hub_teardown.run_rank [OF assms(2) live(1)] live(2) assms(3)
  have s': "in_teardown c r s'" "teardown_left c s' + n = m" by simp_all
  from hub_teardown.winds_down(2) [OF assms(2) live(1)] teardown_left_0 [OF s'(1)] s'(2)
  show ?thesis by auto
qed

theorem connection_clean_up_ends_witness:
  "\<exists>n s s'. reach demo_cfg n s \<and> run demo_cfg [EvConn 0 InStep, EvTake 0, EvConn 0 InStep] s = Some s' \<and>
     pc_of s' 0 \<noteq> Some (CDone RetOk) \<and> step demo_cfg (EvConn 0 InStep) s' \<noteq> None"
proof -
  let ?es = "join_events 0 ''app-b'' ''t'' @ [EvConn 0 InStep, EvConn 0 (InRecv RecvEnd 0)]"
  let ?fs = "[EvConn 0 InStep, EvTake 0, EvConn 0 InStep]"
  have "map_option (\<lambda>s. (case pc_of s 0 of Some (CCloseFlag _ RetOk) \<Rightarrow> True | _ \<Rightarrow> False) \<and>
      run demo_cfg ?fs s \<noteq> None) (run demo_cfg ?es server_init) = Some True"
    by code_simp
  then obtain s s' ctx where s: "reach demo_cfg (length ?es) s" "pc_of s 0 = Some (CCloseFlag ctx RetOk)"
    "run demo_cfg ?fs s = Some s'"
    by (rule run_obtains) (auto split: option.splits conn_pc.splits conn_ret.splits)
  from connection_clean_up_ends [OF s(2,3) refl refl]
  have "pc_of s' 0 \<noteq> Some (CDone RetOk) \<and> step demo_cfg (EvConn 0 InStep) s' \<noteq> None" by simp
  with s(1,3) show ?thesis by blast
qed

section \<open>The downstream pump\<close>

text \<open>All of a stream that its downstream pump works on.\<close>

definition dn_full ::
  "server \<Rightarrow> nat \<Rightarrow> (nat \<times> u64 \<times> dn_pc \<times> bytes list \<times> bytes list \<times> bool) option" where
  "dn_full s k = map_option (\<lambda>v. (vs_sess v, vs_sid v, vs_dn v, vs_written v, ch_queue (vs_chan v), vs_shut v))
     (strms s k)"

lemma dn_full_ops [simp]:
  "dn_full (set_conn_pc c pc s) = dn_full s" "dn_full (upd_sess a f s) = dn_full s"
  "dn_full (upd_acc a g s) = dn_full s" "dn_full (upd_http h j s) = dn_full s"
  "dn_full (upd_mets m s) = dn_full s" "dn_full (log_frame c fr s) = dn_full s"
  "dn_full (session_remove a sid s) = dn_full s" "dn_full (session_remove_counted a sid s) = dn_full s"
  "dn_full (s\<lparr>outs := x1\<rparr>) = dn_full s" "dn_full (s\<lparr>ports := x2\<rparr>) = dn_full s"
  "dn_full (s\<lparr>mets := x3\<rparr>) = dn_full s" "dn_full (s\<lparr>next_sid := x4\<rparr>) = dn_full s"
  by (simp_all add: dn_full_def fun_eq_iff state_ops log_frame_def)

lemma dn_full_upd:
  "dn_full (upd_strm j f s) k = (if k = j then map_option (\<lambda>v. (vs_sess (f v), vs_sid (f v), vs_dn (f v),
     vs_written (f v), ch_queue (vs_chan (f v)), vs_shut (f v))) (strms s k) else dn_full s k)"
  by (simp add: dn_full_def option.map_comp comp_def)

text \<open>The pump of \<open>k\<close> runs, and no sender of its channel is left.\<close>

definition orphan :: "nat \<Rightarrow> server \<Rightarrow> bool" where
  "orphan k s \<longleftrightarrow>
     (\<exists>c sid d w q b. dn_full s k = Some (c, sid, d, w, q, b) \<and> d \<noteq> DnIdle \<and>
        streams_of s c sid \<noteq> Some k \<and> delivering (pc_of s c) \<noteq> Some (sid, k))"

lemma orphan_delivering:
  assumes "inv_ids n s" "orphan k s"
  shows "delivering (pc_of s e) \<noteq> Some (i, k)"
proof
  assume "delivering (pc_of s e) = Some (i, k)"
  moreover from inv_idsD(7) [OF assms(1) this] have "sid_of s k = Some (e, i)" .
  ultimately show False using assms(2) by (auto simp: orphan_def dn_full_def sid_of_def)
qed

lemma orphan_busy:
  assumes "inv_fresh s" "orphan k s"
  shows "task_of s a \<noteq> Some (e, i, k)"
proof
  assume "task_of s a = Some (e, i, k)"
  from inv_freshD(1) [OF assms(1) this] obtain q where "dn_view s k = Some (e, i, DnIdle, [], q)" by blast
  with assms(2) show False by (auto simp: orphan_def dn_full_def dn_view_def)
qed

text \<open>Only the pump's own steps touch its part of the stream.\<close>

lemma dn_full_conn:
  assumes ids: "inv_ids n s" and o: "orphan k s" and st: "conn_step cfg e inp s = Some s'"
  shows "dn_full s' k = dn_full s k"
  using st
proof (cases rule: conn_stepE)
  case (First cn r)
  then show ?thesis
    by (auto simp: conn_first_def conn_fail_def dn_full_def session_new_def split: recv_result.splits sum.splits)
next
  case (Deliver cn ctx i j p)
  with orphan_delivering [OF ids o, of e i] have "j \<noteq> k" by (auto simp: pc_of_conn)
  with Deliver show ?thesis by (auto simp: conn_ops dn_full_def split: op_splits)
next
  case (Bind cn ctx b bs r)
  then show ?thesis by (auto simp: conn_bind_alt dn_full_def split: op_splits acc_pc.splits)
next
  case (Abort cn r)
  then show ?thesis by (auto simp: conn_ops dn_full_def chan_drop_rx_def split: option.splits acc_pc.splits if_splits)
next
  case (Reject cn ctx f)
  then show ?thesis by (auto simp: conn_ops dn_full_def dest!: session_send_frame split: op_splits)
qed (auto simp: conn_ops dn_full_def split: op_splits)

lemma dn_full_acc:
  assumes fr: "inv_fresh s" and o: "orphan k s" and st: "acc_step a r s = Some s'"
  shows "dn_full s' k = dn_full s k"
proof -
  have k: "strms s k \<noteq> None" using o by (auto simp: orphan_def dn_full_def)
  note busy = orphan_busy [OF fr o, of a]
  from st show ?thesis
  proof (cases rule: acc_stepE)
    case (Accept ac)
    with k show ?thesis by (auto simp: acc_ops dn_full_def split: accept_outcome.splits if_splits)
  next
    case (Open ac i j)
    with busy have "j \<noteq> k" by (auto simp: task_of_def)
    with Open show ?thesis
      by (auto simp: acc_ops dn_full_def dest!: session_send_frame split: sent.splits if_splits)
  next
    case (Insert ac i j)
    with busy have "j \<noteq> k" by (auto simp: task_of_def)
    with Insert show ?thesis by (auto simp: acc_ops dn_full_def)
  next
    case (Roll ac i j)
    with busy have "j \<noteq> k" by (auto simp: task_of_def)
    with Roll show ?thesis by (auto simp: acc_ops dn_full_def)
  qed (auto simp: acc_ops dn_full_def split: if_splits)
qed

lemma dn_full_step:
  assumes ids: "inv_ids n s" and fr: "inv_fresh s" and o: "orphan k s" and st: "step cfg e s = Some s'"
    and e: "\<And>r. e \<noteq> EvDn k r"
  shows "dn_full s' k = dn_full s k"
proof (cases e)
  case (EvConnect x m t)
  with st connect_SomeD(5) [of x m t s s'] show ?thesis by (simp add: dn_full_def)
next
  case (EvConn c inp)
  with st dn_full_conn [OF ids o] show ?thesis by simp
next
  case (EvAcc a r)
  with st dn_full_acc [OF fr o] show ?thesis by simp
next
  case (EvCancel a)
  with st show ?thesis
    by (auto simp: acc_ops dn_full_def chan_drop_rx_def option.map_comp comp_def
        split: option.splits if_splits acc_pc.splits)
next
  case (EvUp j r)
  with st have "up_step j r s = Some s'" by simp
  then show ?thesis
    by (rule up_stepE) (auto simp: acc_ops dn_full_def dest!: session_send_frame split: op_splits)
next
  case (EvDn j r)
  with e have "j \<noteq> k" by blast
  from EvDn st have "dn_step j r s = Some s'" by simp
  then show ?thesis
    by (rule dn_stepE) (use \<open>j \<noteq> k\<close> in \<open>auto simp: acc_ops dn_full_def split: op_splits\<close>)
next
  case (EvHttp h env)
  with st show ?thesis by (auto simp: http_run_def dn_full_def split: option.splits http_pc.splits prod.splits)
next
  case (EvHttpSend h)
  with st show ?thesis
    by (auto simp: http_send_def dn_full_def dest!: session_send_frame
        split: option.splits http_pc.splits sent.splits)
next
  case (EvTake x)
  with st show ?thesis by (auto simp: out_take_def dn_full_def split: op_splits)
next
  case (EvDropOut x)
  with st show ?thesis by (auto simp: out_drop_def dn_full_def split: op_splits)
qed

lemma no_new_sender:
  assumes ids: "inv_ids n s" and fr: "inv_fresh s" and o: "orphan k s" and st: "step cfg e s = Some s'"
  shows "streams_of s' c sid = Some k \<Longrightarrow> streams_of s c sid = Some k"
    "delivering (pc_of s' c) = Some (sid, k) \<Longrightarrow>
       delivering (pc_of s c) = Some (sid, k) \<or> streams_of s c sid = Some k"
proof -
  have "(streams_of s' c sid = Some k \<longrightarrow> streams_of s c sid = Some k) \<and>
    (delivering (pc_of s' c) = Some (sid, k) \<longrightarrow>
       delivering (pc_of s c) = Some (sid, k) \<or> streams_of s c sid = Some k)"
  proof (cases "\<exists>a ac k. accepts s e a ac k")
    case True
    with st show ?thesis
      by (auto simp: accepts_def acc_step_def acc_accept_def alloc_sid_def)
  next
    case False
    note kept = fresh_kept_step [OF ids st False]
    have "at_insert s a \<noteq> Some (c, sid, k)" for a
      using orphan_busy [OF fr o, of a c sid] at_insert_task by blast
    with fresh_keptD(4,5) [OF kept, of c sid k] show ?thesis by blast
  qed
  then show "streams_of s' c sid = Some k \<Longrightarrow> streams_of s c sid = Some k"
    "delivering (pc_of s' c) = Some (sid, k) \<Longrightarrow>
       delivering (pc_of s c) = Some (sid, k) \<or> streams_of s c sid = Some k" by blast+
qed

text \<open>The steps the pump still takes, if no write fails; a failed write leaves one.\<close>

fun dn_left :: "dn_pc \<Rightarrow> bytes list \<Rightarrow> nat" where
  "dn_left DnRecv q = 2 * length q + 2"
| "dn_left (DnWrite p) q = 2 * length q + 3"
| "dn_left DnShutdown q = 1"
| "dn_left _ q = 0"

text \<open>
  After \<open>m\<close> steps of its own the pump of \<open>k\<close> has, of the queue \<open>Q\<close> it found after the written \<open>W\<close>, written
  the first payloads; the rest is in its hand, or lost if a write failed (\<open>err\<close>).
\<close>

definition draining :: "nat \<Rightarrow> bytes list \<Rightarrow> bytes list \<Rightarrow> nat \<Rightarrow> bool \<Rightarrow> server \<Rightarrow> bool" where
  "draining k W Q m err s \<longleftrightarrow> orphan k s \<and>
     (\<exists>c sid d w q b. dn_full s k = Some (c, sid, d, w, q, b) \<and> (d = DnDone \<longrightarrow> b) \<and>
        (\<exists>rest. W @ Q = w @ rest \<and> (\<forall>xs. in_flight d q = Some xs \<longrightarrow> rest = xs) \<and>
           (in_flight d q = None \<longrightarrow> \<not> err \<longrightarrow> rest = [])) \<and>
        prefix W w \<and> m + dn_left d q \<le> 2 * length Q + 2 \<and>
        (\<not> err \<longrightarrow> m + dn_left d q = 2 * length Q + 2))"

lemma drainingE:
  assumes "draining k W Q m err s"
  obtains c sid d w q b rest where "orphan k s" "dn_full s k = Some (c, sid, d, w, q, b)" "d = DnDone \<longrightarrow> b"
    "W @ Q = w @ rest" "\<forall>xs. in_flight d q = Some xs \<longrightarrow> rest = xs"
    "in_flight d q = None \<longrightarrow> \<not> err \<longrightarrow> rest = []" "prefix W w" "m + dn_left d q \<le> 2 * length Q + 2"
    "\<not> err \<longrightarrow> m + dn_left d q = 2 * length Q + 2"
  using assms unfolding draining_def by (elim conjE exE) (rule that)

lemma drainingI:
  assumes "orphan k s" "dn_full s k = Some (c, sid, d, w, q, b)" "d = DnDone \<longrightarrow> b"
    "W @ Q = w @ rest" "\<forall>xs. in_flight d q = Some xs \<longrightarrow> rest = xs"
    "in_flight d q = None \<longrightarrow> \<not> err \<longrightarrow> rest = []" "prefix W w" "m + dn_left d q \<le> 2 * length Q + 2"
    "\<not> err \<longrightarrow> m + dn_left d q = 2 * length Q + 2"
  shows "draining k W Q m err s"
  unfolding draining_def
  by (intro conjI exI [of _ c] exI [of _ sid] exI [of _ d] exI [of _ w] exI [of _ q] exI [of _ b] exI [of _ rest] assms)

lemma draining_other:
  assumes ids: "inv_ids n s" and fr: "inv_fresh s" and d: "draining k W Q m err s"
    and st: "step cfg e s = Some s'" and e: "\<And>r. e \<noteq> EvDn k r"
  shows "draining k W Q m err s'"
proof -
  have o: "orphan k s" using d by (simp add: draining_def)
  note same = dn_full_step [OF ids fr o st e]
  from o no_new_sender [OF ids fr o st] have "orphan k s'"
    unfolding orphan_def same by blast
  with d show ?thesis unfolding draining_def same by blast
qed

text \<open>A step of the pump leads on if its part of the stream moves on; no sender comes back.\<close>

lemma draining_moved:
  assumes ids: "inv_ids n s" and fr: "inv_fresh s" and o: "orphan k s" and st: "dn_step k r s = Some s'"
    and v: "dn_full s k = Some (c, sid, d, w, q, b)"
    and v': "dn_full s' k = Some (c, sid, d', w', q', b')" "d' \<noteq> DnIdle" "d' = DnDone \<longrightarrow> b'"
    and rest: "W @ Q = w' @ rest" "\<forall>xs. in_flight d' q' = Some xs \<longrightarrow> rest = xs"
      "in_flight d' q' = None \<longrightarrow> \<not> err \<longrightarrow> rest = []"
    and m: "prefix W w'" "m + dn_left d' q' \<le> 2 * length Q + 2" "\<not> err \<longrightarrow> m + dn_left d' q' = 2 * length Q + 2"
  shows "draining k W Q m err s'"
proof (rule drainingI [OF _ v'(1,3) rest m])
  have "step cfg (EvDn k r) s = Some s'" for cfg using st by simp
  from no_new_sender [OF ids fr o this, of c sid] o v
  have "streams_of s' c sid \<noteq> Some k" "delivering (pc_of s' c) \<noteq> Some (sid, k)" by (auto simp: orphan_def)
  with v' show "orphan k s'" unfolding orphan_def by blast
qed

lemma draining_own:
  assumes ids: "inv_ids n s" and fr: "inv_fresh s" and d: "draining k W Q m err s"
    and st: "dn_step k r s = Some s'"
  shows "draining k W Q (Suc m) (err \<or> r = WriteErr) s'"
proof -
  from d obtain c sid d w q b rest where o: "orphan k s" and v: "dn_full s k = Some (c, sid, d, w, q, b)"
    and rest: "W @ Q = w @ rest" "\<forall>xs. in_flight d q = Some xs \<longrightarrow> rest = xs"
      "in_flight d q = None \<longrightarrow> \<not> err \<longrightarrow> rest = []"
    and m: "prefix W w" "m + dn_left d q \<le> 2 * length Q + 2" "\<not> err \<longrightarrow> m + dn_left d q = 2 * length Q + 2"
    by (rule drainingE)
  note fin = draining_moved [OF ids fr o st v]
  from st show ?thesis
  proof (cases rule: dn_stepE)
    case (Recv x)
    with v have x: "d = DnRecv" "q = ch_queue (vs_chan x)" "w = vs_written x" by (auto simp: dn_full_def)
    show ?thesis
    proof (cases "chan_recv (vs_chan x)")
      case None
      with x(2) have "q = []" by (auto simp: chan_recv_def split: list.splits)
      with Recv None have "dn_full s' k = Some (c, sid, DnShutdown, w, [], b)"
        using v by (auto simp: dn_recv_def dn_full_def split: if_splits)
      from this show ?thesis by (rule fin) (use rest m x \<open>q = []\<close> in auto)
    next
      case (Some pch)
      obtain p ch where pch: "pch = (p, ch)" by (cases pch)
      with Some have q: "q = p # ch_queue ch" using chan_recv_SomeD [of "vs_chan x" p ch] x(2) by simp
      note left = rest(2) [unfolded x(1) q, simplified]
      from Recv Some pch have "dn_full s' k = Some (c, sid, DnWrite p, w, ch_queue ch, b)"
        using v by (auto simp: dn_recv_def dn_full_def)
      from this show ?thesis by (rule fin [where rest = rest]) (use rest(1) m left in \<open>auto simp: x(1) q\<close>)
    qed
  next
    case (Write x p)
    with v have x: "d = DnWrite p" "q = ch_queue (vs_chan x)" "w = vs_written x" by (auto simp: dn_full_def)
    then have r: "rest = p # q" using rest(2) by simp
    show ?thesis
    proof (cases r)
      case WriteOk
      with Write v have "dn_full s' k = Some (c, sid, DnRecv, w @ [p], q, b)"
        by (auto simp: dn_write_def dn_full_def)
      from this show ?thesis by (rule fin [where rest = q]) (use rest m x r WriteOk in auto)
    next
      case WriteErr
      with Write v have "dn_full s' k = Some (c, sid, DnShutdown, w, q, b)"
        by (auto simp: dn_write_def dn_full_def)
      from this show ?thesis by (rule fin) (use rest m x r WriteErr in auto)
    qed
  next
    case (Shutdown x)
    with v have x: "d = DnShutdown" by (auto simp: dn_full_def)
    from Shutdown v have "dn_full s' k = Some (c, sid, DnDone, w, q, True)"
      by (auto simp: dn_shutdown_def dn_full_def chan_drop_rx_def)
    from this show ?thesis by (rule fin) (use rest m x in auto)
  qed
qed

lemma draining_run:
  assumes "run cfg es s = Some s'" "reach cfg n s" "n + length es < 2 ^ 63" "draining k W Q m err s"
  shows "draining k W Q (m + length (filter (\<lambda>e. \<exists>r. e = EvDn k r) es)) (err \<or> EvDn k WriteErr \<in> set es) s'"
  using assms
proof (induction es arbitrary: s n m err)
  case (Cons e es)
  then obtain t where st: "step cfg e s = Some t" and t: "run cfg es t = Some s'"
    by (auto split: Option.bind_splits)
  have n: "n \<le> 2 ^ 63" using Cons.prems(3) by simp
  note ids = inv_ids_reach [OF Cons.prems(2) n] and fr = inv_fresh_reach [OF Cons.prems(2) n]
  note IH = Cons.IH [OF t reach_step [OF Cons.prems(2) st]]
  have n': "Suc n + length es < 2 ^ 63" using Cons.prems(3) by simp
  show ?case
  proof (cases "\<exists>r. e = EvDn k r")
    case True
    then obtain r where e: "e = EvDn k r" by blast
    with st have "dn_step k r s = Some t" by simp
    from IH [OF n' draining_own [OF ids fr Cons.prems(4) this]] e show ?thesis by (cases r) auto
  next
    case False
    then have "\<And>r. e \<noteq> EvDn k r" by blast
    moreover from this have "EvDn k WriteErr \<in> set (e # es) \<longleftrightarrow> EvDn k WriteErr \<in> set es" by (metis set_ConsD list.set_intros(2))
    ultimately show ?thesis using IH [OF n' draining_other [OF ids fr Cons.prems(4) st]] False by simp
  qed
qed simp

lemma draining_starts:
  assumes "strms s k = Some v" "vs_dn v = DnRecv" "\<not> sender_alive k v s"
  shows "draining k (vs_written v) (ch_queue (vs_chan v)) 0 False s"
proof -
  have "delivering (pc_of s (vs_sess v)) \<noteq> Some (vs_sid v, k)"
    using assms(3) by (auto simp: sender_alive_def pc_of_def split: option.splits conn_pc.splits
        elim!: delivering.elims)
  moreover have "streams_of s (vs_sess v) (vs_sid v) \<noteq> Some k"
    using assms(3) by (auto simp: sender_alive_def streams_of_def split: option.splits)
  ultimately show ?thesis using assms(1,2) by (auto simp: draining_def orphan_def dn_full_def)
qed

text \<open>
  C17. Once no sender of its channel is left, the downstream pump of a stream ends by itself, whatever
  the rest of the hub does meanwhile and however its writes go. It takes at most two steps per queued
  payload and two more, and until it is done the next one is possible. It never writes anything but the
  queued payloads, in order, and it shuts the TCP connection down; if none of its writes fails, then it
  has written all of them, after exactly that many steps. After a failed write the rest is dropped.
\<close>
theorem downstream_pump_drains:
  assumes "reach cfg n s" and "run cfg es s = Some s'" and "n + length es < 2 ^ 63"
    and "strms s k = Some v" and "vs_dn v = DnRecv" and "\<not> sender_alive k v s"
    and "m = length (filter (\<lambda>e. \<exists>r. e = EvDn k r) es)" and "bound = 2 * length (ch_queue (vs_chan v)) + 2"
  shows "\<exists>v'. strms s' k = Some v' \<and> m \<le> bound \<and> (m = bound \<longrightarrow> vs_dn v' = DnDone) \<and>
     (vs_dn v' = DnDone \<or> (\<forall>r. step cfg (EvDn k r) s' \<noteq> None)) \<and> (vs_dn v' = DnDone \<longrightarrow> vs_shut v') \<and>
     prefix (vs_written v) (vs_written v') \<and> prefix (vs_written v') (vs_written v @ ch_queue (vs_chan v)) \<and>
     (vs_dn v' = DnDone \<longrightarrow> EvDn k WriteErr \<notin> set es \<longrightarrow>
        m = bound \<and> vs_written v' = vs_written v @ ch_queue (vs_chan v))"
proof -
  let ?err = "EvDn k WriteErr \<in> set es"
  have dr: "draining k (vs_written v) (ch_queue (vs_chan v)) m ?err s'"
    using draining_run [OF assms(2,1,3) draining_starts [OF assms(4-6)]] assms(7) by simp
  from dr obtain c sid d w q b rest where full: "dn_full s' k = Some (c, sid, d, w, q, b)" "d = DnDone \<longrightarrow> b"
    and rest: "vs_written v @ ch_queue (vs_chan v) = w @ rest" "in_flight d q = None \<longrightarrow> \<not> ?err \<longrightarrow> rest = []"
    and m: "prefix (vs_written v) w" "m + dn_left d q \<le> bound" "\<not> ?err \<longrightarrow> m + dn_left d q = bound"
    unfolding assms(8) by (rule drainingE)
  from full(1) obtain v' where v': "strms s' k = Some v'"
    and eqs: "d = vs_dn v'" "w = vs_written v'" "q = ch_queue (vs_chan v')" "b = vs_shut v'"
    by (auto simp: dn_full_def)
  note dn = full(2) [unfolded eqs] and rest = rest [unfolded eqs] and m = m [unfolded eqs]
  have o: "orphan k s'" using dr by (simp add: draining_def)
  then have idle: "vs_dn v' \<noteq> DnIdle" and "streams_of s' (vs_sess v') (vs_sid v') \<noteq> Some k"
    "delivering (pc_of s' (vs_sess v')) \<noteq> Some (vs_sid v', k)"
    using v' by (auto simp: orphan_def dn_full_def)
  have re: "reach cfg (n + length es) s'" by (rule run_reach [OF assms(2,1)])
  have "\<forall>i. delivering (pc_of s' (vs_sess v')) \<noteq> Some (i, k)"
    using orphan_delivering [OF inv_ids_reach [OF re] o] assms(3) by simp
  then have dead: "\<not> sender_alive k v' s'"
    using \<open>streams_of s' _ _ \<noteq> _\<close>
    by (auto simp: sender_alive_def streams_of_def pc_of_def split: option.splits conn_pc.splits)
  have "vs_dn v' = DnDone \<or> (\<forall>r. step cfg (EvDn k r) s' \<noteq> None)"
    using v' dead idle by (cases "vs_dn v'") (auto simp: dn_step_def dn_recv_def split: option.splits)
  moreover have "m = bound \<longrightarrow> vs_dn v' = DnDone"
    using m(2) idle by (cases "vs_dn v'") auto
  moreover have "vs_dn v' = DnDone \<longrightarrow> \<not> ?err \<longrightarrow>
      m = bound \<and> vs_written v' = vs_written v @ ch_queue (vs_chan v)"
    using rest m(3) by auto
  ultimately show ?thesis using v' dn rest(1) m(1,2) by (intro exI [of _ v']) auto
qed

theorem downstream_pump_drains_witness:
  "\<exists>n s s' v'. reach demo_cfg n s \<and>
     run demo_cfg [EvDn 5 WriteOk, EvTake 0, EvDn 5 WriteOk, EvDn 5 WriteOk, EvDn 5 WriteOk] s = Some s' \<and>
     strms s' 5 = Some v' \<and> vs_dn v' = DnDone \<and> vs_shut v' \<and> vs_written v' = [[9]]"
proof -
  let ?es = "join_events 0 ''spoke-a'' ''s3:cret'' @
    [EvConn 0 (InBind (BindOk 0)), EvConn 0 (InBind (BindOk 1)), EvConn 0 InStep,
     EvAcc 0 AcceptErr, EvAcc 0 (AcceptOk 5), EvAcc 0 AcceptErr, EvAcc 0 AcceptErr,
     EvConn 0 (InRecv (Frame \<lparr>cf_stream_id = 1, cf_kind = Some (CData [9])\<rparr>) 0), EvConn 0 InStep,
     EvUp 5 ReadEof, EvUp 5 ReadEof, EvUp 5 ReadEof]"
  let ?fs = "[EvDn 5 WriteOk, EvTake 0, EvDn 5 WriteOk, EvDn 5 WriteOk, EvDn 5 WriteOk]"
  have "map_option (\<lambda>s. (case strms s 5 of None \<Rightarrow> False | Some v \<Rightarrow>
      vs_dn v = DnRecv \<and> \<not> sender_alive 5 v s \<and> ch_queue (vs_chan v) = [[9]] \<and> vs_written v = []) \<and>
      run demo_cfg ?fs s \<noteq> None)
    (run demo_cfg ?es server_init) = Some True"
    by code_simp
  then obtain s s' v where s: "reach demo_cfg (length ?es) s" "strms s 5 = Some v" "vs_dn v = DnRecv"
    "\<not> sender_alive 5 v s" "ch_queue (vs_chan v) = [[9]]" "vs_written v = []" "run demo_cfg ?fs s = Some s'"
    by (rule run_obtains) (auto split: option.splits)
  have "length ?es + length ?fs < 2 ^ 63" by (simp add: join_events_def)
  from downstream_pump_drains [OF s(1,7) this s(2-4) refl refl] s(1,5-7) show ?thesis by auto
qed

end
