(* ===== verification/Server_Traces.thy ===== *)
theory Server_Traces
  imports Server_Demo Server_Liveness
begin

text \<open>
  Behaviours of the hub that its comments do not account for, each with a run that shows it: a listener
  that outlives the connection that opened it, two live sessions of one spoke, and an entry of the
  configuration that admits a spoke on its name alone.
\<close>

section \<open>A listener that outlives its connection\<close>

text \<open>Connection \<open>c\<close> is on the error path of a \<open>bind\<close> that failed, or has returned from it.\<close>

fun bind_failed :: "conn_ret \<Rightarrow> conn_pc option \<Rightarrow> bool" where
  "bind_failed r (Some (CCloseFlag _ r')) \<longleftrightarrow> r' = r"
| "bind_failed r (Some (CCloseClear _ r')) \<longleftrightarrow> r' = r"
| "bind_failed r (Some (CCleanup _ r')) \<longleftrightarrow> r' = r"
| "bind_failed r (Some (CDone r')) \<longleftrightarrow> r' = r"
| "bind_failed _ _ \<longleftrightarrow> False"

lemma bind_failed_step:
  assumes "bind_failed (RetErr e) (pc_of s c)" "step cfg ev s = Some s'"
  shows "bind_failed (RetErr e) (pc_of s' c)"
proof (cases "own_conn c ev")
  case True
  then obtain inp where "ev = EvConn c inp" by (cases ev) auto
  with assms(2) have "conn_step cfg c inp s = Some s'" by simp
  then show ?thesis
    by (cases rule: conn_stepE)
      (use assms(1) in \<open>auto simp: pc_of_conn conn_close_flag_def conn_close_clear_def conn_cleanup_def
        cleanup_session_def split: option.splits\<close>)
next
  case False
  from assms(1) obtain pc where "pc_of s c = Some pc" by (cases "pc_of s c") auto
  with pc_of_other [OF assms(2) False this] assms(1) show ?thesis by simp
qed

text \<open>A listener of such a connection waits in \<open>accept\<close>, and its task is not aborted.\<close>

definition listening :: "nat \<Rightarrow> acceptor \<Rightarrow> server \<Rightarrow> bool" where
  "listening a ac s \<longleftrightarrow> accs s a = Some ac \<and> ac_pc ac = AAccept \<and> \<not> ac_abort ac \<and> ports s (ac_port ac) = Some a"

lemma listening_conn:
  assumes "bind_failed (RetErr e) (pc_of s (ac_sess ac))" "listening a ac s" "conn_step cfg d inp s = Some s'"
  shows "listening a ac s'"
  using assms(3)
proof (cases rule: conn_stepE)
  case (Abort cn r)
  with assms(1) have "d \<noteq> ac_sess ac" by (auto simp: pc_of_conn)
  with Abort assms(2) show ?thesis by (simp add: conn_abort_def listening_def)
next
  case (Bind cn ctx b bs r)
  with assms(2) show ?thesis by (auto simp: conn_bind_alt listening_def port_held_def split: bind_outcome.splits if_splits)
next
  case (Reject cn ctx f)
  with assms(2) show ?thesis
    by (auto simp: conn_ops listening_def dest!: session_send_frame split: op_splits)
qed (use assms(2) in \<open>auto simp: conn_ops conn_first_def listening_def log_frame_def state_ops
    split: op_splits sum.splits\<close>)

lemma listening_step:
  assumes "bind_failed (RetErr e) (pc_of s (ac_sess ac))" "listening a ac s" "step cfg ev s = Some s'"
    and "\<And>r. ev \<noteq> EvAcc a r"
  shows "listening a ac s'"
proof (cases ev)
  case (EvConn d inp)
  with listening_conn [OF assms(1,2)] assms(3) show ?thesis by simp
next
  case (EvConnect d n t)
  with assms(2,3) connect_SomeD(5) [of d n t s s'] show ?thesis by (simp add: listening_def connect_def split: if_splits)
next
  case (EvAcc b r)
  with assms(3,4) have "acc_step b r s = Some s'" "b \<noteq> a" by auto
  from this(1) show ?thesis
    by (cases rule: acc_stepE)
      (use assms(2) \<open>b \<noteq> a\<close> in \<open>auto simp: acc_ops state_ops listening_def dest!: session_send_frame
        split: op_splits accept_outcome.splits sent.splits\<close>)
next
  case (EvCancel b)
  with assms(2,3) show ?thesis
    by (auto simp: acc_cancel_def acc_finish_def listening_def state_ops split: option.splits if_splits acc_pc.splits)
next
  case (EvUp k r)
  with assms(3) have "up_step k r s = Some s'" by simp
  with assms(2) show ?thesis
    by (elim up_stepE) (auto simp: acc_ops state_ops listening_def dest!: session_send_frame split: op_splits)
next
  case (EvDn k r)
  with assms(3) have "dn_step k r s = Some s'" by simp
  with assms(2) show ?thesis
    by (elim dn_stepE) (auto simp: acc_ops state_ops listening_def split: op_splits)
next
  case (EvHttp h env)
  with assms(2,3) show ?thesis
    by (auto simp: http_run_def listening_def upd_http_def split: option.splits http_pc.splits prod.splits)
next
  case (EvHttpSend h)
  with assms(2,3) show ?thesis
    by (auto simp: http_send_def listening_def upd_http_def dest!: session_send_frame
        split: option.splits http_pc.splits sent.splits)
qed (use assms(2,3) in \<open>auto simp: out_take_def out_drop_def listening_def split: op_splits\<close>)

lemma listening_run:
  "run cfg es s = Some s' \<Longrightarrow> bind_failed (RetErr e) (pc_of s (ac_sess ac)) \<Longrightarrow> listening a ac s \<Longrightarrow>
   \<forall>r. EvAcc a r \<notin> set es \<Longrightarrow> listening a ac s'"
proof (induction es arbitrary: s)
  case (Cons ev es)
  then obtain t where t: "step cfg ev s = Some t" "run cfg es t = Some s'" by (auto split: Option.bind_splits)
  have "listening a ac t" by (rule listening_step [OF Cons.prems(2,3) t(1)]) (use Cons.prems(4) in auto)
  with Cons.IH [OF t(2) bind_failed_step [OF Cons.prems(2) t(1)]] Cons.prems(4) show ?case by simp
qed simp

lemma bind_blocked:
  assumes "pc_of s c = Some (CBind ctx (b # bs))" "port_held (pb_port b) s"
  shows "step cfg (EvConn c (InBind (BindOk a))) s = None"
  using assms by (auto simp: conn_step_def conn_bind_alt pc_of_def)

text \<open>
  C37. A listener survives the connection that opened it: when a later port of the spoke cannot be bound,
  the connection returns after three steps without aborting its listeners. One that waits in \<open>accept\<close> stays
  as it is in every run in which nothing arrives at its port: it cannot be cancelled, it holds the
  port, and no other connection can bind that port.
\<close>
theorem listener_outlives_connection:
  assumes "pc_of s c = Some (CCloseFlag ctx (RetErr e))" and "accs s a = Some ac" and "ac_sess ac = c"
    and "ac_pc ac = AAccept" and "\<not> ac_abort ac" and "ports s (ac_port ac) = Some a" and "ac_port ac \<noteq> 0"
    and "run cfg es s = Some s'" and "\<forall>r. EvAcc a r \<notin> set es"
  shows "(length (filter (own_conn c) es) = 3 \<longrightarrow> pc_of s' c = Some (CDone (RetErr e))) \<and>
    accs s' a = Some ac \<and> ports s' (ac_port ac) = Some a \<and> step cfg (EvCancel a) s' = None \<and>
    (\<forall>d ctx b bs i. pc_of s' d = Some (CBind ctx (b # bs)) \<longrightarrow> pb_port b = ac_port ac \<longrightarrow>
       step cfg (EvConn d (InBind (BindOk i))) s' = None)"
proof -
  have "bind_failed (RetErr e) (pc_of s (ac_sess ac))" "listening a ac s"
    using assms by (simp_all add: listening_def)
  from listening_run [OF assms(8) this assms(9)] have l: "listening a ac s'" .
  have live: "in_teardown c (RetErr e) s" "teardown_left c s = 3"
    using assms(1) by (simp_all add: in_teardown_def teardown_left_def)
  have "length (filter (own_conn c) es) = 3 \<longrightarrow> pc_of s' c = Some (CDone (RetErr e))"
    using hub_teardown.run_rank [OF assms(8) live(1)] live(2) teardown_left_0 [of c "RetErr e" s'] by auto
  with l bind_blocked assms(7) show ?thesis
    by (auto simp: listening_def acc_cancel_def port_held_def)
qed

text \<open>The second port of the demo spoke is taken; the spoke connects again and cannot bind the first.\<close>

definition failing_events :: "event list" where
  "failing_events = join_events 0 ''spoke-a'' ''s3:cret'' @
     [EvConn 0 (InBind (BindOk 0)), EvAcc 0 AcceptErr, EvConn 0 (InBind BindErr)]"

definition again_events :: "event list" where
  "again_events = [EvConn 0 InStep, EvConn 0 InStep, EvConn 0 InStep] @ join_events 1 ''spoke-a'' ''s3:cret''"

definition failing :: "server \<Rightarrow> bool" where
  "failing s \<longleftrightarrow> (case pc_of s 0 of Some (CCloseFlag _ r) \<Rightarrow> r = RetErr (ListenErr 10011) | _ \<Rightarrow> False) \<and>
     (case accs s 0 of Some ac \<Rightarrow> ac_sess ac = 0 \<and> ac_pc ac = AAccept \<and> \<not> ac_abort ac \<and> ac_port ac = 10001
      | None \<Rightarrow> False) \<and> ports s 10001 = Some 0 \<and>
     (case run demo_cfg again_events s of
        Some s' \<Rightarrow> (case pc_of s' 1 of Some (CBind _ (b # _)) \<Rightarrow> pb_port b = 10001 | _ \<Rightarrow> False)
      | None \<Rightarrow> False)"

lemma failing_run: "map_option failing (run demo_cfg failing_events server_init) = Some True"
  by code_simp

theorem listener_outlives_connection_witness:
  "\<exists>n s. reach demo_cfg n s \<and> pc_of s 0 = Some (CDone (RetErr (ListenErr 10011))) \<and> ports s 10001 = Some 0 \<and>
     (\<exists>ctx b bs. pc_of s 1 = Some (CBind ctx (b # bs)) \<and> pb_port b = 10001) \<and>
     (\<forall>i. step demo_cfg (EvConn 1 (InBind (BindOk i))) s = None)"
proof -
  from failing_run obtain s where s: "reach demo_cfg (length failing_events) s" "failing s"
    by (rule run_obtains)
  then obtain ctx ac s' cty b bs where
    p: "pc_of s 0 = Some (CCloseFlag ctx (RetErr (ListenErr 10011)))" "accs s 0 = Some ac" "ac_sess ac = 0"
      "ac_pc ac = AAccept" "\<not> ac_abort ac" "ac_port ac = 10001" "ports s 10001 = Some 0"
    and s': "run demo_cfg again_events s = Some s'" "pc_of s' 1 = Some (CBind cty (b # bs))" "pb_port b = 10001"
    by (auto simp: failing_def split: option.splits conn_pc.splits list.splits)
  have "\<forall>r. EvAcc 0 r \<notin> set again_events" "length (filter (own_conn 0) again_events) = 3"
    by (simp_all add: again_events_def join_events_def)
  with listener_outlives_connection [OF p(1-5) _ _ s'(1)] p(6,7)
  have "pc_of s' 0 = Some (CDone (RetErr (ListenErr 10011)))" "ports s' 10001 = Some 0"
    "\<forall>i. step demo_cfg (EvConn 1 (InBind (BindOk i))) s' = None"
    using s'(2,3) by auto
  with run_reach [OF s'(1) s(1)] s'(2,3) show ?thesis by blast
qed

section \<open>Two live sessions of one spoke\<close>

definition first_three :: "nat \<Rightarrow> event list" where
  "first_three c = [EvConnect c (replicate 32 0) 0, EvConn c (InRecv (Frame (hello ''app-b'' ''t'')) 0),
     EvConn c InStep]"

definition rival_events :: "event list" where
  "rival_events = join_events 0 ''app-b'' ''t'' @ [EvConn 0 InStep] @
     first_three 1 @ first_three 2 @
     [EvConn 1 InStep, EvConn 1 InStep, EvConn 1 InStep, EvConn 1 InStep, EvConn 1 InStep,
      EvConn 2 InStep, EvConn 2 InStep, EvConn 2 InStep, EvConn 2 InStep, EvConn 2 InStep]"

fun recv_id :: "conn_pc option \<Rightarrow> string option" where
  "recv_id (Some (CRecv ctx)) = Some (cx_id ctx)"
| "recv_id _ = None"

lemma recv_id_Some: "recv_id p = Some i \<Longrightarrow> \<exists>ctx. p = Some (CRecv ctx) \<and> cx_id ctx = i"
  by (cases p rule: recv_id.cases) auto

definition rivals :: "server \<Rightarrow> bool" where
  "rivals s \<longleftrightarrow>
     recv_id (pc_of s 1) = Some ''app-b'' \<and> recv_id (pc_of s 2) = Some ''app-b'' \<and>
     closed_of s 1 = Some False \<and> closed_of s 2 = Some False \<and> sessions s ''app-b'' = Some 2 \<and>
     connected (mets s) = 3"

lemma rival_run: "map_option rivals (run demo_cfg rival_events server_init) = Some True"
  by code_simp

text \<open>
  C38. Displacement is not atomic: two connections of one spoke that both find an older session both
  register, and then both serve with open sessions although the registry knows only the second.
\<close>
theorem two_live_sessions:
  "\<exists>n s x y. reach demo_cfg n s \<and> pc_of s 1 = Some (CRecv x) \<and> pc_of s 2 = Some (CRecv y) \<and>
     cx_id x = ''app-b'' \<and> cx_id y = ''app-b'' \<and> closed_of s 1 = Some False \<and> closed_of s 2 = Some False \<and>
     sessions s ''app-b'' = Some 2"
proof -
  from rival_run obtain s where "reach demo_cfg (length rival_events) s" "rivals s"
    by (rule run_obtains)
  then show ?thesis unfolding rivals_def using recv_id_Some by meson
qed

section \<open>An empty token\<close>

text \<open>
  C40. Nothing refuses an empty token, neither the configuration nor the handshake: whenever a printed
  list of spokes has an entry with an empty token, the hub starts with it and admits, with that entry's
  configuration, every first frame that names the identifier and carries an empty signature.
\<close>
theorem empty_token_admits_by_name:
  assumes "\<forall>sc \<in> set scs. printable sc" and "distinct (map sc_spoke_id scs)"
    and "sc \<in> set scs" and "sc_token sc = []"
    and "cf_kind f = Some (Handshake hs)" and "hs_spoke_id hs = sc_spoke_id sc" and "hs_signature hs = []"
  shows "\<exists>cfg. load_config [''TUNNEL_SPOKES'' \<mapsto> print_spokes scs] = Inr cfg \<and>
    check_handshake cfg f = Inr \<lparr>cx_id = sc_spoke_id sc, cx_sc = sc\<rparr>"
proof -
  have "scs \<noteq> []" using assms(3) by auto
  from load_config_printed [OF this assms(1,2)] obtain cfg
    where cfg: "load_config [''TUNNEL_SPOKES'' \<mapsto> print_spokes scs] = Inr cfg"
      "spokes cfg = map_of (map (\<lambda>sc. (sc_spoke_id sc, sc)) scs)" by simp
  have "spokes cfg (sc_spoke_id sc) = Some sc" using map_of_spokes_iff [OF assms(2)] assms(3) cfg(2) by simp
  then have "check_handshake cfg f = Inr \<lparr>cx_id = sc_spoke_id sc, cx_sc = sc\<rparr>"
    using assms(4-7) by (simp add: check_handshake_def)
  with cfg(1) show ?thesis by blast
qed

definition no_token :: spoke_config where
  "no_token = \<lparr>sc_spoke_id = ''app-x'', sc_kind = Application, sc_ports = [], sc_token = []\<rparr>"

lemma no_token_printable: "printable no_token" "print_spokes [no_token] = ''app-x::''"
  by (auto simp: printable_def no_token_def bounded_graphic_def graphic_def kind_of_def starts_with_def
      print_spokes_def print_entry_def)

theorem empty_token_admits_by_name_witness:
  "\<exists>cfg. load_config [''TUNNEL_SPOKES'' \<mapsto> ''app-x::''] = Inr cfg \<and>
     check_handshake cfg (hello ''app-x'' []) = Inr \<lparr>cx_id = ''app-x'', cx_sc = no_token\<rparr>"
proof -
  have hello: "cf_kind (hello ''app-x'' []) =
      Some (Handshake \<lparr>hs_spoke_id = ''app-x'', hs_signature = [], hs_client_ver = ''tc-rust/0.1.0''\<rparr>)"
    by (simp add: hello_def)
  have "\<forall>sc \<in> set [no_token]. printable sc" using no_token_printable(1) by simp
  from empty_token_admits_by_name [OF this _ _ _ hello, of no_token] no_token_printable(2)
  show ?thesis by (simp add: no_token_def)
qed

end
