(* ===== verification/Server_Startup.thy ===== *)
theory Server_Startup
  imports Server_Http
begin

text \<open>
  The start of \<open>tunnel-server\<close>: \<open>main\<close> with its configuration, the HTTP client for the kernel, the
  gRPC server's settings, and the two routes of the metrics listener.
\<close>

section \<open>The metrics listener\<close>

text \<open>
  \<open>String::from_utf8\<close> accepts the well-formed UTF-8 sequences: no overlong form, no surrogate,
  nothing above U+10FFFF.
\<close>

definition utf8_tail :: "8 word \<Rightarrow> bool" where
  "utf8_tail b \<longleftrightarrow> 0x80 \<le> b \<and> b \<le> 0xBF"

definition utf8_second :: "8 word \<Rightarrow> 8 word \<Rightarrow> bool" where
  "utf8_second a b \<longleftrightarrow>
     (if a = 0xE0 then 0xA0 \<le> b \<and> b \<le> 0xBF
      else if a = 0xED then 0x80 \<le> b \<and> b \<le> 0x9F
      else if a = 0xF0 then 0x90 \<le> b \<and> b \<le> 0xBF
      else if a = 0xF4 then 0x80 \<le> b \<and> b \<le> 0x8F
      else utf8_tail b)"

fun valid_utf8 :: "bytes \<Rightarrow> bool" where
  "valid_utf8 (a # bs) =
     (if a \<le> 0x7F then valid_utf8 bs
      else if 0xC2 \<le> a \<and> a \<le> 0xDF then
        (case bs of b # r \<Rightarrow> utf8_tail b \<and> valid_utf8 r | _ \<Rightarrow> False)
      else if 0xE0 \<le> a \<and> a \<le> 0xEF then
        (case bs of b # c # r \<Rightarrow> utf8_second a b \<and> utf8_tail c \<and> valid_utf8 r | _ \<Rightarrow> False)
      else if 0xF0 \<le> a \<and> a \<le> 0xF4 then
        (case bs of b # c # d # r \<Rightarrow> utf8_second a b \<and> utf8_tail c \<and> utf8_tail d \<and> valid_utf8 r
         | _ \<Rightarrow> False)
      else False)"
| "valid_utf8 [] = True"

definition from_utf8 :: "bytes \<Rightarrow> string option" where
  "from_utf8 bs = (if valid_utf8 bs then Some (map (char_of \<circ> unat) bs) else None)"

text \<open>
  \<open>Metrics::encode\<close>: the encoder of the Prometheus library is a parameter, the bytes it leaves in the
  buffer; its error is ignored, and bytes that are not UTF-8 become the empty string.
\<close>

definition encode_metrics :: "(metrics \<Rightarrow> bytes) \<Rightarrow> metrics \<Rightarrow> string" where
  "encode_metrics encoder m = (case from_utf8 (encoder m) of Some s \<Rightarrow> s | None \<Rightarrow> [])"

text \<open>What a \<open>GET\<close> of a path answers; any other path is not found.\<close>

definition metrics_route :: "(metrics \<Rightarrow> bytes) \<Rightarrow> metrics \<Rightarrow> string \<Rightarrow> string option" where
  "metrics_route encoder m path =
     (if path = ''/metrics'' then Some (encode_metrics encoder m)
      else if path = ''/healthz'' then Some ''ok''
      else None)"

section \<open>The program\<close>

record grpc_settings =
  gs_stream_window :: nat
  gs_connection_window :: nat
  gs_keepalive_interval :: nat   \<comment> \<open>seconds\<close>
  gs_keepalive_timeout :: nat

definition grpc_settings_main :: grpc_settings where
  "grpc_settings_main = \<lparr>gs_stream_window = 4 * 1024 * 1024, gs_connection_window = 16 * 1024 * 1024,
     gs_keepalive_interval = 30, gs_keepalive_timeout = 20\<rparr>"

definition kernel_timeout_seconds :: nat where
  "kernel_timeout_seconds = 300"

datatype hub_main =
    HubConfigError config_error
  | HubClientError string
  | HubServeError string
  | HubServes server_config server "string option"

text \<open>
  The metrics listener is bound by a task of its own; that it cannot be bound, the last component of
  \<open>HubServes\<close>, is only logged.
\<close>

definition hub_start ::
  "env \<Rightarrow> (sock_addr \<Rightarrow> string option) \<Rightarrow> (nat \<Rightarrow> string option) \<Rightarrow>
   (grpc_settings \<Rightarrow> sock_addr \<Rightarrow> string option) \<Rightarrow> hub_main" where
  "hub_start env bind_metrics build_client bind_grpc =
     (case load_config env of
        Inl e \<Rightarrow> HubConfigError e
      | Inr cfg \<Rightarrow>
          (let metrics_error = bind_metrics (metrics_listen cfg) in
           case build_client kernel_timeout_seconds of
             Some e \<Rightarrow> HubClientError e
           | None \<Rightarrow>
               (case bind_grpc grpc_settings_main (grpc_listen cfg) of
                  Some e \<Rightarrow> HubServeError e
                | None \<Rightarrow> HubServes cfg server_init metrics_error)))"

text \<open>
  The health check does not depend on the metrics, and the metrics page never fails: it is empty when
  the encoder left bytes that are not text.
\<close>

lemma from_utf8_as_bytes: "from_utf8 bs = Some t \<Longrightarrow> as_bytes t = bs"
proof -
  have "unat b mod 256 = unat b" for b :: u8
    using unsigned_less [where 'a = nat, of b] by simp
  then show "from_utf8 bs = Some t \<Longrightarrow> as_bytes t = bs"
    by (auto simp: from_utf8_def as_bytes_def byte_of_def split: if_splits intro!: map_idI)
qed

lemma metrics_route_cases:
  "metrics_route encoder m ''/healthz'' = Some ''ok''"
  "metrics_route encoder m ''/metrics'' = Some t \<Longrightarrow> t = [] \<or> as_bytes t = encoder m"
  by (auto simp: metrics_route_def encode_metrics_def from_utf8_as_bytes split: option.splits)

lemma hub_start_serves_iff:
  "hub_start env bind_metrics build_client bind_grpc = HubServes cfg s me \<longleftrightarrow>
     load_config env = Inr cfg \<and> build_client 300 = None \<and> me = bind_metrics (metrics_listen cfg) \<and>
     bind_grpc grpc_settings_main (grpc_listen cfg) = None \<and> s = server_init"
  by (auto simp: hub_start_def kernel_timeout_seconds_def Let_def split: sum.splits option.splits)

end
