(* ===== verification/Client_Config.thy ===== *)
theory Client_Config
  imports Rust_Std
begin

text \<open>
  The configuration of \<open>tunnel-client\<close> (\<open>spoke/images/tunnel-client/src/main.rs\<close>, section
  \<open>config\<close>): the table of targets and the required variables. Shown: what an accepted
  configuration guarantees, that a printed table is read back, and when loading fails.
\<close>

section \<open>Data\<close>

record client_config =
  cc_hub_url :: string
  cc_spoke_id :: string
  cc_token :: string
  cc_targets :: "string \<rightharpoonup> string"
  cc_insecure :: bool
  cc_backoff_min :: nat   \<comment> \<open>whole seconds\<close>
  cc_backoff_max :: nat
  cc_proxy_listen :: "string option"

datatype client_config_error =
    BadTargetsEntry string
  | EmptyTargetsField string
  | RequiredMissing
  | TargetRequired

section \<open>Operations\<close>

definition env_or_default :: "env \<Rightarrow> string \<Rightarrow> string" where
  "env_or_default env k = (case env k of None \<Rightarrow> [] | Some s \<Rightarrow> s)"

text \<open>One trimmed, non-empty item of \<open>TARGETS\<close>.\<close>

definition parse_target :: "string \<Rightarrow> client_config_error + string \<times> string" where
  "parse_target entry =
     (case split_once CHR ''='' entry of
        None \<Rightarrow> Inl (BadTargetsEntry entry)
      | Some (before, after) \<Rightarrow>
          (let name = trim before; host_port = trim after in
           if name = [] \<or> host_port = [] then Inl (EmptyTargetsField entry)
           else Inr (name, host_port)))"

fun parse_targets ::
  "string list \<Rightarrow> (string \<rightharpoonup> string) \<Rightarrow> client_config_error + (string \<rightharpoonup> string)" where
  "parse_targets [] m = Inr m"
| "parse_targets (e # es) m =
     (let entry = trim e in
      if entry = [] then parse_targets es m
      else bind_result (parse_target entry) (\<lambda>(name, host_port). parse_targets es (m(name \<mapsto> host_port))))"

text \<open>\<open>TARGETS\<close>, then the legacy \<open>TARGET\<close> as the \<open>default\<close> entry if there is none yet.\<close>

definition load_targets :: "env \<Rightarrow> client_config_error + (string \<rightharpoonup> string)" where
  "load_targets env =
     (let raw = trim (env_or_default env ''TARGETS''); single = env_or_default env ''TARGET'' in
      bind_result (if raw = [] then Inr Map.empty else parse_targets (split_on CHR '','' raw) Map.empty)
        (\<lambda>m. Inr (if single \<noteq> [] \<and> m ''default'' = None then m(''default'' \<mapsto> single) else m)))"

definition load_client_config :: "env \<Rightarrow> client_config_error + client_config" where
  "load_client_config env =
     (let hub_url = env_or_default env ''HUB_URL'';
          spoke_id = env_or_default env ''SPOKE_ID'';
          token = env_or_default env ''TUNNEL_TOKEN'';
          insecure = (case env ''TUNNEL_INSECURE'' of
                        None \<Rightarrow> False | Some v \<Rightarrow> eq_ignore_ascii_case v ''true'');
          listen = (case env ''KERNEL_PROXY_LISTEN'' of
                      None \<Rightarrow> None
                    | Some v \<Rightarrow> let s = trim v in if s = [] then None else Some s)
      in
      bind_result (load_targets env) (\<lambda>targets.
      if hub_url = [] \<or> spoke_id = [] \<or> token = [] then Inl RequiredMissing
      else if targets = Map.empty \<and> \<not> starts_with spoke_id ''app-'' then Inl TargetRequired
      else Inr \<lparr>cc_hub_url = hub_url, cc_spoke_id = spoke_id, cc_token = token,
                cc_targets = targets, cc_insecure = insecure, cc_backoff_min = 1,
                cc_backoff_max = 30, cc_proxy_listen = listen\<rparr>))"

section \<open>What an accepted configuration guarantees\<close>

lemma parse_target_InrD:
  assumes "parse_target entry = Inr (n, h)"
  shows "n \<noteq> [] \<and> trim n = n \<and> CHR ''='' \<notin> set n \<and> h \<noteq> [] \<and> trim h = h \<and>
    set n \<subseteq> set entry \<and> set h \<subseteq> set entry"
proof -
  from assms obtain a b where ab: "split_once CHR ''='' entry = Some (a, b)" "n = trim a" "h = trim b"
    "n \<noteq> []" "h \<noteq> []"
    by (auto simp: parse_target_def Let_def split: option.splits if_splits)
  from split_once_SomeD [OF ab(1)] show ?thesis
    using ab(2-5) set_trim [of a] set_trim [of b] by auto
qed

text \<open>An item of \<open>TARGETS\<close> that says \<open>name=address\<close>, blanks aside; and what such a pair looks like.\<close>

definition says_target :: "string \<Rightarrow> string \<Rightarrow> string \<Rightarrow> bool" where
  "says_target n h item \<longleftrightarrow>
     (\<exists>a b. trim item = a @ CHR ''='' # b \<and> CHR ''='' \<notin> set a \<and> trim a = n \<and> trim b = h)"

definition named_in :: "string \<Rightarrow> string \<Rightarrow> string \<Rightarrow> bool" where
  "named_in raw n h \<longleftrightarrow> (\<exists>item \<in> set (split_on CHR '','' raw). says_target n h item)"

definition wf_target :: "string \<Rightarrow> string \<Rightarrow> bool" where
  "wf_target n h \<longleftrightarrow> n \<noteq> [] \<and> trim n = n \<and> set n \<inter> {CHR ''='', CHR '',''} = {} \<and>
     h \<noteq> [] \<and> trim h = h \<and> CHR '','' \<notin> set h"

lemma parse_targets_from:
  assumes "parse_targets es m = Inr m'" and "\<And>e. e \<in> set es \<Longrightarrow> CHR '','' \<notin> set e" and "m' n = Some h"
  shows "m n = Some h \<or> wf_target n h \<and> (\<exists>e \<in> set es. says_target n h e)"
  using assms
proof (induction es m rule: parse_targets.induct)
  case (2 e es m)
  show ?case
  proof (cases "trim e = []")
    case True
    with "2.IH"(1) [OF refl True] "2.prems" show ?thesis by (auto simp: Let_def)
  next
    case False
    with "2.prems"(1) obtain i a where ia: "parse_target (trim e) = Inr (i, a)"
      and rest: "parse_targets es (m(i \<mapsto> a)) = Inr m'"
      by (auto simp: Let_def bind_result_Inr_iff)
    have "CHR '','' \<notin> set (trim e)" using set_trim [of e] "2.prems"(2) [of e] by auto
    with parse_target_InrD [OF ia] have wf: "wf_target i a" by (auto simp: wf_target_def)
    from ia obtain x y where xy: "split_once CHR ''='' (trim e) = Some (x, y)" "i = trim x" "a = trim y"
      by (auto simp: parse_target_def Let_def split: option.splits if_splits)
    have from_e: "says_target i a e" unfolding says_target_def using split_once_SomeD [OF xy(1)] xy(2,3) by blast
    have "(m(i \<mapsto> a)) n = Some h \<or> wf_target n h \<and> (\<exists>e \<in> set es. says_target n h e)"
      using "2.IH"(2) [OF refl False ia refl] rest "2.prems"(2,3) by (simp add: fun_upd_def)
    with from_e wf show ?thesis by (auto split: if_splits)
  qed
qed simp

text \<open>
  C29. An accepted client configuration names a hub, a spoke and a token; a spoke whose identifier does
  not begin with \<open>app-\<close> has a target. Every target stands as \<open>name=address\<close> in an item of \<open>TARGETS\<close>,
  its name trimmed, not empty and without equals sign or comma, its address trimmed, not empty and
  without comma; the one exception is a \<open>default\<close> taken verbatim from the legacy \<open>TARGET\<close>. A proxy
  address is trimmed and not empty.
\<close>
theorem load_client_config_wf:
  assumes "load_client_config env = Inr cfg"
  shows "cc_hub_url cfg \<noteq> [] \<and> cc_spoke_id cfg \<noteq> [] \<and> cc_token cfg \<noteq> [] \<and>
    (cc_targets cfg \<noteq> Map.empty \<or> (\<exists>rest. cc_spoke_id cfg = ''app-'' @ rest)) \<and>
    (\<forall>n h. cc_targets cfg n = Some h \<longrightarrow>
       named_in (trim (env_or_default env ''TARGETS'')) n h \<and> wf_target n h \<or>
       n = ''default'' \<and> env ''TARGET'' = Some h \<and> h \<noteq> []) \<and>
    (\<forall>l. cc_proxy_listen cfg = Some l \<longrightarrow> l \<noteq> [] \<and> trim l = l)"
proof -
  from assms obtain m where m: "load_targets env = Inr (cc_targets cfg)"
    and req: "cc_hub_url cfg \<noteq> []" "cc_spoke_id cfg \<noteq> []" "cc_token cfg \<noteq> []"
      "cc_targets cfg \<noteq> Map.empty \<or> starts_with (cc_spoke_id cfg) ''app-''"
      "\<forall>l. cc_proxy_listen cfg = Some l \<longrightarrow> l \<noteq> [] \<and> trim l = l"
    by (auto simp: load_client_config_def Let_def bind_result_Inr_iff split: if_splits option.splits)
  let ?raw = "trim (env_or_default env ''TARGETS'')"
  from m obtain t where p: "(if ?raw = [] then Inr Map.empty
        else parse_targets (split_on CHR '','' ?raw) Map.empty) = (Inr t :: client_config_error + _)"
    and c: "cc_targets cfg = (if env_or_default env ''TARGET'' \<noteq> [] \<and> t ''default'' = None
              then t(''default'' \<mapsto> env_or_default env ''TARGET'') else t)"
    unfolding load_targets_def Let_def bind_result_Inr_iff by auto
  have t: "named_in ?raw n h \<and> wf_target n h" if "t n = Some h" for n h
  proof (cases "?raw = []")
    case False
    with p have "parse_targets (split_on CHR '','' ?raw) Map.empty = Inr t" by simp
    from parse_targets_from [OF this _ that] show ?thesis by (auto simp: named_in_def dest: set_split_on)
  next
    case True
    with p have "t = Map.empty" by simp
    with that show ?thesis by simp
  qed
  have "\<forall>n h. cc_targets cfg n = Some h \<longrightarrow> named_in ?raw n h \<and> wf_target n h \<or>
      n = ''default'' \<and> env ''TARGET'' = Some h \<and> h \<noteq> []"
    using t by (auto simp: c env_or_default_def split: if_splits option.splits)
  with req show ?thesis by (simp only: starts_with_iff) simp
qed

section \<open>Printing and reading back\<close>

definition print_target :: "string \<times> string \<Rightarrow> string" where
  "print_target = (\<lambda>(n, h). n @ CHR ''='' # h)"

definition print_targets :: "(string \<times> string) list \<Rightarrow> string" where
  "print_targets ts = join CHR '','' (map print_target ts)"

definition printable_target :: "string \<times> string \<Rightarrow> bool" where
  "printable_target = (\<lambda>(n, h). bounded_graphic n \<and> set n \<inter> {CHR ''='', CHR '',''} = {} \<and>
     bounded_graphic h \<and> CHR '','' \<notin> set h)"

lemma parse_print_target:
  assumes "printable_target t"
  shows "parse_target (print_target t) = Inr t" "trim (print_target t) = print_target t"
    "print_target t \<noteq> []" "CHR '','' \<notin> set (print_target t)" "bounded_graphic (print_target t)"
proof -
  obtain n h where t: "t = (n, h)" by (cases t)
  with assms have "split_once CHR ''='' (print_target t) = Some (n, h)"
    unfolding print_target_def t prod.case by (intro split_once_append) (auto simp: printable_target_def)
  with assms t show "parse_target (print_target t) = Inr t"
    by (auto simp: parse_target_def printable_target_def trim_bounded_graphic bounded_graphic_def trim_graphic)
  show "bounded_graphic (print_target t)"
    using assms t by (auto simp: printable_target_def print_target_def intro: bounded_graphic_append)
  then show "trim (print_target t) = print_target t" "print_target t \<noteq> []"
    by (auto simp: trim_bounded_graphic) (simp add: bounded_graphic_def)
  show "CHR '','' \<notin> set (print_target t)"
    using assms t by (auto simp: printable_target_def print_target_def)
qed

lemma parse_targets_print:
  "(\<And>t. t \<in> set ts \<Longrightarrow> printable_target t) \<Longrightarrow>
   parse_targets (map print_target ts) m = Inr (foldl (\<lambda>m t. m(fst t \<mapsto> snd t)) m ts)"
  by (induction ts arbitrary: m) (simp_all add: parse_print_target Let_def case_prod_beta)

lemma foldl_upd_map_of:
  "distinct (map fst ts) \<Longrightarrow> foldl (\<lambda>m t. m(fst t \<mapsto> snd t)) m ts = m ++ map_of ts"
proof (induction ts arbitrary: m)
  case (Cons a ts)
  have "map_of ts (fst a) = None" using Cons.prems by (simp add: map_of_eq_None_iff)
  with Cons show ?case by (cases a) (auto simp: map_add_def fun_eq_iff split: option.splits)
qed simp

lemma load_targets_printed:
  assumes "ts \<noteq> []" "\<forall>t \<in> set ts. printable_target t" "distinct (map fst ts)"
    and "env ''TARGETS'' = Some (print_targets ts)" "env ''TARGET'' = None"
  shows "load_targets env = Inr (map_of ts)"
proof -
  have bg: "bounded_graphic (print_targets ts)"
    unfolding print_targets_def using assms(1,2) parse_print_target(5) by (intro bounded_graphic_join) auto
  have "split_on CHR '','' (print_targets ts) = map print_target ts"
    unfolding print_targets_def using assms(1,2) parse_print_target(4) by (intro split_on_join) auto
  then have "parse_targets (split_on CHR '','' (print_targets ts)) Map.empty = Inr (map_of ts)"
    using assms(2,3) by (simp add: parse_targets_print foldl_upd_map_of)
  moreover have "trim (print_targets ts) = print_targets ts" "print_targets ts \<noteq> []"
    using bg by (auto simp: trim_bounded_graphic) (simp add: bounded_graphic_def)
  ultimately show ?thesis
    using assms(4,5) by (simp add: load_targets_def env_or_default_def)
qed

text \<open>
  C30. A table of targets printed in the documented \<open>name=host:port,...\<close> format is read back exactly,
  and the identity of the spoke, its token and the hub are taken over verbatim.
\<close>
theorem load_client_config_print:
  assumes "ts \<noteq> []" and "\<forall>t \<in> set ts. printable_target t" and "distinct (map fst ts)"
    and "hub \<noteq> []" and "sp \<noteq> []" and "tok \<noteq> []"
  shows "load_client_config
      [''HUB_URL'' \<mapsto> hub, ''SPOKE_ID'' \<mapsto> sp, ''TUNNEL_TOKEN'' \<mapsto> tok, ''TARGETS'' \<mapsto> print_targets ts] =
    Inr \<lparr>cc_hub_url = hub, cc_spoke_id = sp, cc_token = tok, cc_targets = map_of ts,
         cc_insecure = False, cc_backoff_min = 1, cc_backoff_max = 30, cc_proxy_listen = None\<rparr>"
proof -
  let ?env = "[''HUB_URL'' \<mapsto> hub, ''SPOKE_ID'' \<mapsto> sp, ''TUNNEL_TOKEN'' \<mapsto> tok, ''TARGETS'' \<mapsto> print_targets ts]"
  have "load_targets ?env = Inr (map_of ts)"
    by (rule load_targets_printed [OF assms(1-3)]) simp_all
  moreover have "map_of ts \<noteq> Map.empty" using assms(1) by (cases ts) auto
  ultimately show ?thesis
    using assms(4-6) by (simp add: load_client_config_def env_or_default_def)
qed

definition sample_targets :: "(string \<times> string) list" where
  "sample_targets = [(''default'', ''mcp:8000''), (''api'', ''kubernetes.default.svc:443'')]"

theorem load_client_config_print_witness:
  "\<exists>cfg. load_client_config
      [''HUB_URL'' \<mapsto> ''hub:443'', ''SPOKE_ID'' \<mapsto> ''spoke-a'', ''TUNNEL_TOKEN'' \<mapsto> ''s3:cret'',
       ''TARGETS'' \<mapsto> print_targets sample_targets] = Inr cfg \<and>
     cc_targets cfg ''api'' = Some ''kubernetes.default.svc:443''"
proof -
  have "sample_targets \<noteq> []" "\<forall>t \<in> set sample_targets. printable_target t" "distinct (map fst sample_targets)"
    by (auto simp: sample_targets_def printable_target_def bounded_graphic_def graphic_def)
  from load_client_config_print [OF this, of "''hub:443''" "''spoke-a''" "''s3:cret''"]
  show ?thesis by (simp add: sample_targets_def)
qed

theorem load_client_config_wf_witness:
  "\<exists>cfg. load_client_config
      [''HUB_URL'' \<mapsto> ''hub:443'', ''SPOKE_ID'' \<mapsto> ''spoke-a'', ''TUNNEL_TOKEN'' \<mapsto> ''t'',
       ''TARGETS'' \<mapsto> print_targets sample_targets] = Inr cfg \<and>
     wf_target ''api'' ''kubernetes.default.svc:443'' \<and>
     named_in (trim (print_targets sample_targets)) ''api'' ''kubernetes.default.svc:443''"
proof -
  let ?env = "[''HUB_URL'' \<mapsto> ''hub:443'', ''SPOKE_ID'' \<mapsto> ''spoke-a'', ''TUNNEL_TOKEN'' \<mapsto> ''t'',
       ''TARGETS'' \<mapsto> print_targets sample_targets]"
  have "sample_targets \<noteq> []" "\<forall>t \<in> set sample_targets. printable_target t" "distinct (map fst sample_targets)"
    by (auto simp: sample_targets_def printable_target_def bounded_graphic_def graphic_def)
  then have m: "load_targets ?env = Inr (map_of sample_targets)" by (rule load_targets_printed) simp_all
  have "map_of sample_targets ''api'' \<noteq> None" by (simp add: sample_targets_def)
  then have "map_of sample_targets \<noteq> Map.empty" by auto
  with m obtain cfg where cfg: "load_client_config ?env = Inr cfg" "cc_targets cfg = map_of sample_targets"
    by (simp add: load_client_config_def env_or_default_def)
  have "cc_targets cfg ''api'' = Some ''kubernetes.default.svc:443''" by (simp add: cfg(2) sample_targets_def)
  with load_client_config_wf [OF cfg(1)]
  have "named_in (trim (env_or_default ?env ''TARGETS'')) ''api'' ''kubernetes.default.svc:443'' \<and>
      wf_target ''api'' ''kubernetes.default.svc:443''" by fastforce
  with cfg(1) show ?thesis by (simp add: env_or_default_def)
qed

text \<open>
  A \<open>default\<close> entry of \<open>TARGETS\<close> wins over the legacy \<open>TARGET\<close>, which only fills a missing one.
\<close>
theorem legacy_target_fills_default:
  "load_targets (env(''TARGET'' := None)) = Inr m \<Longrightarrow> x \<noteq> [] \<Longrightarrow>
   load_targets (env(''TARGET'' \<mapsto> x)) =
     Inr (case m ''default'' of Some _ \<Rightarrow> m | None \<Rightarrow> m(''default'' \<mapsto> x))"
  by (auto simp: load_targets_def env_or_default_def Let_def bind_result_Inr_iff split: option.splits if_splits)

theorem legacy_target_fills_default_witness:
  "load_targets ([''TARGETS'' \<mapsto> print_targets sample_targets](''TARGET'' \<mapsto> ''old:1'')) = Inr (map_of sample_targets)"
proof -
  have "sample_targets \<noteq> []" "\<forall>t \<in> set sample_targets. printable_target t" "distinct (map fst sample_targets)"
    by (auto simp: sample_targets_def printable_target_def bounded_graphic_def graphic_def)
  then have "load_targets ([''TARGETS'' \<mapsto> print_targets sample_targets](''TARGET'' := None)) = Inr (map_of sample_targets)"
    by (rule load_targets_printed) simp_all
  from legacy_target_fills_default [OF this, of "''old:1''"] show ?thesis
    by (simp add: sample_targets_def)
qed

end
