(* ===== verification/Client_State.thy ===== *)
theory Client_State
  imports Client_Config Tunnel_Proto Channels
begin

text \<open>
  The state of \<open>tunnel-client\<close>: the proxy state shared between sessions (\<open>SharedProxyState\<close>), the
  HTTP proxy handlers, the sessions (one gRPC stream each) and the pumps to the targets. As for the
  server, every \<open>Arc\<close> is an address into a store, and an operation is one segment of a task between
  two suspension points.
\<close>

section \<open>Frames\<close>

definition client_version :: string where
  "client_version = ''tc-rust/0.1.0''"

definition client_http_request :: "u64 \<Rightarrow> http_request \<Rightarrow> client_frame" where
  "client_http_request sid req = \<lparr>cf_stream_id = sid, cf_kind = Some (CHttpRequest req)\<rparr>"

definition client_close :: "u64 \<Rightarrow> bool \<Rightarrow> string \<Rightarrow> client_frame" where
  "client_close sid half reason =
     \<lparr>cf_stream_id = sid, cf_kind = Some (CClose \<lparr>cs_half = half, cs_reason = reason\<rparr>)\<rparr>"

definition client_data :: "u64 \<Rightarrow> bytes \<Rightarrow> client_frame" where
  "client_data sid payload = \<lparr>cf_stream_id = sid, cf_kind = Some (CData payload)\<rparr>"

definition client_handshake :: "string \<Rightarrow> string \<Rightarrow> client_frame" where
  "client_handshake spoke_id token =
     \<lparr>cf_stream_id = 0, cf_kind = Some (Handshake
        \<lparr>hs_spoke_id = spoke_id, hs_signature = as_bytes token, hs_client_ver = client_version\<rparr>)\<rparr>"

definition client_pong :: "i64 \<Rightarrow> client_frame" where
  "client_pong sent_at = \<lparr>cf_stream_id = 0, cf_kind = Some (Pong sent_at)\<rparr>"

section \<open>The HTTP proxy\<close>

text \<open>
  A request as axum hands it over: the path and query when the URI has one, and the headers in order
  with the result of \<open>HeaderValue::to_str\<close>. A response holds what the handler sets; what axum adds on
  its own (a content type for plain text) is not part of the model.
\<close>

record proxy_request =
  px_method :: string
  px_path_and_query :: "string option"
  px_path :: string
  px_headers :: "(string \<times> string option) list"

record proxy_response =
  ar_status :: u16
  ar_headers :: headers
  ar_body :: bytes

datatype handler_pc =
    HBody proxy_request
  | HHub http_request
  | HRegister nat u64 http_request
  | HSendReq nat u64 http_request
  | HUnsend u64
  | HWait u64
  | HTimeout u64
  | HAnswered proxy_response
  | HDropped

text \<open>
  One running \<open>handle_http_proxy\<close>: its position, the request it built, the identifier it allocated,
  and the slot of its one-shot channel (filled by a send, read once).
\<close>

record handler =
  hd_pc :: handler_pc
  hd_req :: "http_request option"
  hd_sid :: "u64 option"
  hd_slot :: "http_response option"

section \<open>Sessions and streams\<close>

datatype sess_ret = SessOk | SessErr string

datatype sess_pc =
    SConnect
  | SAttach
  | SRecv
  | SHandshake
  | SSend client_frame
  | SDeliver u64 nat bytes
  | SDetach sess_ret
  | SFlush sess_ret
  | SOver sess_ret

text \<open>One \<open>run_session\<close>: its outbound channel, the frames tonic took from it, the frames received.\<close>

record session =
  se_pc :: sess_pc
  se_chan :: "client_frame chan"
  se_sent :: "client_frame list"
  se_rcvd :: "server_frame list"
  se_streams :: "u64 \<rightharpoonup> nat"

datatype pump_pc =
    RDial string | RRefuse string | RLoop | RSendData bytes | RSendEof | RRemove | RDone

text \<open>One \<open>run_stream\<close>, with what it read from the target and what it wrote to it.\<close>

record pump =
  pu_sess :: nat
  pu_sid :: u64
  pu_chan :: "bytes chan"
  pu_pc :: pump_pc
  pu_read :: "bytes list"
  pu_written :: "bytes list"

section \<open>The state of the client\<close>

text \<open>\<open>cl_hub\<close>, \<open>cl_pending\<close> and \<open>cl_counter\<close> are the fields of \<open>SharedProxyState\<close>.\<close>

record client =
  cl_hub :: "nat option"
  cl_pending :: "u64 \<rightharpoonup> nat"
  cl_counter :: u64
  cl_handlers :: "nat \<rightharpoonup> handler"
  cl_sess :: "nat \<rightharpoonup> session"
  cl_pumps :: "nat \<rightharpoonup> pump"
  cl_cur :: "nat option"   \<comment> \<open>the session the main loop runs\<close>

definition client_init :: client where
  "client_init = \<lparr>cl_hub = None, cl_pending = Map.empty, cl_counter = 2 ^ 63,
     cl_handlers = Map.empty, cl_sess = Map.empty, cl_pumps = Map.empty, cl_cur = None\<rparr>"

definition upd_handler :: "nat \<Rightarrow> (handler \<Rightarrow> handler) \<Rightarrow> client \<Rightarrow> client" where
  "upd_handler h f s = s\<lparr>cl_handlers := (cl_handlers s)(h := map_option f (cl_handlers s h))\<rparr>"

definition upd_session :: "nat \<Rightarrow> (session \<Rightarrow> session) \<Rightarrow> client \<Rightarrow> client" where
  "upd_session c f s = s\<lparr>cl_sess := (cl_sess s)(c := map_option f (cl_sess s c))\<rparr>"

definition upd_pump :: "nat \<Rightarrow> (pump \<Rightarrow> pump) \<Rightarrow> client \<Rightarrow> client" where
  "upd_pump k f s = s\<lparr>cl_pumps := (cl_pumps s)(k := map_option f (cl_pumps s k))\<rparr>"

definition set_sess_pc :: "nat \<Rightarrow> sess_pc \<Rightarrow> client \<Rightarrow> client" where
  "set_sess_pc c pc s = upd_session c (\<lambda>se. se\<lparr>se_pc := pc\<rparr>) s"

definition set_handler_pc :: "nat \<Rightarrow> handler_pc \<Rightarrow> client \<Rightarrow> client" where
  "set_handler_pc h pc s = upd_handler h (\<lambda>hd. hd\<lparr>hd_pc := pc\<rparr>) s"

definition set_pump_pc :: "nat \<Rightarrow> pump_pc \<Rightarrow> client \<Rightarrow> client" where
  "set_pump_pc k pc s = upd_pump k (\<lambda>p. p\<lparr>pu_pc := pc\<rparr>) s"

text \<open>\<open>hub_tx.send(f)\<close> on the outbound channel of session \<open>c\<close>.\<close>

definition hub_send :: "nat \<Rightarrow> client_frame \<Rightarrow> client \<Rightarrow> client sent" where
  "hub_send c f s =
     (case cl_sess s c of
        None \<Rightarrow> SendErr
      | Some se \<Rightarrow>
          (case chan_send f (se_chan se) of
             SendWait \<Rightarrow> SendWait
           | SendErr \<Rightarrow> SendErr
           | SendOk ch \<Rightarrow> SendOk (upd_session c (\<lambda>se. se\<lparr>se_chan := ch\<rparr>) s)))"

text \<open>\<open>SharedProxyState\<close>: its operations.\<close>

definition next_stream_id :: "client \<Rightarrow> u64 \<times> client" where
  "next_stream_id s = (cl_counter s, s\<lparr>cl_counter := cl_counter s + 1\<rparr>)"

definition attach_hub :: "nat \<Rightarrow> client \<Rightarrow> client" where
  "attach_hub c s = s\<lparr>cl_hub := Some c\<rparr>"

definition flush_response :: http_response where
  "flush_response = \<lparr>rs_status = 503, rs_headers = [], rs_body = as_bytes ''tunnel session ended'',
     rs_error = ''tunnel session ended''\<rparr>"

text \<open>
  \<open>detach_hub_and_flush\<close>: first the sender is taken away, then the map is drained under its lock and
  every drained one-shot answered; a drained handler is one some identifier maps to.
\<close>

definition detach_hub :: "client \<Rightarrow> client" where
  "detach_hub s = s\<lparr>cl_hub := None\<rparr>"

text \<open>\<open>oneshot::Sender::send\<close>: fills the slot of a handler that still waits; else the value is lost.\<close>

definition oneshot_send :: "http_response \<Rightarrow> handler \<Rightarrow> handler" where
  "oneshot_send r x = x\<lparr>hd_slot := Some r\<rparr>"

definition holds_sender :: "client \<Rightarrow> nat \<Rightarrow> handler \<Rightarrow> bool" where
  "holds_sender s h x \<longleftrightarrow> (case hd_sid x of None \<Rightarrow> False | Some sid \<Rightarrow> cl_pending s sid = Some h)"

definition flush_pending :: "client \<Rightarrow> client" where
  "flush_pending s =
     s\<lparr>cl_handlers := (\<lambda>h. map_option
            (\<lambda>hd. if holds_sender s h hd then oneshot_send flush_response hd else hd) (cl_handlers s h)),
       cl_pending := Map.empty\<rparr>"

definition pending_remove :: "u64 \<Rightarrow> client \<Rightarrow> client" where
  "pending_remove sid s = s\<lparr>cl_pending := (cl_pending s)(sid := None)\<rparr>"

end
