(* ===== verification/Client_Proxy.thy ===== *)
theory Client_Proxy
  imports Client_State
begin

text \<open>
  \<open>handle_http_proxy\<close> of \<open>tunnel-client\<close>: one local HTTP request becomes one \<open>HttpRequest\<close> frame
  with a fresh identifier from \<open>2^63\<close> on, and is answered when the response with that identifier
  arrives, when the session ends, or after 60 seconds.
\<close>

section \<open>The HTTP library as a parameter\<close>

text \<open>
  What \<open>HeaderName::try_from\<close> and \<open>HeaderValue::try_from\<close> make of a string (\<open>None\<close> for an error),
  the error \<open>Response::builder\<close> reports for a response, if any, and the \<open>Debug\<close> form of a string.
\<close>

record http_lib =
  hl_name :: "string \<Rightarrow> string option"
  hl_value :: "string \<Rightarrow> string option"
  hl_build :: "proxy_response \<Rightarrow> string option"
  hl_debug :: "string \<Rightarrow> string"

section \<open>Responses\<close>

definition text_response :: "u16 \<Rightarrow> string \<Rightarrow> proxy_response" where
  "text_response status body = \<lparr>ar_status = status, ar_headers = [], ar_body = as_bytes body\<rparr>"

text \<open>
  \<open>StatusCode::from_u16(status as u16).unwrap_or(BAD_GATEWAY)\<close>: the cast keeps the low 16 bits, and
  a status code has three digits.
\<close>

definition status_of :: "i32 \<Rightarrow> u16" where
  "status_of st =
     (let w = (ucast st :: u16) in if 100 \<le> unat w \<and> unat w \<le> 999 then w else 502)"

text \<open>The status, the headers and the body chosen from a response frame.\<close>

definition response_parts :: "http_response \<Rightarrow> u16 \<times> headers \<times> bytes" where
  "response_parts r =
     (if rs_error r = [] then (status_of (rs_status r), rs_headers r, rs_body r)
      else if 0 < sint (rs_status r) then
        (status_of (rs_status r), rs_headers r,
         if rs_body r = [] then as_bytes (rs_error r) else rs_body r)
      else (502, [], as_bytes (rs_error r)))"

fun response_headers :: "http_lib \<Rightarrow> headers \<Rightarrow> headers" where
  "response_headers lib [] = []"
| "response_headers lib ((name, value) # hs) =
     (case (hl_name lib name, hl_value lib value) of
        (Some n, Some v) \<Rightarrow> (n, v) # response_headers lib hs
      | _ \<Rightarrow> response_headers lib hs)"

definition build_response :: "http_lib \<Rightarrow> http_response \<Rightarrow> proxy_response" where
  "build_response lib r =
     (let (status, hs, body) = response_parts r;
          resp = \<lparr>ar_status = status, ar_headers = response_headers lib hs, ar_body = body\<rparr>
      in case hl_build lib resp of
           None \<Rightarrow> resp
         | Some e \<Rightarrow> text_response 500 (''build failed: '' @ e))"

section \<open>The segments of a handler\<close>

datatype body_outcome = BodyOk bytes | BodyErr string

datatype wait_outcome = WaitPoll | WaitTimeout

datatype handler_input = InBody body_outcome | InWait wait_outcome | InGo

definition body_cap :: int where
  "body_cap = 32 * 1024 * 1024"

definition hd_open :: "nat \<Rightarrow> proxy_request \<Rightarrow> client \<Rightarrow> client option" where
  "hd_open h req s =
     (if cl_handlers s h \<noteq> None then None
      else Some (s\<lparr>cl_handlers := (cl_handlers s)(h \<mapsto> \<lparr>hd_pc = HBody req, hd_req = None, hd_sid = None, hd_slot = None\<rparr>)\<rparr>))"

definition hd_body :: "nat \<Rightarrow> proxy_request \<Rightarrow> body_outcome \<Rightarrow> client \<Rightarrow> client option" where
  "hd_body h req r s =
     (case r of
        BodyErr e \<Rightarrow> Some (set_handler_pc h (HAnswered (text_response 400 (''body read failed: '' @ e))) s)
      | BodyOk body \<Rightarrow>
          if body_cap < int (length body) then None
          else
            (let rq = \<lparr>rq_method = px_method req,
               rq_path = (case px_path_and_query req of Some pq \<Rightarrow> pq | None \<Rightarrow> px_path req),
               rq_headers = collect_headers (px_headers req) [], rq_body = body\<rparr>
             in Some (upd_handler h (\<lambda>x. x\<lparr>hd_pc := HHub rq, hd_req := Some rq\<rparr>) s)))"

definition hd_hub :: "nat \<Rightarrow> http_request \<Rightarrow> client \<Rightarrow> client" where
  "hd_hub h req s =
     (case cl_hub s of
        None \<Rightarrow> set_handler_pc h (HAnswered (text_response 503 ''tunnel not connected'')) s
      | Some c \<Rightarrow>
          (let (sid, s') = next_stream_id s in
           upd_handler h (\<lambda>x. x\<lparr>hd_pc := HRegister c sid req, hd_sid := Some sid\<rparr>) s'))"

definition hd_register :: "nat \<Rightarrow> nat \<Rightarrow> u64 \<Rightarrow> http_request \<Rightarrow> client \<Rightarrow> client" where
  "hd_register h c sid req s =
     set_handler_pc h (HSendReq c sid req) (s\<lparr>cl_pending := (cl_pending s)(sid \<mapsto> h)\<rparr>)"

definition hd_send :: "nat \<Rightarrow> nat \<Rightarrow> u64 \<Rightarrow> http_request \<Rightarrow> client \<Rightarrow> client option" where
  "hd_send h c sid req s =
     (case hub_send c (client_http_request sid req) s of
        SendWait \<Rightarrow> None
      | SendErr \<Rightarrow> Some (set_handler_pc h (HUnsend sid) s)
      | SendOk s' \<Rightarrow> Some (set_handler_pc h (HWait sid) s'))"

definition hd_unsend :: "nat \<Rightarrow> u64 \<Rightarrow> client \<Rightarrow> client" where
  "hd_unsend h sid s =
     set_handler_pc h (HAnswered (text_response 503 ''tunnel send failed'')) (pending_remove sid s)"

text \<open>
  \<open>timeout(60 s, resp_rx)\<close> looks at the one-shot first, so it times out only while the slot is empty
  and the sender is still there.
\<close>

definition hd_wait :: "http_lib \<Rightarrow> nat \<Rightarrow> u64 \<Rightarrow> wait_outcome \<Rightarrow> client \<Rightarrow> client option" where
  "hd_wait lib h sid w s =
     (case cl_handlers s h of
        None \<Rightarrow> None
      | Some x \<Rightarrow>
          (case hd_slot x of
             Some r \<Rightarrow> Some (set_handler_pc h (HAnswered (build_response lib r)) s)
           | None \<Rightarrow>
               if \<not> holds_sender s h x
               then Some (set_handler_pc h (HAnswered (text_response 502 ''response channel closed'')) s)
               else (case w of
                       WaitPoll \<Rightarrow> None
                     | WaitTimeout \<Rightarrow> Some (set_handler_pc h (HTimeout sid) s))))"

definition hd_timeout :: "nat \<Rightarrow> u64 \<Rightarrow> client \<Rightarrow> client" where
  "hd_timeout h sid s =
     set_handler_pc h (HAnswered (text_response 504 ''hub response timeout'')) (pending_remove sid s)"

definition hd_step :: "http_lib \<Rightarrow> nat \<Rightarrow> handler_input \<Rightarrow> client \<Rightarrow> client option" where
  "hd_step lib h inp s =
     (case cl_handlers s h of
        None \<Rightarrow> None
      | Some x \<Rightarrow>
          (case (hd_pc x, inp) of
             (HBody req, InBody r) \<Rightarrow> hd_body h req r s
           | (HHub req, InGo) \<Rightarrow> Some (hd_hub h req s)
           | (HRegister c sid req, InGo) \<Rightarrow> Some (hd_register h c sid req s)
           | (HSendReq c sid req, InGo) \<Rightarrow> hd_send h c sid req s
           | (HUnsend sid, InGo) \<Rightarrow> Some (hd_unsend h sid s)
           | (HWait sid, InWait w) \<Rightarrow> hd_wait lib h sid w s
           | (HTimeout sid, InGo) \<Rightarrow> Some (hd_timeout h sid s)
           | _ \<Rightarrow> None))"

text \<open>axum drops a handler whose caller went away; its entry in the map of pending requests stays.\<close>

definition hd_cancel :: "nat \<Rightarrow> client \<Rightarrow> client option" where
  "hd_cancel h s =
     (case cl_handlers s h of
        None \<Rightarrow> None
      | Some x \<Rightarrow>
          (case hd_pc x of
             HAnswered _ \<Rightarrow> None
           | HDropped \<Rightarrow> None
           | _ \<Rightarrow> Some (set_handler_pc h HDropped s)))"

end
