(* ===== verification/Client_Session.thy ===== *)
theory Client_Session
  imports Client_Proxy Machines
begin

text \<open>
  \<open>run_session\<close> with \<open>run_session_impl\<close> inlined, and \<open>run_stream\<close>: the dispatch of the frames from
  the hub, and one pump per opened stream.
\<close>

section \<open>The endpoint\<close>

definition hub_uri :: "client_config \<Rightarrow> string" where
  "hub_uri cfg = (if cc_insecure cfg then ''http'' else ''https'') @ ''://'' @ cc_hub_url cfg"

text \<open>The name the TLS certificate is checked against: the hub without its port.\<close>

definition tls_host :: "client_config \<Rightarrow> string" where
  "tls_host cfg = (case rsplit_once CHR '':'' (cc_hub_url cfg) of Some (h, _) \<Rightarrow> h | None \<Rightarrow> cc_hub_url cfg)"

section \<open>Starting a session\<close>

text \<open>
  The main loop starts a session when none runs. Setting up the transport and the call either fails,
  which ends the session with an error, or yields the two directions of the stream.
\<close>

datatype connect_outcome = Connected | ConnectFailed string

definition se_start :: "nat \<Rightarrow> client \<Rightarrow> client option" where
  "se_start c s =
     (if cl_sess s c \<noteq> None then None
      else if (case cl_cur s of None \<Rightarrow> True
               | Some d \<Rightarrow> (case cl_sess s d of Some se \<Rightarrow> (case se_pc se of SOver _ \<Rightarrow> True | _ \<Rightarrow> False)
                                           | None \<Rightarrow> True))
      then Some (s\<lparr>cl_cur := Some c,
                   cl_sess := (cl_sess s)(c \<mapsto> \<lparr>se_pc = SConnect, se_chan = channel 256,
                     se_sent = [], se_rcvd = [], se_streams = Map.empty\<rparr>)\<rparr>)
      else None)"

definition se_connect :: "nat \<Rightarrow> connect_outcome \<Rightarrow> client \<Rightarrow> client" where
  "se_connect c r s =
     (case r of
        Connected \<Rightarrow> set_sess_pc c SAttach s
      | ConnectFailed e \<Rightarrow> set_sess_pc c (SDetach (SessErr e)) s)"

definition se_attach :: "nat \<Rightarrow> client \<Rightarrow> client" where
  "se_attach c s = set_sess_pc c SRecv (attach_hub c s)"

section \<open>Frames from the hub\<close>

datatype inbound = InFrame server_frame nat | InStatus string | InEnd

definition log_inbound :: "nat \<Rightarrow> server_frame \<Rightarrow> client \<Rightarrow> client" where
  "log_inbound c f s = upd_session c (\<lambda>se. se\<lparr>se_rcvd := se_rcvd se @ [f]\<rparr>) s"

definition pump_new :: "nat \<Rightarrow> u64 \<Rightarrow> string \<Rightarrow> pump" where
  "pump_new c sid target =
     \<lparr>pu_sess = c, pu_sid = sid, pu_chan = channel 64, pu_pc = RDial target, pu_read = [], pu_written = []\<rparr>"

definition se_open :: "client_config \<Rightarrow> http_lib \<Rightarrow> nat \<Rightarrow> u64 \<Rightarrow> open_stream \<Rightarrow> nat \<Rightarrow> client \<Rightarrow> client" where
  "se_open cfg lib c sid op k s =
     (let name = (if os_target op = [] then ''default'' else os_target op) in
      case cc_targets cfg name of
        None \<Rightarrow> set_sess_pc c (SSend (client_close sid False (''unknown target '' @ hl_debug lib name))) s
      | Some target \<Rightarrow>
          upd_session c (\<lambda>se. se\<lparr>se_streams := (se_streams se)(sid \<mapsto> k)\<rparr>)
            (s\<lparr>cl_pumps := (cl_pumps s)(k \<mapsto> pump_new c sid target)\<rparr>))"

definition se_data :: "nat \<Rightarrow> u64 \<Rightarrow> bytes \<Rightarrow> client \<Rightarrow> client" where
  "se_data c sid payload s =
     (case cl_sess s c of
        None \<Rightarrow> s
      | Some se \<Rightarrow>
          (case se_streams se sid of
             None \<Rightarrow> s
           | Some k \<Rightarrow> set_sess_pc c (SDeliver sid k payload) s))"

definition streams_remove :: "nat \<Rightarrow> u64 \<Rightarrow> client \<Rightarrow> client" where
  "streams_remove c sid s = upd_session c (\<lambda>se. se\<lparr>se_streams := (se_streams se)(sid := None)\<rparr>) s"

definition se_response :: "u64 \<Rightarrow> http_response \<Rightarrow> client \<Rightarrow> client" where
  "se_response sid r s =
     (case cl_pending s sid of
        None \<Rightarrow> s
      | Some h \<Rightarrow> upd_handler h (oneshot_send r) (pending_remove sid s))"

definition se_frame ::
  "client_config \<Rightarrow> http_lib \<Rightarrow> nat \<Rightarrow> server_frame \<Rightarrow> nat \<Rightarrow> client \<Rightarrow> client" where
  "se_frame cfg lib c f k s =
     (case sf_kind f of
        Some (Challenge _) \<Rightarrow> set_sess_pc c SHandshake s
      | Some (Open op) \<Rightarrow> se_open cfg lib c (sf_stream_id f) op k s
      | Some (SData payload) \<Rightarrow> se_data c (sf_stream_id f) payload s
      | Some (SClose _) \<Rightarrow> streams_remove c (sf_stream_id f) s
      | Some (Ping sent_at) \<Rightarrow> set_sess_pc c (SSend (client_pong sent_at)) s
      | Some (SHttpResponse r) \<Rightarrow> se_response (sf_stream_id f) r s
      | None \<Rightarrow> s)"

definition se_recv ::
  "client_config \<Rightarrow> http_lib \<Rightarrow> nat \<Rightarrow> inbound \<Rightarrow> client \<Rightarrow> client option" where
  "se_recv cfg lib c r s =
     (case r of
        InFrame f k \<Rightarrow>
          if cl_pumps s k \<noteq> None then None else Some (se_frame cfg lib c f k (log_inbound c f s))
      | InStatus e \<Rightarrow> Some (set_sess_pc c (SDetach (SessErr e)) s)
      | InEnd \<Rightarrow> Some (set_sess_pc c (SDetach SessOk) s))"

text \<open>The sends inside the dispatch: the handshake must succeed, the others may fail.\<close>

definition se_handshake :: "client_config \<Rightarrow> nat \<Rightarrow> client \<Rightarrow> client option" where
  "se_handshake cfg c s =
     (case hub_send c (client_handshake (cc_spoke_id cfg) (cc_token cfg)) s of
        SendWait \<Rightarrow> None
      | SendErr \<Rightarrow> Some (set_sess_pc c (SDetach (SessErr ''failed to send handshake (hub_tx closed)'')) s)
      | SendOk s' \<Rightarrow> Some (set_sess_pc c SRecv s'))"

definition se_send :: "nat \<Rightarrow> client_frame \<Rightarrow> client \<Rightarrow> client option" where
  "se_send c f s =
     (case hub_send c f s of
        SendWait \<Rightarrow> None
      | SendErr \<Rightarrow> Some (set_sess_pc c SRecv s)
      | SendOk s' \<Rightarrow> Some (set_sess_pc c SRecv s'))"

definition se_deliver :: "nat \<Rightarrow> nat \<Rightarrow> bytes \<Rightarrow> client \<Rightarrow> client option" where
  "se_deliver c k payload s =
     (case cl_pumps s k of
        None \<Rightarrow> Some (set_sess_pc c SRecv s)
      | Some p \<Rightarrow>
          (case chan_send payload (pu_chan p) of
             SendWait \<Rightarrow> None
           | SendErr \<Rightarrow> Some (set_sess_pc c SRecv s)
           | SendOk ch \<Rightarrow> Some (set_sess_pc c SRecv (upd_pump k (\<lambda>p. p\<lparr>pu_chan := ch\<rparr>) s))))"

text \<open>
  The wrapper's end: detach, then flush. The map of streams is not cleared: every pump that is still
  running holds the map, and with it the senders of all inbound channels.
\<close>

definition se_detach :: "nat \<Rightarrow> sess_ret \<Rightarrow> client \<Rightarrow> client" where
  "se_detach c r s = set_sess_pc c (SFlush r) (detach_hub s)"

definition se_flush :: "nat \<Rightarrow> sess_ret \<Rightarrow> client \<Rightarrow> client" where
  "se_flush c r s = set_sess_pc c (SOver r) (flush_pending s)"

datatype sess_input = InConnect connect_outcome | InHub inbound | InNext

definition se_step ::
  "client_config \<Rightarrow> http_lib \<Rightarrow> nat \<Rightarrow> sess_input \<Rightarrow> client \<Rightarrow> client option" where
  "se_step cfg lib c inp s =
     (case cl_sess s c of
        None \<Rightarrow> None
      | Some se \<Rightarrow>
          (case (se_pc se, inp) of
             (SConnect, InConnect r) \<Rightarrow> Some (se_connect c r s)
           | (SAttach, InNext) \<Rightarrow> Some (se_attach c s)
           | (SRecv, InHub r) \<Rightarrow> se_recv cfg lib c r s
           | (SHandshake, InNext) \<Rightarrow> se_handshake cfg c s
           | (SSend f, InNext) \<Rightarrow> se_send c f s
           | (SDeliver sid k payload, InNext) \<Rightarrow> se_deliver c k payload s
           | (SDetach r, InNext) \<Rightarrow> Some (se_detach c r s)
           | (SFlush r, InNext) \<Rightarrow> Some (se_flush c r s)
           | _ \<Rightarrow> None))"

section \<open>The pump of a stream\<close>

datatype dial_outcome = DialOk | DialErr string | DialTimeout

text \<open>The \<open>select!\<close> in the loop: the target was read, or a payload (or the end) came from the hub.\<close>

datatype pump_event =
    PuDial dial_outcome
  | PuReadBytes bytes
  | PuReadEof
  | PuReadErr
  | PuRecv bool   \<comment> \<open>a received payload, if any, is written successfully or not\<close>
  | PuGo

definition pu_dial :: "nat \<Rightarrow> dial_outcome \<Rightarrow> client \<Rightarrow> client" where
  "pu_dial k r s =
     (case r of
        DialOk \<Rightarrow> set_pump_pc k RLoop s
      | DialErr e \<Rightarrow> set_pump_pc k (RRefuse e) s
      | DialTimeout \<Rightarrow> set_pump_pc k (RRefuse ''dial timeout'') s)"

definition client_read_buffer :: int where
  "client_read_buffer = 32 * 1024"

definition pu_got :: "nat \<Rightarrow> bytes \<Rightarrow> client \<Rightarrow> client option" where
  "pu_got k bs s =
     (if bs = [] \<or> client_read_buffer < int (length bs) then None
      else Some (upd_pump k (\<lambda>p. p\<lparr>pu_pc := RSendData bs, pu_read := pu_read p @ [bs]\<rparr>) s))"

text \<open>The inbound channel has a sender while the session's map holds it or the session sends on it.\<close>

definition inbound_alive :: "nat \<Rightarrow> pump \<Rightarrow> client \<Rightarrow> bool" where
  "inbound_alive k p s \<longleftrightarrow>
     (case cl_sess s (pu_sess p) of
        None \<Rightarrow> False
      | Some se \<Rightarrow>
          se_streams se (pu_sid p) = Some k \<or>
          (case se_pc se of SDeliver _ k' _ \<Rightarrow> k' = k | _ \<Rightarrow> False))"

definition pu_recv :: "nat \<Rightarrow> pump \<Rightarrow> bool \<Rightarrow> client \<Rightarrow> client option" where
  "pu_recv k p ok s =
     (case chan_recv (pu_chan p) of
        Some (payload, ch) \<Rightarrow>
          if ok
          then Some (upd_pump k (\<lambda>p. p\<lparr>pu_chan := ch, pu_written := pu_written p @ [payload]\<rparr>) s)
          else Some (upd_pump k (\<lambda>p. p\<lparr>pu_chan := ch, pu_pc := RRemove\<rparr>) s)
      | None \<Rightarrow> if inbound_alive k p s then None else Some (set_pump_pc k RRemove s))"

definition pu_send_data :: "nat \<Rightarrow> pump \<Rightarrow> bytes \<Rightarrow> client \<Rightarrow> client option" where
  "pu_send_data k p bs s =
     (case hub_send (pu_sess p) (client_data (pu_sid p) bs) s of
        SendWait \<Rightarrow> None
      | SendErr \<Rightarrow> Some (set_pump_pc k RRemove s)
      | SendOk s' \<Rightarrow> Some (set_pump_pc k RLoop s'))"

text \<open>A \<open>Close\<close> frame, whose failure is ignored, then the end of the task.\<close>

definition pu_send_close :: "nat \<Rightarrow> pump \<Rightarrow> client_frame \<Rightarrow> client \<Rightarrow> client option" where
  "pu_send_close k p f s =
     (case hub_send (pu_sess p) f s of
        SendWait \<Rightarrow> None
      | SendErr \<Rightarrow> Some (set_pump_pc k RRemove s)
      | SendOk s' \<Rightarrow> Some (set_pump_pc k RRemove s'))"

definition pu_remove :: "nat \<Rightarrow> pump \<Rightarrow> client \<Rightarrow> client" where
  "pu_remove k p s =
     upd_pump k (\<lambda>p. p\<lparr>pu_pc := RDone, pu_chan := chan_drop_rx (pu_chan p)\<rparr>)
       (streams_remove (pu_sess p) (pu_sid p) s)"

definition pu_step :: "nat \<Rightarrow> pump_event \<Rightarrow> client \<Rightarrow> client option" where
  "pu_step k e s =
     (case cl_pumps s k of
        None \<Rightarrow> None
      | Some p \<Rightarrow>
          (case (pu_pc p, e) of
             (RDial _, PuDial r) \<Rightarrow> Some (pu_dial k r s)
           | (RRefuse reason, PuGo) \<Rightarrow> pu_send_close k p (client_close (pu_sid p) False reason) s
           | (RLoop, PuReadBytes bs) \<Rightarrow> pu_got k bs s
           | (RLoop, PuReadEof) \<Rightarrow> Some (set_pump_pc k RSendEof s)
           | (RLoop, PuReadErr) \<Rightarrow> Some (set_pump_pc k RSendEof s)
           | (RLoop, PuRecv ok) \<Rightarrow> pu_recv k p ok s
           | (RSendData bs, PuGo) \<Rightarrow> pu_send_data k p bs s
           | (RSendEof, PuGo) \<Rightarrow> pu_send_close k p (client_close (pu_sid p) True ''eof'') s
           | (RRemove, PuGo) \<Rightarrow> Some (pu_remove k p s)
           | _ \<Rightarrow> None))"

section \<open>The whole client\<close>

datatype cl_event =
    CvRequest nat proxy_request
  | CvHandler nat handler_input
  | CvCancel nat
  | CvStart nat
  | CvSess nat sess_input
  | CvPump nat pump_event
  | CvTake nat
  | CvDropRx nat

text \<open>tonic takes a frame from the outbound channel of a call, or drops it with the call.\<close>

definition cl_take :: "nat \<Rightarrow> client \<Rightarrow> client option" where
  "cl_take c s =
     (case cl_sess s c of
        None \<Rightarrow> None
      | Some se \<Rightarrow>
          (case chan_recv (se_chan se) of
             None \<Rightarrow> None
           | Some (f, ch) \<Rightarrow>
               if ch_rx (se_chan se)
               then Some (upd_session c (\<lambda>se. se\<lparr>se_chan := ch, se_sent := se_sent se @ [f]\<rparr>) s)
               else None))"

definition cl_drop_rx :: "nat \<Rightarrow> client \<Rightarrow> client option" where
  "cl_drop_rx c s =
     (if cl_sess s c = None then None
      else Some (upd_session c (\<lambda>se. se\<lparr>se_chan := chan_drop_rx (se_chan se)\<rparr>) s))"

fun cl_step :: "client_config \<Rightarrow> http_lib \<Rightarrow> cl_event \<Rightarrow> client \<Rightarrow> client option" where
  "cl_step cfg lib (CvRequest h req) s = hd_open h req s"
| "cl_step cfg lib (CvHandler h inp) s = hd_step lib h inp s"
| "cl_step cfg lib (CvCancel h) s = hd_cancel h s"
| "cl_step cfg lib (CvStart c) s = se_start c s"
| "cl_step cfg lib (CvSess c inp) s = se_step cfg lib c inp s"
| "cl_step cfg lib (CvPump k e) s = pu_step k e s"
| "cl_step cfg lib (CvTake c) s = cl_take c s"
| "cl_step cfg lib (CvDropRx c) s = cl_drop_rx c s"

fun cl_run :: "client_config \<Rightarrow> http_lib \<Rightarrow> cl_event list \<Rightarrow> client \<Rightarrow> client option" where
  "cl_run cfg lib [] s = Some s"
| "cl_run cfg lib (e # es) s = Option.bind (cl_step cfg lib e s) (cl_run cfg lib es)"

inductive cl_reach :: "client_config \<Rightarrow> http_lib \<Rightarrow> nat \<Rightarrow> client \<Rightarrow> bool" for cfg lib where
  cl_reach_init: "cl_reach cfg lib 0 client_init"
| cl_reach_step: "cl_reach cfg lib n s \<Longrightarrow> cl_step cfg lib e s = Some s' \<Longrightarrow> cl_reach cfg lib (Suc n) s'"

interpretation spoke: machine "cl_step cfg lib" "cl_run cfg lib" "cl_reach cfg lib" client_init for cfg lib
  by unfold_locales (auto intro: cl_reach_init cl_reach_step elim: cl_reach.cases)

lemmas cl_run_obtains = spoke.run_obtains

end
