(* ===== verification/Client_Demo.thy ===== *)
theory Client_Demo
  imports Client_Session
begin

text \<open>
  A small concrete client and the event sequences that the witnesses run: one target, the HTTP
  library taken as permissive.
\<close>

definition demo_client :: client_config where
  "demo_client = \<lparr>cc_hub_url = ''hub:443'', cc_spoke_id = ''app-b'', cc_token = ''t'',
     cc_targets = [''default'' \<mapsto> ''mcp:8000''], cc_insecure = False, cc_backoff_min = 1,
     cc_backoff_max = 30, cc_proxy_listen = Some ''0.0.0.0:8080''\<rparr>"

definition demo_lib :: http_lib where
  "demo_lib = \<lparr>hl_name = Some, hl_value = Some, hl_build = (\<lambda>_. None), hl_debug = (\<lambda>s. s)\<rparr>"

text \<open>Session \<open>c\<close> is set up and attached.\<close>

definition online_events :: "nat \<Rightarrow> cl_event list" where
  "online_events c = [CvStart c, CvSess c (InConnect Connected), CvSess c InNext]"

definition triage :: proxy_request where
  "triage = \<lparr>px_method = ''POST'', px_path_and_query = Some ''/core/orchestrator/triage'',
     px_path = ''/core/orchestrator/triage'', px_headers = [(''accept'', Some ''*/*'')]\<rparr>"

text \<open>Handler \<open>h\<close> takes a request up to the point where it holds the sender and an identifier.\<close>

definition request_events :: "nat \<Rightarrow> cl_event list" where
  "request_events h = [CvRequest h triage, CvHandler h (InBody (BodyOk [])), CvHandler h InGo]"

definition sent_events :: "nat \<Rightarrow> cl_event list" where
  "sent_events h = request_events h @ [CvHandler h InGo, CvHandler h InGo]"

definition reply :: http_response where
  "reply = \<lparr>rs_status = 200, rs_headers = [], rs_body = [1], rs_error = []\<rparr>"

definition reply_frame :: server_frame where
  "reply_frame = \<lparr>sf_stream_id = 2 ^ 63, sf_kind = Some (SHttpResponse reply)\<rparr>"

definition close_events :: "nat \<Rightarrow> cl_event list" where
  "close_events c = [CvSess c (InHub InEnd), CvSess c InNext, CvSess c InNext]"

end
