(* ===== verification/Client_Safety.thy ===== *)
theory Client_Safety
  imports Client_Demo
begin

text \<open>
  What the HTTP proxy of the client guarantees for every interleaving of handlers, sessions, pumps
  and reconnections: identifiers are fresh, and a handler answers its caller with the response the
  hub sent for its own identifier, or with one of the client's own error answers.
\<close>

section \<open>The steps that touch the proxy state\<close>

text \<open>A response frame for \<open>sid\<close> with content \<open>r\<close> was received in some session.\<close>

definition responded :: "client \<Rightarrow> u64 \<Rightarrow> http_response \<Rightarrow> bool" where
  "responded s sid r \<longleftrightarrow>
     (\<exists>c se f. cl_sess s c = Some se \<and> f \<in> set (se_rcvd se) \<and> sf_stream_id f = sid \<and>
        sf_kind f = Some (SHttpResponse r))"

definition rcvd_kept :: "client \<Rightarrow> client \<Rightarrow> bool" where
  "rcvd_kept s s' \<longleftrightarrow>
     (\<forall>c se. cl_sess s c = Some se \<longrightarrow>
        (\<exists>se'. cl_sess s' c = Some se' \<and> set (se_rcvd se) \<subseteq> set (se_rcvd se')))"

lemma responded_kept: "rcvd_kept s s' \<Longrightarrow> responded s sid r \<Longrightarrow> responded s' sid r"
  unfolding rcvd_kept_def responded_def by blast

lemma rcvd_kept_same: "cl_sess s' = cl_sess s \<Longrightarrow> rcvd_kept s s'"
  by (auto simp: rcvd_kept_def)

lemma rcvd_kept_trans: "rcvd_kept s t \<Longrightarrow> rcvd_kept t u \<Longrightarrow> rcvd_kept s u"
  unfolding rcvd_kept_def by (metis order_trans)

lemma rcvd_kept_upd:
  "(\<And>se. set (se_rcvd se) \<subseteq> set (se_rcvd (f se))) \<Longrightarrow> rcvd_kept s (upd_session c f s)"
  by (auto simp: rcvd_kept_def upd_session_def)

text \<open>The fields of the proxy state and the table of handlers.\<close>

definition proxy_same :: "client \<Rightarrow> client \<Rightarrow> bool" where
  "proxy_same s s' \<longleftrightarrow>
     cl_pending s' = cl_pending s \<and> cl_counter s' = cl_counter s \<and> cl_handlers s' = cl_handlers s"

lemma proxy_same_refl [simp]: "proxy_same s s"
  by (simp add: proxy_same_def)

lemma client_ops [simp]:
  "cl_pending (upd_session c f s) = cl_pending s" "cl_counter (upd_session c f s) = cl_counter s"
  "cl_handlers (upd_session c f s) = cl_handlers s" "cl_pumps (upd_session c f s) = cl_pumps s"
  "cl_hub (upd_session c f s) = cl_hub s"
  "cl_pending (upd_pump k g s) = cl_pending s" "cl_counter (upd_pump k g s) = cl_counter s"
  "cl_handlers (upd_pump k g s) = cl_handlers s" "cl_sess (upd_pump k g s) = cl_sess s"
  "cl_hub (upd_pump k g s) = cl_hub s"
  "cl_pending (upd_handler h j s) = cl_pending s" "cl_counter (upd_handler h j s) = cl_counter s"
  "cl_sess (upd_handler h j s) = cl_sess s" "cl_hub (upd_handler h j s) = cl_hub s"
  "cl_pumps (upd_handler h j s) = cl_pumps s"
  "cl_counter (pending_remove sid s) = cl_counter s" "cl_handlers (pending_remove sid s) = cl_handlers s"
  "cl_sess (pending_remove sid s) = cl_sess s" "cl_hub (pending_remove sid s) = cl_hub s"
  "cl_pending (pending_remove sid s) = (cl_pending s)(sid := None)"
  "cl_handlers (upd_handler h j s) i = (if i = h then map_option j (cl_handlers s h) else cl_handlers s i)"
  by (simp_all add: upd_session_def upd_pump_def upd_handler_def pending_remove_def)

lemmas client_pcs = set_sess_pc_def set_pump_pc_def set_handler_pc_def streams_remove_def log_inbound_def

definition kept :: "client \<Rightarrow> client \<Rightarrow> bool" where
  "kept s s' \<longleftrightarrow> proxy_same s s' \<and> rcvd_kept s s'"

lemma keptI [intro]:
  "kept s s"
  "kept s t \<Longrightarrow> kept s (upd_pump k g t)"
  "kept s t \<Longrightarrow> kept s (t\<lparr>cl_pumps := x\<rparr>)" "kept s t \<Longrightarrow> kept s (t\<lparr>cl_hub := y\<rparr>)"
  "kept s t \<Longrightarrow> (\<And>se. set (se_rcvd se) \<subseteq> set (se_rcvd (f se))) \<Longrightarrow> kept s (upd_session c f t)"
  using rcvd_kept_trans [OF _ rcvd_kept_upd]
  by (auto simp: kept_def proxy_same_def rcvd_kept_def)

lemma hub_send_upd:
  "hub_send c f s = SendOk s' \<Longrightarrow> \<exists>ch. s' = upd_session c (\<lambda>se. se\<lparr>se_chan := ch\<rparr>) s"
  by (auto simp: hub_send_def split: option.splits sent.splits)

lemma kept_pump_step: "pu_step k e s = Some s' \<Longrightarrow> kept s s'"
  by (auto simp: pu_step_def pu_dial_def pu_got_def pu_recv_def pu_send_data_def pu_send_close_def
      pu_remove_def client_pcs intro!: keptI dest!: hub_send_upd
      split: option.splits pump_pc.splits pump_event.splits dial_outcome.splits sent.splits
        prod.splits if_splits)

lemma kept_start:
  assumes "se_start c s = Some s'"
  shows "kept s s'"
proof -
  from assms have "cl_sess s c = None" by (auto simp: se_start_def split: if_splits)
  with assms show ?thesis
    by (auto simp: se_start_def kept_def proxy_same_def rcvd_kept_def split: if_splits)
qed

lemma kept_env: "cl_take c s = Some s' \<Longrightarrow> kept s s'" "cl_drop_rx c s = Some s' \<Longrightarrow> kept s s'"
  by (auto simp: cl_take_def cl_drop_rx_def intro!: keptI split: option.splits prod.splits if_splits)

text \<open>A session touches the proxy state in three places: a response, the sender, and the flush.\<close>

lemma se_step_cases:
  assumes "se_step cfg lib c inp s = Some s'"
  obtains
    (Kept) "kept s s'"
  | (Response) f r where "sf_kind f = Some (SHttpResponse r)"
      "s' = se_response (sf_stream_id f) r (log_inbound c f s)"
  | (Flush) r where "s' = se_flush c r s"
proof -
  from assms obtain se where se: "cl_sess s c = Some se" by (auto simp: se_step_def split: option.splits)
  have log: "kept s (log_inbound c f s)" for f by (auto simp: log_inbound_def)
  show thesis
  proof (cases "se_pc se")
    case SRecv
    show thesis
    proof (cases "\<exists>f k r. inp = InHub (InFrame f k) \<and> sf_kind f = Some (SHttpResponse r)")
      case True
      with assms se SRecv Response show thesis
        by (auto simp: se_step_def se_recv_def se_frame_def split: if_splits)
    next
      case False
      with assms se SRecv log show thesis
        by (intro Kept)
          (auto simp: se_step_def se_recv_def se_frame_def se_open_def se_data_def client_pcs Let_def
            intro!: keptI split: sess_input.splits inbound.splits if_splits option.splits server_kind.splits)
    qed
  next
    case SAttach
    with assms se show thesis
      by (intro Kept)
        (auto simp: se_step_def se_attach_def attach_hub_def client_pcs intro!: keptI
          split: sess_input.splits)
  next
    case (SDetach r)
    with assms se show thesis
      by (intro Kept)
        (auto simp: se_step_def se_detach_def detach_hub_def client_pcs intro!: keptI
          split: sess_input.splits)
  next
    case (SFlush r)
    with assms se Flush show thesis by (auto simp: se_step_def split: sess_input.splits)
  qed (use assms se in \<open>intro Kept; auto simp: se_step_def se_connect_def se_handshake_def se_send_def
        se_deliver_def client_pcs intro!: keptI dest!: hub_send_upd
        split: sess_input.splits connect_outcome.splits sent.splits option.splits\<close>)+
qed

section \<open>The invariant\<close>

fun pc_sid :: "handler_pc \<Rightarrow> u64 option" where
  "pc_sid (HRegister _ sid _) = Some sid"
| "pc_sid (HSendReq _ sid _) = Some sid"
| "pc_sid (HUnsend sid) = Some sid"
| "pc_sid (HWait sid) = Some sid"
| "pc_sid (HTimeout sid) = Some sid"
| "pc_sid _ = None"

fun early :: "handler_pc \<Rightarrow> bool" where
  "early (HBody _) = True"
| "early (HHub _) = True"
| "early (HRegister _ _ _) = True"
| "early _ = False"

fun unnumbered :: "handler_pc \<Rightarrow> bool" where
  "unnumbered (HBody _) = True"
| "unnumbered (HHub _) = True"
| "unnumbered _ = False"

text \<open>The answers the handler gives on its own.\<close>

definition local_answer :: "proxy_response \<Rightarrow> bool" where
  "local_answer resp \<longleftrightarrow>
     (\<exists>e. resp = text_response 400 (''body read failed: '' @ e)) \<or>
     resp \<in> {text_response 503 ''tunnel not connected'', text_response 503 ''tunnel send failed'',
             text_response 502 ''response channel closed'', text_response 504 ''hub response timeout''}"

text \<open>What a filled slot holds: the hub's response for the handler's identifier, or the flush answer.\<close>

definition slot_ok :: "client \<Rightarrow> handler \<Rightarrow> bool" where
  "slot_ok s x \<longleftrightarrow>
     (\<forall>r. hd_slot x = Some r \<longrightarrow>
        r = flush_response \<or> (\<exists>sid. hd_sid x = Some sid \<and> responded s sid r))"

definition hd_ok :: "http_lib \<Rightarrow> client \<Rightarrow> handler \<Rightarrow> bool" where
  "hd_ok lib s x \<longleftrightarrow>
     (\<forall>sid. hd_sid x = Some sid \<longrightarrow> 2 ^ 63 \<le> unat sid \<and> unat sid < unat (cl_counter s)) \<and>
     (\<forall>sid. pc_sid (hd_pc x) = Some sid \<longrightarrow> hd_sid x = Some sid) \<and>
     (early (hd_pc x) \<longrightarrow> hd_slot x = None) \<and> (unnumbered (hd_pc x) \<longrightarrow> hd_sid x = None) \<and>
     slot_ok s x \<and>
     (\<forall>resp. hd_pc x = HAnswered resp \<longrightarrow>
        local_answer resp \<or> (\<exists>r. hd_slot x = Some r \<and> resp = build_response lib r))"

definition sid_of_handler :: "client \<Rightarrow> nat \<Rightarrow> u64 option" where
  "sid_of_handler s h = Option.bind (cl_handlers s h) hd_sid"

definition inv_proxy :: "http_lib \<Rightarrow> nat \<Rightarrow> client \<Rightarrow> bool" where
  "inv_proxy lib n s \<longleftrightarrow>
     2 ^ 63 \<le> unat (cl_counter s) \<and> unat (cl_counter s) \<le> 2 ^ 63 + n \<and>
     (\<forall>h x. cl_handlers s h = Some x \<longrightarrow> hd_ok lib s x) \<and>
     (\<forall>h h' sid. sid_of_handler s h = Some sid \<longrightarrow> sid_of_handler s h' = Some sid \<longrightarrow> h' = h) \<and>
     (\<forall>sid h. cl_pending s sid = Some h \<longrightarrow>
        (\<exists>x. cl_handlers s h = Some x \<and> hd_sid x = Some sid \<and> hd_slot x = None \<and> \<not> early (hd_pc x)))"

lemma inv_proxyD:
  assumes "inv_proxy lib n s"
  shows "2 ^ 63 \<le> unat (cl_counter s)" "unat (cl_counter s) \<le> 2 ^ 63 + n"
    "cl_handlers s h = Some x \<Longrightarrow> hd_ok lib s x"
    "sid_of_handler s h = Some sid \<Longrightarrow> sid_of_handler s h' = Some sid \<Longrightarrow> h' = h"
    "cl_pending s sid = Some h \<Longrightarrow>
       \<exists>x. cl_handlers s h = Some x \<and> hd_sid x = Some sid \<and> hd_slot x = None \<and> \<not> early (hd_pc x)"
  using assms unfolding inv_proxy_def by (elim conjE; blast)+

lemma hd_ok_mono:
  assumes "hd_ok lib s x" "rcvd_kept s s'" "unat (cl_counter s) \<le> unat (cl_counter s')"
  shows "hd_ok lib s' x"
  using assms responded_kept [OF assms(2)] unfolding hd_ok_def slot_ok_def by (meson less_le_trans)

lemma inv_proxy_kept:
  assumes inv: "inv_proxy lib n s" and k: "kept s s'"
  shows "inv_proxy lib (Suc n) s'"
proof -
  have s: "cl_pending s' = cl_pending s" "cl_counter s' = cl_counter s" "cl_handlers s' = cl_handlers s"
    "rcvd_kept s s'"
    using k by (auto simp: kept_def proxy_same_def)
  have "sid_of_handler s' = sid_of_handler s" by (simp add: sid_of_handler_def s fun_eq_iff)
  with inv_proxyD [OF inv] hd_ok_mono [OF _ s(4)] s(1-3) show ?thesis
    unfolding inv_proxy_def by (metis add_Suc_right le_SucI order_refl)
qed

lemma inv_proxy_upd:
  assumes inv: "inv_proxy lib n s" and rk: "rcvd_kept s s'"
    and hs: "cl_handlers s' = (cl_handlers s)(h \<mapsto> x')" and ok: "hd_ok lib s' x'"
    and ct: "unat (cl_counter s) \<le> unat (cl_counter s')" "unat (cl_counter s') \<le> 2 ^ 63 + Suc n"
    and sid: "\<And>sid. hd_sid x' = Some sid \<Longrightarrow>
      sid_of_handler s h = Some sid \<or> (\<forall>g. sid_of_handler s g \<noteq> Some sid)"
    and pend: "\<And>sid g. cl_pending s' sid = Some g \<Longrightarrow>
      g \<noteq> h \<and> cl_pending s sid = Some g \<or> g = h \<and> hd_sid x' = Some sid \<and> hd_slot x' = None \<and> \<not> early (hd_pc x')"
  shows "inv_proxy lib (Suc n) s'"
proof -
  have so: "sid_of_handler s' g = (if g = h then hd_sid x' else sid_of_handler s g)" for g
    by (simp add: sid_of_handler_def hs)
  show ?thesis
    unfolding inv_proxy_def
  proof (intro conjI allI impI)
    show "2 ^ 63 \<le> unat (cl_counter s')" using inv_proxyD(1) [OF inv] ct(1) by simp
    show "unat (cl_counter s') \<le> 2 ^ 63 + Suc n" by (rule ct(2))
  next
    fix g x assume "cl_handlers s' g = Some x"
    then show "hd_ok lib s' x"
      using ok hd_ok_mono [OF inv_proxyD(3) [OF inv] rk ct(1)] by (cases "g = h") (auto simp: hs)
  next
    fix g g' i assume "sid_of_handler s' g = Some i" "sid_of_handler s' g' = Some i"
    then show "g' = g"
      using inv_proxyD(4) [OF inv] sid [of i] by (cases "g = h"; cases "g' = h") (auto simp: so)
  next
    fix i g assume "cl_pending s' i = Some g"
    from pend [OF this] inv_proxyD(5) [OF inv, of i g]
    show "\<exists>x. cl_handlers s' g = Some x \<and> hd_sid x = Some i \<and> hd_slot x = None \<and> \<not> early (hd_pc x)"
      by (auto simp: hs)
  qed
qed

section \<open>Every step keeps it\<close>

lemma inv_proxy_open:
  assumes inv: "inv_proxy lib n s" and st: "hd_open h req s = Some s'"
  shows "inv_proxy lib (Suc n) s'"
proof -
  from st have s': "cl_handlers s h = None"
    "s' = s\<lparr>cl_handlers := (cl_handlers s)(h \<mapsto> \<lparr>hd_pc = HBody req, hd_req = None, hd_sid = None, hd_slot = None\<rparr>)\<rparr>"
    by (auto simp: hd_open_def split: if_splits)
  show ?thesis
  proof (rule inv_proxy_upd [OF inv])
    show "rcvd_kept s s'" by (rule rcvd_kept_same) (simp add: s')
    fix i g assume "cl_pending s' i = Some g"
    then have "cl_pending s i = Some g" by (simp add: s'(2))
    with inv_proxyD(5) [OF inv this] s'(1)
    show "g \<noteq> h \<and> cl_pending s i = Some g \<or>
        g = h \<and> hd_sid \<lparr>hd_pc = HBody req, hd_req = None, hd_sid = None, hd_slot = None\<rparr> = Some i \<and>
        hd_slot \<lparr>hd_pc = HBody req, hd_req = None, hd_sid = None, hd_slot = None\<rparr> = None \<and>
        \<not> early (hd_pc \<lparr>hd_pc = HBody req, hd_req = None, hd_sid = None, hd_slot = None\<rparr>)"
      by auto
  qed (use s' inv_proxyD(2) [OF inv] in \<open>auto simp: hd_ok_def slot_ok_def\<close>)
qed

text \<open>A handler moves on without touching its identifier or its slot.\<close>

lemma inv_proxy_moved:
  assumes inv: "inv_proxy lib n s" and x: "cl_handlers s h = Some x"
    and hs: "cl_handlers s' = (cl_handlers s)(h \<mapsto> y)"
    and y: "hd_sid y = hd_sid x" "hd_slot y = hd_slot x"
    and rest: "rcvd_kept s s'" "cl_counter s' = cl_counter s"
    and pc: "pc_sid (hd_pc y) = None \<or> pc_sid (hd_pc y) = pc_sid (hd_pc x)" "early (hd_pc y) \<Longrightarrow> early (hd_pc x)"
      "unnumbered (hd_pc y) \<Longrightarrow> unnumbered (hd_pc x)"
      "\<And>resp. hd_pc y = HAnswered resp \<Longrightarrow>
        local_answer resp \<or> (\<exists>r. hd_slot x = Some r \<and> resp = build_response lib r)"
    and pend: "\<And>sid g. cl_pending s' sid = Some g \<Longrightarrow>
      cl_pending s sid = Some g \<or> g = h \<and> hd_sid x = Some sid \<and> hd_slot x = None \<and> \<not> early (hd_pc y)"
  shows "inv_proxy lib (Suc n) s'"
proof (rule inv_proxy_upd [OF inv rest(1) hs])
  have "hd_ok lib s' x" using hd_ok_mono [OF inv_proxyD(3) [OF inv x] rest(1)] rest(2) by simp
  with pc y show "hd_ok lib s' y" by (auto simp: hd_ok_def slot_ok_def)
  fix i g assume "cl_pending s' i = Some g"
  from pend [OF this] inv_proxyD(5) [OF inv, of i g] x
  show "g \<noteq> h \<and> cl_pending s i = Some g \<or>
      g = h \<and> hd_sid y = Some i \<and> hd_slot y = None \<and> \<not> early (hd_pc y)"
    using pc(2) y by auto
qed (use inv_proxyD(2) [OF inv] rest(2) x y in \<open>auto simp: sid_of_handler_def\<close>)

lemmas inv_proxy_move = inv_proxy_moved
  [where y = "x\<lparr>hd_pc := pc\<rparr>" and x = x for x pc, simplified]

lemma inv_proxy_hub:
  assumes inv: "inv_proxy lib n s" and n: "Suc n < 2 ^ 63" and x: "cl_handlers s h = Some x" "hd_pc x = HHub req"
  shows "inv_proxy lib (Suc n) (hd_hub h req s)"
proof (cases "cl_hub s")
  case None
  show ?thesis
    by (rule inv_proxy_move [OF inv x(1), where pc = "HAnswered (text_response 503 ''tunnel not connected'')"])
      (use None x in \<open>auto simp: hd_hub_def client_pcs upd_handler_def local_answer_def intro: rcvd_kept_same\<close>)
next
  case (Some c)
  let ?sid = "cl_counter s" and ?s' = "hd_hub h req s"
  let ?x' = "x\<lparr>hd_pc := HRegister c ?sid req, hd_sid := Some ?sid\<rparr>"
  have hs: "cl_handlers ?s' = (cl_handlers s)(h \<mapsto> ?x')" and pe: "cl_pending ?s' = cl_pending s"
    and se: "cl_sess ?s' = cl_sess s" and ct: "cl_counter ?s' = ?sid + 1"
    using Some x by (auto simp: hd_hub_def next_stream_id_def upd_handler_def)
  have cu: "unat (?sid + 1) = Suc (unat ?sid)"
    using unat_inc64 [of ?sid] inv_proxyD(2) [OF inv] n by simp
  have slot: "hd_slot x = None" using inv_proxyD(3) [OF inv x(1)] x(2) by (simp add: hd_ok_def)
  have fresh: "sid_of_handler s g \<noteq> Some ?sid" for g
  proof
    assume "sid_of_handler s g = Some ?sid"
    then obtain y where "cl_handlers s g = Some y" "hd_sid y = Some ?sid"
      by (auto simp: sid_of_handler_def split: Option.bind_splits)
    with inv_proxyD(3) [OF inv this(1)] show False by (auto simp: hd_ok_def)
  qed
  show ?thesis
  proof (rule inv_proxy_upd [OF inv rcvd_kept_same [OF se] hs])
    show "hd_ok lib ?s' ?x'"
      using cu ct slot inv_proxyD(1) [OF inv] by (auto simp: hd_ok_def slot_ok_def)
    show "unat ?sid \<le> unat (cl_counter ?s')" "unat (cl_counter ?s') \<le> 2 ^ 63 + Suc n"
      using cu ct inv_proxyD(2) [OF inv] by auto
    fix i assume "hd_sid ?x' = Some i"
    then show "sid_of_handler s h = Some i \<or> (\<forall>g. sid_of_handler s g \<noteq> Some i)" using fresh by auto
  next
    fix i g assume "cl_pending ?s' i = Some g"
    then have g: "cl_pending s i = Some g" by (simp add: pe)
    from inv_proxyD(5) [OF inv g] obtain y where y: "cl_handlers s g = Some y" "hd_sid y = Some i" by blast
    have "hd_sid x = None" using inv_proxyD(3) [OF inv x(1)] x(2) by (simp add: hd_ok_def)
    with y x(1) have "g \<noteq> h" by auto
    then show "g \<noteq> h \<and> cl_pending s i = Some g \<or> g = h \<and> hd_sid ?x' = Some i \<and> hd_slot ?x' = None \<and> \<not> early (hd_pc ?x')"
      using g by blast
  qed
qed

lemma inv_proxy_hd_step:
  assumes inv: "inv_proxy lib n s" and n: "Suc n < 2 ^ 63" and st: "hd_step lib h inp s = Some s'"
  shows "inv_proxy lib (Suc n) s'"
proof -
  from st obtain x where x: "cl_handlers s h = Some x" by (auto simp: hd_step_def split: option.splits)
  note ok = inv_proxyD(3) [OF inv x, unfolded hd_ok_def]
  have answer: "inv_proxy lib (Suc n) (set_handler_pc h (HAnswered resp) (t s))"
    if "local_answer resp \<or> (\<exists>r. hd_slot x = Some r \<and> resp = build_response lib r)"
      "t = (\<lambda>s. s) \<or> (\<exists>sid. t = pending_remove sid)" for resp t
    by (rule inv_proxy_move [OF inv x, where pc = "HAnswered resp"])
      (use that x in \<open>auto simp: client_pcs upd_handler_def pending_remove_def intro: rcvd_kept_same split: if_splits\<close>)
  have go: "inv_proxy lib (Suc n) (set_handler_pc h pc s)"
    if "pc_sid pc = None \<or> pc_sid pc = pc_sid (hd_pc x)" "early pc \<Longrightarrow> early (hd_pc x)"
      "unnumbered pc \<Longrightarrow> unnumbered (hd_pc x)" "\<And>resp. pc \<noteq> HAnswered resp" for pc
    by (rule inv_proxy_move [OF inv x, where pc = pc])
      (use that x in \<open>auto simp: client_pcs upd_handler_def intro: rcvd_kept_same\<close>)
  note ans = answer [where t = "\<lambda>s. s", simplified] and rem = answer [OF disjI1]
  show ?thesis
  proof (cases "hd_pc x")
    case (HBody req)
    have built: "inv_proxy lib (Suc n) (upd_handler h (\<lambda>x. x\<lparr>hd_pc := HHub rq, hd_req := Some rq\<rparr>) s)" for rq
      by (rule inv_proxy_moved [OF inv x, where y = "x\<lparr>hd_pc := HHub rq, hd_req := Some rq\<rparr>"])
        (use HBody x in \<open>auto simp: upd_handler_def intro: rcvd_kept_same\<close>)
    from HBody st x show ?thesis
      by (auto simp: hd_step_def hd_body_def local_answer_def Let_def intro!: ans built
          split: handler_input.splits body_outcome.splits if_splits)
  next
    case (HHub req)
    with st x inv_proxy_hub [OF inv n x] show ?thesis
      by (auto simp: hd_step_def split: handler_input.splits)
  next
    case (HRegister c sid req)
    with st x have s': "s' = hd_register h c sid req s" by (auto simp: hd_step_def split: handler_input.splits)
    show ?thesis
      by (rule inv_proxy_move [OF inv x, where pc = "HSendReq c sid req"])
        (use s' x ok HRegister in \<open>auto simp: hd_register_def client_pcs upd_handler_def
           intro: rcvd_kept_same split: if_splits\<close>)
  next
    case (HSendReq c sid req)
    show ?thesis
    proof (cases "hub_send c (client_http_request sid req) s")
      case (SendOk t)
      from hub_send_upd [OF this] obtain ch where t: "t = upd_session c (\<lambda>se. se\<lparr>se_chan := ch\<rparr>) s" by blast
      from st x HSendReq SendOk have s': "s' = set_handler_pc h (HWait sid) t"
        by (auto simp: hd_step_def hd_send_def split: handler_input.splits)
      have "rcvd_kept s t" unfolding t by (rule rcvd_kept_upd) auto
      moreover have "cl_sess s' = cl_sess t" by (simp add: s' set_handler_pc_def)
      ultimately have "rcvd_kept s s'" by (rule rcvd_kept_trans [OF _ rcvd_kept_same])
      then show ?thesis
        by (intro inv_proxy_move [OF inv x, where pc = "HWait sid"])
          (use s' t x HSendReq in \<open>auto simp: client_pcs fun_eq_iff\<close>)
    qed (use st x HSendReq in \<open>auto simp: hd_step_def hd_send_def intro!: go split: handler_input.splits\<close>)
  next
    case (HUnsend sid)
    with st x show ?thesis
      by (auto simp: hd_step_def hd_unsend_def local_answer_def intro!: rem split: handler_input.splits)
  next
    case (HWait sid)
    with st x show ?thesis
      by (auto simp: hd_step_def hd_wait_def local_answer_def intro!: ans go
          split: handler_input.splits option.splits if_splits wait_outcome.splits)
  next
    case (HTimeout sid)
    with st x show ?thesis
      by (auto simp: hd_step_def hd_timeout_def local_answer_def intro!: rem split: handler_input.splits)
  qed (use st x in \<open>auto simp: hd_step_def split: handler_input.splits\<close>)
qed

lemma inv_proxy_cancel:
  assumes inv: "inv_proxy lib n s" and st: "hd_cancel h s = Some s'"
  shows "inv_proxy lib (Suc n) s'"
proof -
  from st obtain x where x: "cl_handlers s h = Some x" by (auto simp: hd_cancel_def split: option.splits)
  with st have "s' = set_handler_pc h HDropped s" by (auto simp: hd_cancel_def split: handler_pc.splits)
  then show ?thesis
    by (intro inv_proxy_move [OF inv x, where pc = HDropped])
      (use x in \<open>auto simp: client_pcs upd_handler_def intro: rcvd_kept_same\<close>)
qed

lemma inv_proxy_response:
  assumes inv: "inv_proxy lib n s" and se: "cl_sess s c = Some se" and f: "sf_kind f = Some (SHttpResponse r)"
  shows "inv_proxy lib (Suc n) (se_response (sf_stream_id f) r (log_inbound c f s))"
proof (cases "cl_pending s (sf_stream_id f)")
  case None
  then show ?thesis
    by (intro inv_proxy_kept [OF inv]) (auto simp: se_response_def log_inbound_def intro!: keptI)
next
  case (Some h)
  let ?sid = "sf_stream_id f" and ?t = "log_inbound c f s"
  let ?s' = "se_response ?sid r ?t"
  from inv_proxyD(5) [OF inv Some] obtain x where x: "cl_handlers s h = Some x" "hd_sid x = Some ?sid"
    "hd_slot x = None" "\<not> early (hd_pc x)" by blast
  have hs: "cl_handlers ?s' = (cl_handlers s)(h \<mapsto> x\<lparr>hd_slot := Some r\<rparr>)"
    and pe: "cl_pending ?s' = (cl_pending s)(?sid := None)" and ct: "cl_counter ?s' = cl_counter s"
    and ses: "cl_sess ?s' = cl_sess ?t"
    using Some x by (auto simp: se_response_def log_inbound_def oneshot_send_def fun_eq_iff)
  have "rcvd_kept s ?t" unfolding log_inbound_def by (rule rcvd_kept_upd) auto
  from rcvd_kept_trans [OF this rcvd_kept_same [OF ses]] have rk: "rcvd_kept s ?s'" .
  have "\<exists>se'. cl_sess ?t c = Some se' \<and> f \<in> set (se_rcvd se')"
    using se by (auto simp: log_inbound_def upd_session_def)
  then have resp: "responded ?s' ?sid r" using f ses by (auto simp: responded_def)
  show ?thesis
  proof (rule inv_proxy_upd [OF inv rk hs])
    show "hd_ok lib ?s' (x\<lparr>hd_slot := Some r\<rparr>)"
      using hd_ok_mono [OF inv_proxyD(3) [OF inv x(1)] rk] ct resp x Some
      by (auto simp: hd_ok_def slot_ok_def)
    fix i g assume "cl_pending ?s' i = Some g"
    then have g: "cl_pending s i = Some g" "i \<noteq> ?sid" by (auto simp: pe split: if_splits)
    with inv_proxyD(5) [OF inv g(1)] x have "g \<noteq> h" by auto
    with g show "g \<noteq> h \<and> cl_pending s i = Some g \<or>
        g = h \<and> hd_sid (x\<lparr>hd_slot := Some r\<rparr>) = Some i \<and> hd_slot (x\<lparr>hd_slot := Some r\<rparr>) = None \<and>
          \<not> early (hd_pc (x\<lparr>hd_slot := Some r\<rparr>))"
      by blast
  qed (use ct inv_proxyD(2) [OF inv] x in \<open>auto simp: sid_of_handler_def\<close>)
qed

lemma inv_proxy_flush:
  assumes inv: "inv_proxy lib n s"
  shows "inv_proxy lib (Suc n) (se_flush c r s)"
proof -
  let ?s' = "se_flush c r s"
  let ?g = "\<lambda>h x. if holds_sender s h x then oneshot_send flush_response x else x"
  have hs: "cl_handlers ?s' h = map_option (?g h) (cl_handlers s h)" for h
    by (simp add: se_flush_def set_sess_pc_def flush_pending_def)
  have pe: "cl_pending ?s' = Map.empty" and ct: "cl_counter ?s' = cl_counter s"
    by (simp_all add: se_flush_def set_sess_pc_def flush_pending_def)
  have "kept s (upd_session c (\<lambda>se. se\<lparr>se_pc := SOver r\<rparr>) s)" by (intro keptI) auto
  then have rk: "rcvd_kept s ?s'"
    by (auto simp: kept_def rcvd_kept_def se_flush_def set_sess_pc_def flush_pending_def upd_session_def)
  have so: "sid_of_handler ?s' h = sid_of_handler s h" for h
    by (cases "cl_handlers s h") (auto simp: sid_of_handler_def hs oneshot_send_def)
  show ?thesis
    unfolding inv_proxy_def so ct pe
  proof (intro conjI allI impI)
    show "2 ^ 63 \<le> unat (cl_counter s)" "unat (cl_counter s) \<le> 2 ^ 63 + Suc n"
      using inv_proxyD(1,2) [OF inv] by auto
  next
    fix h x' assume "cl_handlers ?s' h = Some x'"
    then obtain x where x: "cl_handlers s h = Some x" "x' = ?g h x" by (auto simp: hs)
    have ok: "hd_ok lib ?s' x" using hd_ok_mono [OF inv_proxyD(3) [OF inv x(1)] rk] ct by simp
    show "hd_ok lib ?s' x'"
    proof (cases "holds_sender s h x")
      case True
      then obtain sid where "cl_pending s sid = Some h" by (auto simp: holds_sender_def split: option.splits)
      from inv_proxyD(5) [OF inv this] x(1) have "hd_slot x = None" "\<not> early (hd_pc x)" by auto
      with ok True x(2) show ?thesis by (auto simp: hd_ok_def slot_ok_def oneshot_send_def)
    qed (use ok x(2) in simp)
  qed (use inv_proxyD(4) [OF inv] in auto)
qed

lemma inv_proxy_step:
  assumes inv: "inv_proxy lib n s" and n: "Suc n < 2 ^ 63" and st: "cl_step cfg lib e s = Some s'"
  shows "inv_proxy lib (Suc n) s'"
proof (cases e)
  case (CvSess c inp)
  with st have st': "se_step cfg lib c inp s = Some s'" by simp
  then obtain se where se: "cl_sess s c = Some se" by (auto simp: se_step_def split: option.splits)
  from st' show ?thesis
  proof (cases rule: se_step_cases)
    case Kept
    then show ?thesis by (rule inv_proxy_kept [OF inv])
  next
    case (Response f r)
    with inv_proxy_response [OF inv se] show ?thesis by simp
  next
    case (Flush r)
    with inv_proxy_flush [OF inv] show ?thesis by simp
  qed
next
  case (CvRequest h req)
  with st inv_proxy_open [OF inv] show ?thesis by simp
next
  case (CvHandler h inp)
  with st inv_proxy_hd_step [OF inv n] show ?thesis by simp
next
  case (CvCancel h)
  with st inv_proxy_cancel [OF inv] show ?thesis by simp
qed (use st inv_proxy_kept [OF inv] kept_start kept_pump_step kept_env in auto)

lemma inv_proxy_reach: "cl_reach cfg lib n s \<Longrightarrow> n < 2 ^ 63 \<Longrightarrow> inv_proxy lib n s"
proof (induction rule: cl_reach.induct)
  case cl_reach_init
  show ?case by (simp add: inv_proxy_def client_init_def sid_of_handler_def)
next
  case (cl_reach_step n s e s')
  then show ?case by (auto intro: inv_proxy_step)
qed

section \<open>Properties of the proxy\<close>

text \<open>
  C20. Every identifier the client gives to an HTTP request lies in the spoke's half of the space, so
  it never meets an identifier of the hub, and no two requests share one, across all reconnections.
\<close>
theorem request_ids_fresh:
  assumes "cl_reach cfg lib n s" and "n < 2 ^ 63"
    and "cl_handlers s h = Some x" and "hd_sid x = Some sid"
  shows "spoke_range sid \<and>
    (\<forall>h' x'. cl_handlers s h' = Some x' \<longrightarrow> hd_sid x' = Some sid \<longrightarrow> h' = h)"
proof -
  note inv = inv_proxy_reach [OF assms(1,2)]
  have "spoke_range sid"
    using inv_proxyD(3) [OF inv assms(3)] assms(4) by (auto simp: hd_ok_def spoke_range_def)
  moreover have "h' = h" if "cl_handlers s h' = Some x'" "hd_sid x' = Some sid" for h' x'
    using inv_proxyD(4) [OF inv, of h sid h'] assms(3,4) that by (simp add: sid_of_handler_def)
  ultimately show ?thesis by blast
qed

theorem request_ids_fresh_witness:
  "\<exists>n s x sid. cl_reach demo_client demo_lib n s \<and> cl_handlers s 8 = Some x \<and>
     hd_sid x = Some sid \<and> spoke_range sid \<and>
     (\<forall>h' x'. cl_handlers s h' = Some x' \<longrightarrow> hd_sid x' = Some sid \<longrightarrow> h' = 8)"
proof -
  let ?es = "online_events 0 @ sent_events 7 @ sent_events 8"
  have "map_option (\<lambda>s. map_option hd_sid (cl_handlers s 8) = Some (Some (2 ^ 63 + 1)))
      (cl_run demo_client demo_lib ?es client_init) = Some True"
    by code_simp
  then obtain s x sid where s: "cl_reach demo_client demo_lib (length ?es) s"
    "cl_handlers s 8 = Some x" "hd_sid x = Some sid"
    by (rule cl_run_obtains) auto
  have "length ?es < 2 ^ 63" by (simp add: online_events_def sent_events_def request_events_def)
  from request_ids_fresh [OF s(1) this s(2,3)] s show ?thesis by blast
qed

text \<open>
  C13. No cross-talk: a caller of the proxy is answered with the response the hub sent under the
  identifier of this very request, with the answer of the flush at the end of a session, or with one
  of the five error answers of the handler itself; never with the response to another request.
\<close>
theorem proxy_answers_own_request:
  assumes "cl_reach cfg lib n s" and "n < 2 ^ 63"
    and "cl_handlers s h = Some x" and "hd_pc x = HAnswered resp"
  shows "local_answer resp \<or> resp = build_response lib flush_response \<or>
    (\<exists>sid r. hd_sid x = Some sid \<and> responded s sid r \<and> resp = build_response lib r)"
  using inv_proxyD(3) [OF inv_proxy_reach [OF assms(1,2)] assms(3)] assms(4)
  unfolding hd_ok_def slot_ok_def by blast

theorem proxy_answers_own_request_witness:
  "\<exists>n s x resp. cl_reach demo_client demo_lib n s \<and> cl_handlers s 7 = Some x \<and>
     hd_pc x = HAnswered resp \<and> resp = build_response demo_lib reply \<and>
     (local_answer resp \<or> resp = build_response demo_lib flush_response \<or>
      (\<exists>sid r. hd_sid x = Some sid \<and> responded s sid r \<and> resp = build_response demo_lib r))"
proof -
  let ?es = "online_events 0 @ sent_events 7 @
    [CvSess 0 (InHub (InFrame reply_frame 0)), CvHandler 7 (InWait WaitPoll)]"
  have "map_option (\<lambda>s. map_option hd_pc (cl_handlers s 7) = Some (HAnswered (build_response demo_lib reply)))
      (cl_run demo_client demo_lib ?es client_init) = Some True"
    by code_simp
  then obtain s x where s: "cl_reach demo_client demo_lib (length ?es) s"
    "cl_handlers s 7 = Some x" "hd_pc x = HAnswered (build_response demo_lib reply)"
    by (rule cl_run_obtains) auto
  have "length ?es < 2 ^ 63" by (simp add: online_events_def sent_events_def request_events_def)
  from proxy_answers_own_request [OF s(1) this s(2,3)] s show ?thesis by blast
qed

text \<open>
  C18. The flush at the end of a session leaves no request without an answer: whoever waited for a
  response then is ready to answer its caller at once, and a request whose one-shot was drained is
  answered with the 503 of the flush.
\<close>
theorem flush_releases_waiters:
  assumes "cl_reach cfg lib n s" and "n < 2 ^ 63"
    and "cl_sess s c = Some se" and "se_pc se = SFlush r"
    and "cl_step cfg lib (CvSess c InNext) s = Some s'"
    and "cl_handlers s h = Some x" and "hd_pc x = HWait sid"
  shows "\<exists>resp s''. cl_step cfg lib (CvHandler h (InWait WaitPoll)) s' = Some s'' \<and>
    map_option hd_pc (cl_handlers s'' h) = Some (HAnswered resp) \<and>
    (cl_pending s sid = Some h \<longrightarrow> resp = build_response lib flush_response)"
proof -
  note ok = inv_proxyD(3) [OF inv_proxy_reach [OF assms(1,2)] assms(6), unfolded hd_ok_def]
  have s': "s' = se_flush c r s" using assms(3-5) by (simp add: se_step_def)
  let ?x = "if holds_sender s h x then oneshot_send flush_response x else x"
  have x': "cl_handlers s' h = Some ?x" "hd_pc ?x = HWait sid" "cl_pending s' = Map.empty"
    using assms(6,7) by (simp_all add: s' se_flush_def set_sess_pc_def flush_pending_def oneshot_send_def)
  have "hd_sid x = Some sid" using ok assms(7) by simp
  then have hold: "holds_sender s h x \<longleftrightarrow> cl_pending s sid = Some h" by (simp add: holds_sender_def)
  have gone: "\<not> holds_sender s' h ?x" using x'(3) by (simp add: holds_sender_def split: option.splits)
  show ?thesis
  proof (cases "hd_slot ?x")
    case (Some v)
    then have "cl_step cfg lib (CvHandler h (InWait WaitPoll)) s' =
        Some (set_handler_pc h (HAnswered (build_response lib v)) s')"
      using x'(1,2) by (simp add: hd_step_def hd_wait_def)
    moreover have "cl_pending s sid = Some h \<Longrightarrow> v = flush_response"
      using hold Some by (simp add: oneshot_send_def)
    ultimately show ?thesis using x'(1) by (auto simp: set_handler_pc_def)
  next
    case None
    then have "cl_step cfg lib (CvHandler h (InWait WaitPoll)) s' =
        Some (set_handler_pc h (HAnswered (text_response 502 ''response channel closed'')) s')"
      using x'(1,2) gone by (simp add: hd_step_def hd_wait_def)
    moreover have "cl_pending s sid \<noteq> Some h" using None hold by (auto simp: oneshot_send_def split: if_splits)
    ultimately show ?thesis using x'(1) by (auto simp: set_handler_pc_def)
  qed
qed

theorem flush_releases_waiters_witness:
  "\<exists>n s s' s'' resp. cl_reach demo_client demo_lib n s \<and> cl_pending s (2 ^ 63) = Some 7 \<and>
     cl_step demo_client demo_lib (CvSess 0 InNext) s = Some s' \<and>
     cl_step demo_client demo_lib (CvHandler 7 (InWait WaitPoll)) s' = Some s'' \<and>
     map_option hd_pc (cl_handlers s'' 7) = Some (HAnswered resp) \<and>
     resp = build_response demo_lib flush_response"
proof -
  let ?es = "online_events 0 @ sent_events 7 @ [CvSess 0 (InHub InEnd), CvSess 0 InNext]"
  have "map_option (\<lambda>s. map_option se_pc (cl_sess s 0) = Some (SFlush SessOk) \<and>
        map_option hd_pc (cl_handlers s 7) = Some (HWait (2 ^ 63)) \<and> cl_pending s (2 ^ 63) = Some 7 \<and>
        cl_step demo_client demo_lib (CvSess 0 InNext) s \<noteq> None)
      (cl_run demo_client demo_lib ?es client_init) = Some True"
    by code_simp
  then obtain s se x s' where s: "cl_reach demo_client demo_lib (length ?es) s"
    "cl_sess s 0 = Some se" "se_pc se = SFlush SessOk"
    "cl_step demo_client demo_lib (CvSess 0 InNext) s = Some s'"
    "cl_handlers s 7 = Some x" "hd_pc x = HWait (2 ^ 63)" "cl_pending s (2 ^ 63) = Some 7"
    by (rule cl_run_obtains) auto
  have "length ?es < 2 ^ 63" by (simp add: online_events_def sent_events_def request_events_def)
  from flush_releases_waiters [OF s(1) this s(2-6)] s show ?thesis by blast
qed

section \<open>Races\<close>

text \<open>
  C34. The sender is published to the proxy before the challenge is answered, so a request that comes
  in between goes out first: the first frame on the stream is then not the handshake.
\<close>
theorem request_can_precede_handshake:
  "\<exists>n s se req. cl_reach demo_client demo_lib n s \<and> cl_sess s 0 = Some se \<and>
     se_sent se = [client_http_request (2 ^ 63) req, client_handshake ''app-b'' ''t'']"
proof -
  let ?challenge = "\<lparr>sf_stream_id = 0, sf_kind = Some (Challenge \<lparr>nonce = [], issued_at = 0\<rparr>)\<rparr>"
  let ?es = "online_events 0 @ sent_events 7 @
    [CvSess 0 (InHub (InFrame ?challenge 0)), CvSess 0 InNext, CvTake 0, CvTake 0]"
  let ?req = "\<lparr>rq_method = ''POST'', rq_path = ''/core/orchestrator/triage'',
      rq_headers = [(''accept'', ''*/*'')], rq_body = []\<rparr> :: http_request"
  have "map_option (\<lambda>s. map_option se_sent (cl_sess s 0) =
        Some [client_http_request (2 ^ 63) ?req, client_handshake ''app-b'' ''t''])
      (cl_run demo_client demo_lib ?es client_init) = Some True"
    by code_simp
  then obtain s se where "cl_reach demo_client demo_lib (length ?es) s" "cl_sess s 0 = Some se"
    "se_sent se = [client_http_request (2 ^ 63) ?req, client_handshake ''app-b'' ''t'']"
    by (rule cl_run_obtains) auto
  then show ?thesis by blast
qed

end
