(* ===== verification/Client_Liveness.thy ===== *)
theory Client_Liveness
  imports Client_Safety
begin

text \<open>
  What always comes to an end on the spoke: once a session has left its receive loop, the sender is
  taken away and the pending requests are flushed, whatever the handlers and pumps do meanwhile.
\<close>

fun ending :: "sess_pc \<Rightarrow> (nat \<times> sess_ret) option" where
  "ending (SDetach r) = Some (2, r)"
| "ending (SFlush r) = Some (1, r)"
| "ending (SOver r) = Some (0, r)"
| "ending _ = None"

fun own_sess :: "nat \<Rightarrow> cl_event \<Rightarrow> bool" where
  "own_sess c (CvSess d _) = (d = c)"
| "own_sess c _ = False"

definition in_ending :: "nat \<Rightarrow> sess_ret \<Rightarrow> client \<Rightarrow> bool" where
  "in_ending c r s \<longleftrightarrow> (\<exists>se n. cl_sess s c = Some se \<and> ending (se_pc se) = Some (n, r))"

definition ending_left :: "nat \<Rightarrow> client \<Rightarrow> nat" where
  "ending_left c s =
     (case cl_sess s c of None \<Rightarrow> 0 | Some se \<Rightarrow> (case ending (se_pc se) of None \<Rightarrow> 0 | Some (n, _) \<Rightarrow> n))"

lemma ending_leftI: "cl_sess s c = Some se \<Longrightarrow> ending (se_pc se) = Some (n, r) \<Longrightarrow> ending_left c s = n"
  by (simp add: ending_left_def)

text \<open>The position of a session is moved by its own steps only.\<close>

definition pc_kept :: "nat \<Rightarrow> client \<Rightarrow> client \<Rightarrow> bool" where
  "pc_kept c s s' \<longleftrightarrow> map_option se_pc (cl_sess s' c) = map_option se_pc (cl_sess s c)"

lemma pc_keptI [intro]:
  "pc_kept c s s"
  "pc_kept c s t \<Longrightarrow> pc_kept c s (upd_pump k g t)" "pc_kept c s t \<Longrightarrow> pc_kept c s (upd_handler h j t)"
  "pc_kept c s t \<Longrightarrow> pc_kept c s (t\<lparr>cl_pumps := x\<rparr>)" "pc_kept c s t \<Longrightarrow> pc_kept c s (t\<lparr>cl_hub := y\<rparr>)"
  "pc_kept c s t \<Longrightarrow> pc_kept c s (t\<lparr>cl_pending := z\<rparr>)" "pc_kept c s t \<Longrightarrow> pc_kept c s (t\<lparr>cl_counter := n\<rparr>)"
  "pc_kept c s t \<Longrightarrow> pc_kept c s (t\<lparr>cl_handlers := w\<rparr>)"
  "pc_kept c s t \<Longrightarrow> d \<noteq> c \<or> (\<forall>se. se_pc (f se) = se_pc se) \<Longrightarrow> pc_kept c s (upd_session d f t)"
  by (auto simp: pc_kept_def upd_session_def upd_pump_def upd_handler_def option.map_comp comp_def)

lemma pc_kept_handler: "hd_step lib h inp s = Some s' \<Longrightarrow> pc_kept c s s'"
  by (auto simp: hd_step_def hd_body_def hd_hub_def hd_register_def hd_send_def hd_unsend_def hd_wait_def
      hd_timeout_def next_stream_id_def pending_remove_def client_pcs Let_def
      intro!: pc_keptI dest!: hub_send_upd
      split: option.splits handler_pc.splits handler_input.splits body_outcome.splits wait_outcome.splits
        sent.splits if_splits)

lemma pc_kept_pump: "pu_step k e s = Some s' \<Longrightarrow> pc_kept c s s'"
  by (auto simp: pu_step_def pu_dial_def pu_got_def pu_recv_def pu_send_data_def pu_send_close_def
      pu_remove_def client_pcs intro!: pc_keptI dest!: hub_send_upd
      split: option.splits pump_pc.splits pump_event.splits dial_outcome.splits sent.splits
        prod.splits if_splits)

lemma pc_kept_session: "se_step cfg lib d inp s = Some s' \<Longrightarrow> d \<noteq> c \<Longrightarrow> pc_kept c s s'"
  by (auto simp: se_step_def se_connect_def se_attach_def attach_hub_def se_recv_def se_frame_def
      se_open_def se_data_def se_response_def se_handshake_def se_send_def se_deliver_def se_detach_def
      detach_hub_def se_flush_def flush_pending_def pending_remove_def client_pcs Let_def
      intro!: pc_keptI dest!: hub_send_upd
      split: option.splits sess_pc.splits sess_input.splits connect_outcome.splits inbound.splits
        server_kind.splits sent.splits if_splits)

lemma pc_kept_other:
  assumes "cl_step cfg lib e s = Some s'" "\<not> own_sess c e" "cl_sess s c = Some se"
  shows "pc_kept c s s'"
proof (cases e)
  case (CvSess d inp)
  with assms pc_kept_session show ?thesis by auto
next
  case (CvHandler h inp)
  with assms(1) pc_kept_handler show ?thesis by auto
next
  case (CvPump k ev)
  with assms(1) pc_kept_pump show ?thesis by auto
next
  case (CvStart d)
  with assms(1,3) show ?thesis by (auto simp: se_start_def pc_kept_def split: if_splits)
qed (use assms(1) in \<open>auto simp: hd_open_def hd_cancel_def cl_take_def cl_drop_rx_def client_pcs
      intro!: pc_keptI split: option.splits handler_pc.splits prod.splits if_splits\<close>)

lemma ending_step:
  assumes "se_step cfg lib c inp s = Some s'" "cl_sess s c = Some se" "ending (se_pc se) = Some (n, r)"
  shows "\<exists>se' m. cl_sess s' c = Some se' \<and> ending (se_pc se') = Some (m, r) \<and> n = Suc m"
  using assms
  by (auto simp: se_step_def se_detach_def detach_hub_def se_flush_def flush_pending_def client_pcs
      upd_session_def split: sess_pc.splits sess_input.splits)

interpretation spoke_ending: winding_down "cl_step cfg lib" "cl_run cfg lib" "cl_reach cfg lib" client_init
    "own_sess c" "in_ending c r" "ending_left c" "CvSess c InNext" for cfg lib c r
proof
  fix s s' e
  assume live: "in_ending c r s"
  then obtain se n where se: "cl_sess s c = Some se" "ending (se_pc se) = Some (n, r)"
    by (auto simp: in_ending_def)
  note n = ending_leftI [OF se]
  show "0 < ending_left c s \<Longrightarrow> cl_step cfg lib (CvSess c InNext) s \<noteq> None"
    using se n by (cases "se_pc se") (auto simp: se_step_def)
  assume st: "cl_step cfg lib e s = Some s'"
  show "in_ending c r s' \<and> Suc (ending_left c s') = ending_left c s" if own: "own_sess c e"
  proof -
    from own obtain inp where "e = CvSess c inp" by (cases e) auto
    with ending_step [OF _ se, of cfg lib inp s'] st obtain se' m
      where s': "cl_sess s' c = Some se'" "ending (se_pc se') = Some (m, r)" "n = Suc m" by auto
    with n ending_leftI [OF s'(1,2)] show ?thesis by (auto simp: in_ending_def)
  qed
  show "in_ending c r s' \<and> ending_left c s' = ending_left c s" if "\<not> own_sess c e"
  proof -
    from pc_kept_other [OF st that se(1)] se(1) obtain se' where s': "cl_sess s' c = Some se'" "se_pc se' = se_pc se"
      by (auto simp: pc_kept_def)
    with se(2) n ending_leftI [OF s'(1), of n r] show ?thesis by (auto simp: in_ending_def)
  qed
qed simp

text \<open>
  C32. The end of a session cannot be held up: once its receive loop has ended, two more steps of the main
  loop's task, the sender taken away and the pending requests flushed, and the session is over with the
  result it had; each step is possible in every state any interleaving with handlers, pumps and the
  network leads to, and there is no third.
\<close>
theorem session_end_completes:
  assumes "cl_sess s c = Some se" and "se_pc se = SDetach r" and "cl_run cfg lib es s = Some s'"
    and "n = length (filter (own_sess c) es)"
  shows "n \<le> 2 \<and> (n = 2 \<longleftrightarrow> map_option se_pc (cl_sess s' c) = Some (SOver r)) \<and>
    (n = 2 \<or> cl_step cfg lib (CvSess c InNext) s' \<noteq> None)"
proof -
  have live: "in_ending c r s" "ending_left c s = 2"
    using assms(1,2) by (simp_all add: in_ending_def ending_left_def)
  from spoke_ending.run_rank [OF assms(3) live(1)] live(2) assms(4)
  have s': "in_ending c r s'" "ending_left c s' + n = 2" by simp_all
  from s'(1) obtain se' m where se': "cl_sess s' c = Some se'" "ending (se_pc se') = Some (m, r)"
    by (auto simp: in_ending_def)
  have "m = 0 \<longleftrightarrow> se_pc se' = SOver r" using se'(2) by (cases "se_pc se'") auto
  then have "n \<le> 2" "n = 2 \<longleftrightarrow> map_option se_pc (cl_sess s' c) = Some (SOver r)"
    using s'(2) ending_leftI [OF se'] se'(1) by auto
  moreover have "n = 2 \<or> cl_step cfg lib (CvSess c InNext) s' \<noteq> None"
    using spoke_ending.winds_down(2) [OF assms(3) live(1)] s'(2) by auto
  ultimately show ?thesis by blast
qed

theorem session_end_completes_witness:
  "\<exists>n s s'. cl_reach demo_client demo_lib n s \<and>
     cl_run demo_client demo_lib [CvRequest 7 triage, CvSess 0 InNext, CvDropRx 0] s = Some s' \<and>
     map_option se_pc (cl_sess s' 0) \<noteq> Some (SOver SessOk) \<and>
     cl_step demo_client demo_lib (CvSess 0 InNext) s' \<noteq> None"
proof -
  let ?es = "online_events 0 @ [CvSess 0 (InHub InEnd)]"
  let ?fs = "[CvRequest 7 triage, CvSess 0 InNext, CvDropRx 0]"
  have "map_option (\<lambda>s. map_option se_pc (cl_sess s 0) = Some (SDetach SessOk) \<and>
      cl_run demo_client demo_lib ?fs s \<noteq> None) (cl_run demo_client demo_lib ?es client_init) = Some True"
    by code_simp
  then obtain s se s' where s: "cl_reach demo_client demo_lib (length ?es) s" "cl_sess s 0 = Some se"
    "se_pc se = SDetach SessOk" "cl_run demo_client demo_lib ?fs s = Some s'"
    by (rule cl_run_obtains) auto
  from session_end_completes [OF s(2-4) refl] s(1,4) show ?thesis by auto
qed

end
