(* ===== verification/Client_Streams.thy ===== *)
theory Client_Streams
  imports Client_Safety
begin

text \<open>
  The virtual streams on the spoke's side, both ways: what a pump writes to its target is what the hub
  sent for the stream after its \<open>Open\<close>, and the \<open>Data\<close> frames the client sends for the stream are
  what the pump read from the target. Proved for every interleaving, for a stream identifier the hub
  opened once in the session.
\<close>

section \<open>What the hub said about a stream\<close>

definition is_open :: "u64 \<Rightarrow> server_frame \<Rightarrow> bool" where
  "is_open sid f \<longleftrightarrow> sf_stream_id f = sid \<and> (case sf_kind f of Some (Open _) \<Rightarrow> True | _ \<Rightarrow> False)"

definition opens :: "u64 \<Rightarrow> server_frame list \<Rightarrow> nat" where
  "opens sid fs = length (filter (is_open sid) fs)"

text \<open>The payloads after the last \<open>Open\<close>.\<close>

definition heard :: "u64 \<Rightarrow> server_frame list \<Rightarrow> bytes list" where
  "heard sid fs = foldl (\<lambda>acc f. if is_open sid f then [] else acc @ server_payloads sid [f]) [] fs"

lemma opens_Nil [simp]: "opens sid [] = 0" and heard_Nil [simp]: "heard sid [] = []"
  by (simp_all add: opens_def heard_def)

lemma opens_snoc [simp]: "opens sid (fs @ [f]) = opens sid fs + (if is_open sid f then 1 else 0)"
  by (simp add: opens_def)

lemma heard_snoc:
  "heard sid (fs @ [f]) = (if is_open sid f then [] else heard sid fs @ server_payloads sid [f])"
  by (simp add: heard_def)

definition outbound :: "session \<Rightarrow> client_frame list" where
  "outbound se = se_sent se @ ch_queue (se_chan se)"

definition delivering_to :: "session \<Rightarrow> (u64 \<times> nat \<times> bytes) option" where
  "delivering_to se = (case se_pc se of SDeliver sid k x \<Rightarrow> Some (sid, k, x) | _ \<Rightarrow> None)"

definition in_hand :: "nat \<Rightarrow> session \<Rightarrow> bytes list" where
  "in_hand k se = (case delivering_to se of Some (_, j, x) \<Rightarrow> if j = k then [x] else [] | None \<Rightarrow> [])"

section \<open>One pump and its session\<close>

fun writing :: "pump_pc \<Rightarrow> bool" where
  "writing (RDial _) = True"
| "writing RLoop = True"
| "writing (RSendData _) = True"
| "writing _ = False"

text \<open>
  Of what the hub sent, the first payloads are written to the target, the next ones wait in the
  pump's channel or in the session's hand. While the stream is in the session's map, that is all.
\<close>

definition down_ok :: "nat \<Rightarrow> pump \<Rightarrow> session \<Rightarrow> bool" where
  "down_ok k p se \<longleftrightarrow>
     (if writing (pu_pc p)
      then ch_rx (pu_chan p) \<and>
        (\<exists>post. heard (pu_sid p) (se_rcvd se) =
             pu_written p @ ch_queue (pu_chan p) @ in_hand k se @ post \<and>
           (se_streams se (pu_sid p) = Some k \<longrightarrow> post = []))
      else (\<exists>post. heard (pu_sid p) (se_rcvd se) = pu_written p @ post))"

text \<open>Of what the pump read, everything was sent but perhaps the last read.\<close>

fun up_ok :: "pump_pc \<Rightarrow> bytes list \<Rightarrow> bytes list \<Rightarrow> bool" where
  "up_ok (RDial _) rd ps \<longleftrightarrow> rd = [] \<and> ps = []"
| "up_ok (RRefuse _) rd ps \<longleftrightarrow> rd = [] \<and> ps = []"
| "up_ok RLoop rd ps \<longleftrightarrow> ps = rd"
| "up_ok (RSendData b) rd ps \<longleftrightarrow> rd = ps @ [b]"
| "up_ok RSendEof rd ps \<longleftrightarrow> ps = rd"
| "up_ok _ rd ps \<longleftrightarrow> (\<exists>lost. rd = ps @ lost \<and> length lost \<le> 1)"

definition pump_ok :: "nat \<Rightarrow> pump \<Rightarrow> session \<Rightarrow> bool" where
  "pump_ok k p se \<longleftrightarrow>
     1 \<le> opens (pu_sid p) (se_rcvd se) \<and>
     (opens (pu_sid p) (se_rcvd se) = 1 \<longrightarrow>
        down_ok k p se \<and> up_ok (pu_pc p) (pu_read p) (client_payloads (pu_sid p) (outbound se)))"

lemma pump_ok_twice: "2 \<le> opens (pu_sid p) (se_rcvd se) \<Longrightarrow> pump_ok k p se"
  by (simp add: pump_ok_def)

text \<open>The same pump after its session did something else.\<close>

lemma pump_ok_other:
  assumes "pump_ok k p se" and "se_rcvd se' = se_rcvd se" and "in_hand k se' = in_hand k se"
    and "se_streams se' (pu_sid p) = Some k \<longrightarrow> se_streams se (pu_sid p) = Some k"
    and "client_payloads (pu_sid p) (outbound se') = client_payloads (pu_sid p) (outbound se)"
  shows "pump_ok k p se'"
  using assms by (auto simp: pump_ok_def down_ok_def)

lemma pump_ok_frame:
  assumes "pump_ok k p se" and "se_rcvd se' = se_rcvd se @ [f]"
    and "\<not> is_open (pu_sid p) f" and "server_payloads (pu_sid p) [f] = []"
    and "in_hand k se' = in_hand k se"
    and "se_streams se' (pu_sid p) = Some k \<longrightarrow> se_streams se (pu_sid p) = Some k"
    and "outbound se' = outbound se"
  shows "pump_ok k p se'"
  using assms by (auto simp: pump_ok_def down_ok_def heard_snoc simp del: server_payloads.simps)

lemma pump_ok_reopened:
  assumes "pump_ok k p se" and "se_rcvd se' = se_rcvd se @ [f]" and "is_open (pu_sid p) f"
  shows "pump_ok k p se'"
  using assms by (auto simp: pump_ok_def)

lemma pump_ok_dropped:
  assumes "pump_ok k p se" and "se_rcvd se' = se_rcvd se @ [f]" and "\<not> is_open (pu_sid p) f"
    and "se_streams se (pu_sid p) \<noteq> Some k" and "se_streams se' = se_streams se"
    and "in_hand k se = []" "in_hand k se' = []" and "outbound se' = outbound se"
  shows "pump_ok k p se'"
  using assms by (auto simp: pump_ok_def down_ok_def heard_snoc simp del: server_payloads.simps)

lemma pump_ok_taken:
  assumes "pump_ok k p se" and "se_rcvd se' = se_rcvd se @ [f]" and "\<not> is_open (pu_sid p) f"
    and "se_streams se (pu_sid p) = Some k" and "server_payloads (pu_sid p) [f] = [x]"
    and "in_hand k se = []" "in_hand k se' = [x]" and "outbound se' = outbound se"
  shows "pump_ok k p se'"
  using assms by (auto simp: pump_ok_def down_ok_def heard_snoc simp del: server_payloads.simps)

section \<open>The invariant\<close>

definition key :: "client \<Rightarrow> nat \<Rightarrow> (nat \<times> u64) option" where
  "key t k = map_option (\<lambda>p. (pu_sess p, pu_sid p)) (cl_pumps t k)"

definition says_nothing :: "client_frame list \<Rightarrow> bool" where
  "says_nothing fs \<longleftrightarrow> (\<forall>sid. client_payloads sid fs = [])"

definition sess_ok :: "client \<Rightarrow> nat \<Rightarrow> session \<Rightarrow> bool" where
  "sess_ok t c se \<longleftrightarrow>
     (\<forall>sid k. se_streams se sid = Some k \<longrightarrow> key t k = Some (c, sid)) \<and>
     (\<forall>sid k x. delivering_to se = Some (sid, k, x) \<longrightarrow> key t k = Some (c, sid)) \<and>
     (\<forall>f. se_pc se = SSend f \<longrightarrow> says_nothing [f]) \<and>
     (\<forall>sid. client_payloads sid (outbound se) = [] \<or> (\<exists>k. key t k = Some (c, sid)))"

definition inv_streams :: "client \<Rightarrow> bool" where
  "inv_streams t \<longleftrightarrow>
     (\<forall>k p. cl_pumps t k = Some p \<longrightarrow> (\<exists>se. cl_sess t (pu_sess p) = Some se \<and> pump_ok k p se)) \<and>
     (\<forall>k j c sid se. key t k = Some (c, sid) \<longrightarrow> key t j = Some (c, sid) \<longrightarrow> k \<noteq> j \<longrightarrow>
        cl_sess t c = Some se \<longrightarrow> 2 \<le> opens sid (se_rcvd se)) \<and>
     (\<forall>c se. cl_sess t c = Some se \<longrightarrow> sess_ok t c se)"

lemma inv_streamsD:
  assumes "inv_streams t"
  shows "cl_pumps t k = Some p \<Longrightarrow> \<exists>se. cl_sess t (pu_sess p) = Some se \<and> pump_ok k p se"
    "key t k = Some (c, sid) \<Longrightarrow> key t j = Some (c, sid) \<Longrightarrow> k \<noteq> j \<Longrightarrow> cl_sess t c = Some se \<Longrightarrow>
       2 \<le> opens sid (se_rcvd se)"
    "cl_sess t c = Some se \<Longrightarrow> sess_ok t c se"
  using assms unfolding inv_streams_def by (elim conjE; blast)+

lemma inv_streamsI:
  assumes "\<And>k p. cl_pumps t k = Some p \<Longrightarrow> \<exists>se. cl_sess t (pu_sess p) = Some se \<and> pump_ok k p se"
    and "\<And>k j c sid se. key t k = Some (c, sid) \<Longrightarrow> key t j = Some (c, sid) \<Longrightarrow> k \<noteq> j \<Longrightarrow>
       cl_sess t c = Some se \<Longrightarrow> 2 \<le> opens sid (se_rcvd se)"
    and "\<And>c se. cl_sess t c = Some se \<Longrightarrow> sess_ok t c se"
  shows "inv_streams t"
  using assms unfolding inv_streams_def by blast

lemma says_nothing_simps [simp]:
  "says_nothing []" "says_nothing [client_handshake sp tok]" "says_nothing [client_pong n]"
  "says_nothing [client_close sid half r]" "says_nothing [client_http_request sid req]"
  by (simp_all add: says_nothing_def client_handshake_def client_pong_def client_close_def
      client_http_request_def)

lemma sess_ok_key: "key t' = key t \<Longrightarrow> sess_ok t' c se = sess_ok t c se"
  by (simp add: sess_ok_def)

lemma key_cong: "cl_pumps t' = cl_pumps t \<Longrightarrow> key t' = key t"
  by (simp add: key_def fun_eq_iff)

text \<open>Steps that change neither sessions nor pumps.\<close>

lemma inv_streams_same:
  assumes "inv_streams t" "cl_sess t' = cl_sess t" "cl_pumps t' = cl_pumps t"
  shows "inv_streams t'"
  using assms by (simp add: inv_streams_def key_def sess_ok_def)

text \<open>A step of a session that receives nothing and delivers nothing.\<close>

lemma inv_streams_mild:
  assumes inv: "inv_streams t" and se: "cl_sess t c = Some se"
    and t': "cl_sess t' = (cl_sess t)(c \<mapsto> se')" "cl_pumps t' = cl_pumps t"
    and eq: "se_rcvd se' = se_rcvd se" "se_streams se' = se_streams se"
      "delivering_to se' = delivering_to se" "outbound se' = outbound se @ fs" "says_nothing fs"
    and pc: "\<And>f. se_pc se' = SSend f \<Longrightarrow> says_nothing [f]"
  shows "inv_streams t'"
proof (rule inv_streamsI)
  have k: "key t' = key t" using t'(2) by (rule key_cong)
  have hand: "in_hand j se' = in_hand j se" for j using eq(3) by (simp add: in_hand_def)
  have out: "client_payloads sid (outbound se') = client_payloads sid (outbound se)" for sid
    using eq(4,5) by (simp add: says_nothing_def)
  fix j p
  assume "cl_pumps t' j = Some p"
  with t'(2) inv_streamsD(1) [OF inv] obtain sf where sf: "cl_sess t (pu_sess p) = Some sf" "pump_ok j p sf"
    by metis
  then show "\<exists>se. cl_sess t' (pu_sess p) = Some se \<and> pump_ok j p se"
    using se pump_ok_other [of j p se se'] eq(1,2) hand out by (auto simp: t'(1))
next
  fix j i d sid sf
  assume "key t' j = Some (d, sid)" "key t' i = Some (d, sid)" "j \<noteq> i" "cl_sess t' d = Some sf"
  then show "2 \<le> opens sid (se_rcvd sf)"
    using inv_streamsD(2) [OF inv, of j d sid i] se eq(1) key_cong [OF t'(2)]
    by (auto simp: t'(1) split: if_splits)
next
  fix d sf
  assume sf: "cl_sess t' d = Some sf"
  have k: "key t' = key t" using t'(2) by (rule key_cong)
  show "sess_ok t' d sf"
  proof (cases "d = c")
    case True
    with sf have "sf = se'" by (simp add: t'(1))
    with True inv_streamsD(3) [OF inv se] eq pc show ?thesis
      by (auto simp: sess_ok_def k says_nothing_def)
  next
    case False
    with sf inv_streamsD(3) [OF inv] show ?thesis by (simp add: t'(1) sess_ok_key [OF k])
  qed
qed

text \<open>A step of a pump, and what it does to its session.\<close>

lemma inv_streams_pump:
  assumes inv: "inv_streams t" and p: "cl_pumps t k = Some p" and se: "cl_sess t (pu_sess p) = Some se"
    and t': "cl_pumps t' = (cl_pumps t)(k \<mapsto> p')" "cl_sess t' = (cl_sess t)(pu_sess p \<mapsto> se')"
    and id: "pu_sess p' = pu_sess p" "pu_sid p' = pu_sid p"
    and eq: "se_rcvd se' = se_rcvd se" "outbound se' = outbound se @ fs"
      "\<And>i j. se_streams se' i = Some j \<Longrightarrow> se_streams se i = Some j"
      "\<And>sid. sid \<noteq> pu_sid p \<Longrightarrow> client_payloads sid fs = []"
    and hand: "\<And>j. j \<noteq> k \<Longrightarrow> in_hand j se' = in_hand j se"
      "\<And>x. delivering_to se' = Some x \<Longrightarrow> delivering_to se = Some x"
    and pc: "\<And>f. se_pc se' = SSend f \<Longrightarrow> se_pc se = SSend f"
    and ok: "pump_ok k p se \<Longrightarrow> pump_ok k p' se'"
  shows "inv_streams t'"
proof (rule inv_streamsI)
  fix j q
  assume q: "cl_pumps t' j = Some q"
  show "\<exists>se. cl_sess t' (pu_sess q) = Some se \<and> pump_ok j q se"
  proof (cases "j = k")
    case True
    with q have "q = p'" by (simp add: t'(1))
    moreover from inv_streamsD(1) [OF inv p] se have "pump_ok k p se" by auto
    ultimately show ?thesis using ok True id by (simp add: t'(2))
  next
    case False
    with q have q: "cl_pumps t j = Some q" by (simp add: t'(1))
    from inv_streamsD(1) [OF inv this] obtain sf where sf: "cl_sess t (pu_sess q) = Some sf" "pump_ok j q sf"
      by blast
    show ?thesis
    proof (cases "pu_sess q = pu_sess p")
      case same: True
      with sf se have sf': "pump_ok j q se" by simp
      have "pump_ok j q se'"
      proof (cases "pu_sid q = pu_sid p")
        case True
        with same q p False inv_streamsD(2) [OF inv, of j "pu_sess p" "pu_sid p" k se] se
        have "2 \<le> opens (pu_sid q) (se_rcvd se)" by (simp add: key_def)
        then show ?thesis by (simp add: pump_ok_twice eq(1))
      next
        case other: False
        show ?thesis
          using sf' eq hand(1) [OF False] eq(4) [OF other] by (intro pump_ok_other [OF sf']) auto
      qed
      with same show ?thesis by (simp add: t'(2))
    next
      case False
      with sf show ?thesis by (simp add: t'(2))
    qed
  qed
next
  have k: "key t' = key t" using p id by (simp add: key_def t'(1) fun_eq_iff)
  fix j i d sid sf
  assume "key t' j = Some (d, sid)" "key t' i = Some (d, sid)" "j \<noteq> i" "cl_sess t' d = Some sf"
  then show "2 \<le> opens sid (se_rcvd sf)"
    using inv_streamsD(2) [OF inv, of j d sid i] se eq(1) by (auto simp: t'(2) k split: if_splits)
next
  have k: "key t' = key t" using p id by (simp add: key_def t'(1) fun_eq_iff)
  fix d sf
  assume sf: "cl_sess t' d = Some sf"
  show "sess_ok t' d sf"
  proof (cases "d = pu_sess p")
    case True
    with sf have sf': "sf = se'" by (simp add: t'(2))
    note old = inv_streamsD(3) [OF inv se, unfolded sess_ok_def]
    have "client_payloads sid (outbound se') = [] \<or> (\<exists>j. key t j = Some (pu_sess p, sid))" for sid
    proof (cases "sid = pu_sid p")
      case True
      have "key t k = Some (pu_sess p, pu_sid p)" using p by (simp add: key_def)
      with True show ?thesis by blast
    next
      case False
      with old eq(2) eq(4) [OF False] show ?thesis by auto
    qed
    with old eq(3) hand(2) pc show ?thesis unfolding sess_ok_def sf' True k by blast
  next
    case False
    with sf inv_streamsD(3) [OF inv] show ?thesis by (simp add: t'(2) sess_ok_key [OF k])
  qed
qed

text \<open>A frame from the hub, by what it means for the pumps.\<close>

lemma inv_streams_frame:
  assumes inv: "inv_streams t" and se: "cl_sess t c = Some se"
    and t': "cl_sess t' = (cl_sess t)(c \<mapsto> se')"
    and eq: "se_rcvd se' = se_rcvd se @ [f]" "outbound se' = outbound se"
    and pumps: "\<And>j. j \<noteq> k \<Longrightarrow> cl_pumps t' j = cl_pumps t j" and fresh: "cl_pumps t k = None"
    and new: "\<And>p. cl_pumps t' k = Some p \<Longrightarrow>
        pu_sess p = c \<and> is_open (pu_sid p) f \<and> (opens (pu_sid p) (se_rcvd se) = 0 \<longrightarrow> pump_ok k p se')"
    and ok: "\<And>j p. cl_pumps t j = Some p \<Longrightarrow> pu_sess p = c \<Longrightarrow> pump_ok j p se \<Longrightarrow> pump_ok j p se'"
    and se': "sess_ok t c se \<Longrightarrow> sess_ok t' c se'"
  shows "inv_streams t'"
proof (rule inv_streamsI)
  fix j p
  assume p: "cl_pumps t' j = Some p"
  show "\<exists>se. cl_sess t' (pu_sess p) = Some se \<and> pump_ok j p se"
  proof (cases "j = k")
    case True
    from new [OF p [unfolded True]] have "pump_ok k p se'"
      using eq(1) by (cases "opens (pu_sid p) (se_rcvd se)") (auto intro: pump_ok_twice)
    with new [OF p [unfolded True]] True show ?thesis by (simp add: t')
  next
    case False
    with p pumps have p: "cl_pumps t j = Some p" by metis
    from inv_streamsD(1) [OF inv this] obtain sf where sf: "cl_sess t (pu_sess p) = Some sf" "pump_ok j p sf"
      by blast
    with ok [OF p] se show ?thesis by (auto simp: t')
  qed
next
  fix j i d sid sf
  assume a: "key t' j = Some (d, sid)" "key t' i = Some (d, sid)" "j \<noteq> i" "cl_sess t' d = Some sf"
  have other: "2 \<le> opens sid (se_rcvd sf)"
    if "key t' k = Some (d, sid)" "key t' j = Some (d, sid)" "j \<noteq> k" for j
  proof -
    from that(1) obtain p where p: "cl_pumps t' k = Some p" "pu_sess p = d" "pu_sid p = sid"
      by (auto simp: key_def)
    from that pumps have "key t j = Some (d, sid)" by (simp add: key_def)
    then obtain q where q: "cl_pumps t j = Some q" "pu_sess q = d" "pu_sid q = sid" by (auto simp: key_def)
    from new [OF p(1)] p have "d = c" "is_open sid f" by auto
    moreover from inv_streamsD(1) [OF inv q(1)] q se \<open>d = c\<close> have "1 \<le> opens sid (se_rcvd se)"
      by (auto simp: pump_ok_def)
    ultimately show ?thesis using a(4) eq(1) by (simp add: t')
  qed
  show "2 \<le> opens sid (se_rcvd sf)"
  proof (cases "j = k \<or> i = k")
    case True
    with a other show ?thesis by metis
  next
    case False
    with a pumps have "key t j = Some (d, sid)" "key t i = Some (d, sid)" by (simp_all add: key_def)
    from inv_streamsD(2) [OF inv this a(3)] se a(4) eq(1) show ?thesis
      by (fastforce simp: t' split: if_splits)
  qed
next
  fix d sf
  assume sf: "cl_sess t' d = Some sf"
  show "sess_ok t' d sf"
  proof (cases "d = c")
    case True
    with sf se' inv_streamsD(3) [OF inv se] show ?thesis by (simp add: t')
  next
    case False
    have key: "key t j = Some (e, sid) \<Longrightarrow> key t' j = Some (e, sid)" for j e sid
      using pumps fresh by (cases "j = k") (simp_all add: key_def)
    from False sf inv_streamsD(3) [OF inv] have "sess_ok t d sf" by (simp add: t')
    then show ?thesis using key unfolding sess_ok_def by blast
  qed
qed

section \<open>The steps\<close>

lemma sess_upd: "cl_sess t c = Some se \<Longrightarrow> cl_sess (upd_session c f t) = (cl_sess t)(c \<mapsto> f se)"
  by (simp add: upd_session_def)

lemma pump_upd: "cl_pumps t k = Some p \<Longrightarrow> cl_pumps (upd_pump k f t) = (cl_pumps t)(k \<mapsto> f p)"
  by (simp add: upd_pump_def)

lemma delivering_to_pc [simp]:
  "delivering_to (se\<lparr>se_pc := SRecv\<rparr>) = None" "delivering_to (se\<lparr>se_pc := SAttach\<rparr>) = None"
  "delivering_to (se\<lparr>se_pc := SHandshake\<rparr>) = None" "delivering_to (se\<lparr>se_pc := SSend f\<rparr>) = None"
  "delivering_to (se\<lparr>se_pc := SDetach r\<rparr>) = None" "delivering_to (se\<lparr>se_pc := SFlush r\<rparr>) = None"
  "delivering_to (se\<lparr>se_pc := SOver r\<rparr>) = None"
  "delivering_to (se\<lparr>se_pc := SDeliver sid k x\<rparr>) = Some (sid, k, x)"
  by (simp_all add: delivering_to_def)

lemma outbound_ops [simp]:
  "outbound (se\<lparr>se_pc := pc\<rparr>) = outbound se" "outbound (se\<lparr>se_rcvd := r\<rparr>) = outbound se"
  "outbound (se\<lparr>se_streams := m\<rparr>) = outbound se"
  "outbound (se\<lparr>se_chan := ch\<rparr>) = se_sent se @ ch_queue ch"
  by (simp_all add: outbound_def)

lemma delivering_to_ops [simp]:
  "delivering_to (se\<lparr>se_chan := ch\<rparr>) = delivering_to se"
  "delivering_to (se\<lparr>se_rcvd := r\<rparr>) = delivering_to se"
  "delivering_to (se\<lparr>se_streams := m\<rparr>) = delivering_to se"
  "delivering_to (se\<lparr>se_sent := x\<rparr>) = delivering_to se"
  by (simp_all add: delivering_to_def)

lemma hub_send_OkE:
  assumes "hub_send c f t = SendOk t'"
  obtains se ch where "cl_sess t c = Some se" "ch_queue ch = ch_queue (se_chan se) @ [f]"
    "t' = upd_session c (\<lambda>se. se\<lparr>se_chan := ch\<rparr>) t" "cl_sess t' = (cl_sess t)(c \<mapsto> se\<lparr>se_chan := ch\<rparr>)"
  using assms
  by (auto simp: hub_send_def sess_upd split: option.splits sent.splits dest!: mpsc.send_appends)

lemma inv_streams_pc:
  assumes "inv_streams t" "cl_sess t c = Some se" "delivering_to se = None"
    and "delivering_to (se\<lparr>se_pc := pc\<rparr>) = None" "\<And>f. pc = SSend f \<Longrightarrow> says_nothing [f]"
  shows "inv_streams (set_sess_pc c pc t)"
  by (rule inv_streams_mild [OF assms(1,2), where se' = "se\<lparr>se_pc := pc\<rparr>" and fs = "[]"])
    (use assms in \<open>simp_all add: set_sess_pc_def sess_upd\<close>)

lemma inv_streams_send:
  assumes inv: "inv_streams t" and s: "hub_send c f t = SendOk t'" and f: "says_nothing [f]"
  shows "inv_streams t'"
  using s
proof (cases rule: hub_send_OkE)
  case (1 se ch)
  show ?thesis
    by (rule inv_streams_mild [OF inv 1(1), where se' = "se\<lparr>se_chan := ch\<rparr>" and fs = "[f]"])
      (use 1 f inv_streamsD(3) [OF inv 1(1)] in \<open>auto simp: outbound_def sess_ok_def\<close>)
qed

lemma inv_streams_hd_step:
  assumes inv: "inv_streams t" and st: "hd_step lib h inp t = Some t'"
  shows "inv_streams t'"
proof (cases "cl_sess t' = cl_sess t \<and> cl_pumps t' = cl_pumps t")
  case True
  with inv show ?thesis by (auto intro: inv_streams_same)
next
  case False
  with st obtain c sid req u where u: "hub_send c (client_http_request sid req) t = SendOk u"
    "t' = set_handler_pc h (HWait sid) u"
    by (auto simp: hd_step_def hd_body_def hd_hub_def hd_register_def hd_send_def hd_unsend_def hd_wait_def
        hd_timeout_def client_pcs next_stream_id_def pending_remove_def Let_def
        split: option.splits handler_pc.splits handler_input.splits body_outcome.splits sent.splits
          wait_outcome.splits if_splits)
  from inv_streams_send [OF inv u(1)] have "inv_streams u" by simp
  then show ?thesis by (rule inv_streams_same) (simp_all add: u(2) client_pcs)
qed

lemma inv_streams_start:
  assumes inv: "inv_streams t" and st: "se_start c t = Some t'"
  shows "inv_streams t'"
proof -
  from st have none: "cl_sess t c = None"
    and t': "cl_pumps t' = cl_pumps t"
      "\<exists>se. cl_sess t' = (cl_sess t)(c \<mapsto> se) \<and> se_streams se = Map.empty \<and> se_pc se = SConnect \<and>
        outbound se = []"
    by (auto simp: se_start_def outbound_def channel_def split: if_splits)
  then obtain se where se: "cl_sess t' = (cl_sess t)(c \<mapsto> se)" "se_streams se = Map.empty"
    "se_pc se = SConnect" "outbound se = []" by blast
  have k: "key t' = key t" using t'(1) by (rule key_cong)
  have fresh: "key t k \<noteq> Some (c, sid)" for k sid
    using inv_streamsD(1) [OF inv] none by (force simp: key_def)
  show ?thesis
  proof (rule inv_streamsI)
    fix k p assume "cl_pumps t' k = Some p"
    then have p: "cl_pumps t k = Some p" by (simp add: t'(1))
    from inv_streamsD(1) [OF inv p] none show "\<exists>se. cl_sess t' (pu_sess p) = Some se \<and> pump_ok k p se"
      by (auto simp: se(1))
  next
    fix k j d sid sf
    assume a: "key t' k = Some (d, sid)" "key t' j = Some (d, sid)" "k \<noteq> j" "cl_sess t' d = Some sf"
    with fresh have "d \<noteq> c" by (auto simp: k)
    with a inv_streamsD(2) [OF inv, of k d sid j sf] show "2 \<le> opens sid (se_rcvd sf)" by (simp add: k se(1))
  next
    fix d sf assume "cl_sess t' d = Some sf"
    then have "d = c \<and> sf = se \<or> sess_ok t d sf"
      using inv_streamsD(3) [OF inv, of d sf] by (auto simp: se(1) split: if_splits)
    with se(2-4) show "sess_ok t' d sf"
      by (auto simp: sess_ok_key [OF k] sess_ok_def [of t c] delivering_to_def)
  qed
qed

lemma inv_streams_env:
  assumes inv: "inv_streams t"
  shows "cl_take c t = Some t' \<Longrightarrow> inv_streams t'" "cl_drop_rx c t = Some t' \<Longrightarrow> inv_streams t'"
proof -
  assume "cl_take c t = Some t'"
  then obtain se f ch where se: "cl_sess t c = Some se" "chan_recv (se_chan se) = Some (f, ch)"
    "t' = upd_session c (\<lambda>se. se\<lparr>se_chan := ch, se_sent := se_sent se @ [f]\<rparr>) t"
    by (auto simp: cl_take_def split: option.splits prod.splits if_splits)
  then have q: "outbound (se\<lparr>se_chan := ch, se_sent := se_sent se @ [f]\<rparr>) = outbound se"
    using mpsc.recv_takes [OF se(2)] by (simp add: outbound_def)
  show "inv_streams t'"
    by (rule inv_streams_mild [OF inv se(1), where se' = "se\<lparr>se_chan := ch, se_sent := se_sent se @ [f]\<rparr>" and fs = "[]"])
      (use se q inv_streamsD(3) [OF inv se(1)] in \<open>auto simp: sess_upd sess_ok_def delivering_to_def\<close>)
next
  assume "cl_drop_rx c t = Some t'"
  then obtain se where se: "cl_sess t c = Some se"
    "t' = upd_session c (\<lambda>se. se\<lparr>se_chan := chan_drop_rx (se_chan se)\<rparr>) t"
    by (auto simp: cl_drop_rx_def split: if_splits)
  show "inv_streams t'"
    by (rule inv_streams_mild [OF inv se(1), where se' = "se\<lparr>se_chan := chan_drop_rx (se_chan se)\<rparr>" and fs = "[]"])
      (use se inv_streamsD(3) [OF inv se(1)] in \<open>auto simp: sess_upd sess_ok_def outbound_def chan_drop_rx_def\<close>)
qed

text \<open>A frame that starts no pump and hands no payload over.\<close>

lemma inv_streams_quiet_frame:
  assumes inv: "inv_streams t" and se: "cl_sess t c = Some se" and k: "cl_pumps t k = None"
    and t': "cl_sess t' = (cl_sess t)(c \<mapsto> se')" "cl_pumps t' = cl_pumps t"
    and eq: "se_rcvd se' = se_rcvd se @ [f]" "outbound se' = outbound se"
      "delivering_to se = None" "delivering_to se' = None"
    and m: "\<And>sid j. se_streams se' sid = Some j \<Longrightarrow> se_streams se sid = Some j"
    and pc: "\<And>g. se_pc se' = SSend g \<Longrightarrow> says_nothing [g]"
    and f: "\<And>sid j. is_open sid f \<or> server_payloads sid [f] = [] \<or>
        se_streams se' = se_streams se \<and> se_streams se sid \<noteq> Some j"
  shows "inv_streams t'"
proof (rule inv_streams_frame [OF inv se t'(1) eq(1,2) _ k])
  have hand: "in_hand j se = []" "in_hand j se' = []" for j using eq(3,4) by (simp_all add: in_hand_def)
  show "pump_ok j p se'" if "cl_pumps t j = Some p" "pu_sess p = c" "pump_ok j p se" for j p
  proof (cases "is_open (pu_sid p) f")
    case True
    with that eq(1) show ?thesis by (blast intro: pump_ok_reopened)
  next
    case False
    with f [of "pu_sid p" j] consider "server_payloads (pu_sid p) [f] = []"
      | "se_streams se' = se_streams se" "se_streams se (pu_sid p) \<noteq> Some j" by blast
    then show ?thesis
    proof cases
      case 1
      show ?thesis by (rule pump_ok_frame [OF that(3) eq(1) False 1]) (use hand m eq(2) in auto)
    next
      case 2
      show ?thesis by (rule pump_ok_dropped [OF that(3) eq(1) False 2(2,1) hand eq(2)])
    qed
  qed
  show "sess_ok t' c se'" if "sess_ok t c se"
    using that m pc eq(2,4) by (auto simp: sess_ok_def key_cong [OF t'(2)])
qed (use k t'(2) in simp_all)

lemma frame_kinds [simp]:
  "is_open sid f \<longleftrightarrow> sf_stream_id f = sid \<and> (\<exists>op. sf_kind f = Some (Open op))"
  by (auto simp: is_open_def split: option.splits server_kind.splits)

lemma log_sess: "cl_sess t c = Some se \<Longrightarrow>
    cl_sess (log_inbound c f t) = (cl_sess t)(c \<mapsto> se\<lparr>se_rcvd := se_rcvd se @ [f]\<rparr>)"
  "cl_pumps (log_inbound c f t) = cl_pumps t"
  by (simp_all add: log_inbound_def sess_upd)

lemma inv_streams_open:
  assumes inv: "inv_streams t" and se: "cl_sess t c = Some se" "se_pc se = SRecv" and k: "cl_pumps t k = None"
    and f: "sf_kind f = Some (Open op)" "sf_stream_id f = sid"
  shows "inv_streams (upd_session c (\<lambda>se. se\<lparr>se_streams := (se_streams se)(sid \<mapsto> k)\<rparr>)
     (log_inbound c f t\<lparr>cl_pumps := (cl_pumps (log_inbound c f t))(k \<mapsto> pump_new c sid target)\<rparr>))"
    (is "inv_streams ?t")
proof -
  let ?se = "se\<lparr>se_rcvd := se_rcvd se @ [f], se_streams := (se_streams se)(sid \<mapsto> k)\<rparr>"
  have t': "cl_sess ?t = (cl_sess t)(c \<mapsto> ?se)" "cl_pumps ?t = (cl_pumps t)(k \<mapsto> pump_new c sid target)"
    using se by (simp_all add: upd_session_def log_sess)
  have dl: "delivering_to se = None" using se by (simp add: delivering_to_def)
  have old: "sess_ok t c se" by (rule inv_streamsD(3) [OF inv se(1)])
  show ?thesis
  proof (rule inv_streams_frame [OF inv se(1) t'(1), where f = f and k = k])
    fix p assume "cl_pumps ?t k = Some p"
    then have p: "p = pump_new c sid target" by (simp add: t'(2))
    have "client_payloads sid (outbound se) = []" if "opens sid (se_rcvd se) = 0"
    proof -
      have "key t j \<noteq> Some (c, sid)" for j
        using inv_streamsD(1) [OF inv, of j] se(1) that by (fastforce simp: key_def pump_ok_def)
      with old show ?thesis by (auto simp: sess_ok_def)
    qed
    then show "pu_sess p = c \<and> is_open (pu_sid p) f \<and> (opens (pu_sid p) (se_rcvd se) = 0 \<longrightarrow> pump_ok k p ?se)"
      using f dl by (simp add: p pump_new_def pump_ok_def down_ok_def heard_snoc in_hand_def channel_def)
  next
    fix j p assume p: "cl_pumps t j = Some p" "pu_sess p = c" "pump_ok j p se"
    show "pump_ok j p ?se"
    proof (cases "pu_sid p = sid")
      case True
      with p f show ?thesis by (intro pump_ok_reopened [where f = f, OF p(3)]) simp_all
    next
      case False
      with f dl show ?thesis
        by (intro pump_ok_frame [where f = f, OF p(3)]) (simp_all add: in_hand_def)
    qed
  next
    assume ok: "sess_ok t c se"
    have new: "key ?t k = Some (c, sid)" by (simp add: key_def t'(2) pump_new_def)
    have keep: "key ?t j = Some (d, i)" if "key t j = Some (d, i)" for j d i
    proof -
      from that k have "j \<noteq> k" by (auto simp: key_def)
      with that show ?thesis by (simp add: key_def t'(2) log_sess(2))
    qed
    show "sess_ok ?t c ?se"
      unfolding sess_ok_def
    proof (intro conjI allI impI)
      fix i j assume "se_streams ?se i = Some j"
      then show "key ?t j = Some (c, i)" using ok new keep by (auto simp: sess_ok_def split: if_splits)
    next
      fix i
      show "client_payloads i (outbound ?se) = [] \<or> (\<exists>j. key ?t j = Some (c, i))"
      proof -
        from ok have "client_payloads i (outbound se) = [] \<or> (\<exists>j. key t j = Some (c, i))"
          unfolding sess_ok_def by blast
        then show ?thesis
        proof (elim disjE exE)
          fix j assume "key t j = Some (c, i)"
          from keep [OF this] show ?thesis by blast
        qed simp
      qed
    qed (use dl se(2) in simp_all)
  qed (use k t' in simp_all)
qed

lemma inv_streams_data:
  assumes inv: "inv_streams t" and se: "cl_sess t c = Some se" "se_pc se = SRecv" and k: "cl_pumps t i = None"
    and f: "sf_kind f = Some (SData x)" "sf_stream_id f = sid" and m: "se_streams se sid = Some k"
  shows "inv_streams (set_sess_pc c (SDeliver sid k x) (log_inbound c f t))" (is "inv_streams ?t")
proof -
  let ?se = "se\<lparr>se_rcvd := se_rcvd se @ [f], se_pc := SDeliver sid k x\<rparr>"
  have t': "cl_sess ?t = (cl_sess t)(c \<mapsto> ?se)" "cl_pumps ?t = cl_pumps t"
    using se by (simp_all add: set_sess_pc_def sess_upd log_sess)
  have dl: "delivering_to se = None" using se by (simp add: delivering_to_def)
  have old: "sess_ok t c se" by (rule inv_streamsD(3) [OF inv se(1)])
  have kk: "key t k = Some (c, sid)" using old m by (simp add: sess_ok_def)
  show ?thesis
  proof (rule inv_streams_frame [OF inv se(1) t'(1), where f = f and k = i])
    fix j p assume p: "cl_pumps t j = Some p" "pu_sess p = c" "pump_ok j p se"
    show "pump_ok j p ?se"
    proof (cases "pu_sid p = sid")
      case False
      with f dl kk p show ?thesis
        by (intro pump_ok_frame [where f = f, OF p(3)]) (auto simp: in_hand_def key_def)
    next
      case same: True
      show ?thesis
      proof (cases "j = k")
        case True
        with same f dl m show ?thesis
          by (intro pump_ok_taken [where f = f and x = x, OF p(3)]) (simp_all add: in_hand_def)
      next
        case False
        with same f dl m show ?thesis
          by (intro pump_ok_dropped [where f = f, OF p(3)]) (simp_all add: in_hand_def)
      qed
    qed
  next
    assume "sess_ok t c se"
    with kk show "sess_ok ?t c ?se" by (auto simp: sess_ok_def key_cong [OF t'(2)])
  qed (use k t' in simp_all)
qed

lemma inv_streams_se_frame:
  assumes inv: "inv_streams t" and se: "cl_sess t c = Some se" "se_pc se = SRecv" and k: "cl_pumps t k = None"
  shows "inv_streams (se_frame cfg lib c f k (log_inbound c f t))" (is "inv_streams ?t")
proof -
  have dl: "delivering_to se = None" using se by (simp add: delivering_to_def)
  have quiet: "inv_streams t'"
    if "cl_sess t' = (cl_sess t)(c \<mapsto> se')" "cl_pumps t' = cl_pumps t"
      "se_rcvd se' = se_rcvd se @ [f]" "outbound se' = outbound se" "delivering_to se' = None"
      "\<And>sid j. se_streams se' sid = Some j \<Longrightarrow> se_streams se sid = Some j"
      "\<And>g. se_pc se' = SSend g \<Longrightarrow> says_nothing [g]"
      "\<And>sid j. is_open sid f \<or> server_payloads sid [f] = [] \<or>
        se_streams se' = se_streams se \<and> se_streams se sid \<noteq> Some j" for t' se'
    using inv_streams_quiet_frame [OF inv se(1) k that(1-4) dl that(5-8)] by blast
  note logged = log_sess(1) [OF se(1), of f] log_sess(2) [of c f t]
  let ?se = "se\<lparr>se_rcvd := se_rcvd se @ [f]\<rparr>"
  show ?thesis
  proof (cases "sf_kind f")
    case None
    show ?thesis by (rule quiet [where se' = ?se]) (use None se dl logged in \<open>simp_all add: se_frame_def\<close>)
  next
    case (Some kind)
    show ?thesis
    proof (cases kind)
      case (Challenge ch)
      show ?thesis by (rule quiet [where se' = "?se\<lparr>se_pc := SHandshake\<rparr>"])
        (use Challenge Some se dl logged in \<open>simp_all add: se_frame_def set_sess_pc_def sess_upd\<close>)
    next
      case (Open op)
      show ?thesis
      proof (cases "cc_targets cfg (if os_target op = [] then ''default'' else os_target op)")
        case None
        show ?thesis by (rule quiet [where se' = "?se\<lparr>se_pc := SSend (client_close (sf_stream_id f) False
            (''unknown target '' @ hl_debug lib (if os_target op = [] then ''default'' else os_target op)))\<rparr>"])
          (use None Open Some se dl logged in \<open>auto simp: se_frame_def se_open_def set_sess_pc_def sess_upd Let_def\<close>)
      next
        case target: (Some target)
        have "?t = upd_session c (\<lambda>se. se\<lparr>se_streams := (se_streams se)(sf_stream_id f \<mapsto> k)\<rparr>)
            (log_inbound c f t\<lparr>cl_pumps := (cl_pumps (log_inbound c f t))(k \<mapsto> pump_new c (sf_stream_id f) target)\<rparr>)"
          using target Open Some by (simp add: se_frame_def se_open_def Let_def)
        with inv_streams_open [OF inv se k] Open Some show ?thesis by simp
      qed
    next
      case (SData x)
      show ?thesis
      proof (cases "se_streams se (sf_stream_id f)")
        case None
        show ?thesis by (rule quiet [where se' = ?se])
          (use None SData Some se dl logged in \<open>auto simp: se_frame_def se_data_def\<close>)
      next
        case (Some j)
        then have "?t = set_sess_pc c (SDeliver (sf_stream_id f) j x) (log_inbound c f t)"
          using SData \<open>sf_kind f = Some kind\<close> logged by (simp add: se_frame_def se_data_def)
        with inv_streams_data [OF inv se k] SData \<open>sf_kind f = Some kind\<close> Some show ?thesis by simp
      qed
    next
      case (SClose cs)
      show ?thesis by (rule quiet [where se' = "?se\<lparr>se_streams := (se_streams se)(sf_stream_id f := None)\<rparr>"])
        (use SClose Some se dl logged in \<open>auto simp: se_frame_def streams_remove_def sess_upd split: if_splits\<close>)
    next
      case (Ping n)
      show ?thesis by (rule quiet [where se' = "?se\<lparr>se_pc := SSend (client_pong n)\<rparr>"])
        (use Ping Some se dl logged in \<open>simp_all add: se_frame_def set_sess_pc_def sess_upd\<close>)
    next
      case (SHttpResponse r)
      show ?thesis by (rule quiet [where se' = ?se])
        (use SHttpResponse Some se dl logged in
          \<open>auto simp: se_frame_def se_response_def pending_remove_def split: option.splits\<close>)
    qed
  qed
qed

lemma inv_streams_deliver:
  assumes inv: "inv_streams t" and se: "cl_sess t c = Some se" "se_pc se = SDeliver sid k x"
    and st: "se_deliver c k x t = Some t'"
  shows "inv_streams t'"
proof -
  have dl: "delivering_to se = Some (sid, k, x)" using se by (simp add: delivering_to_def)
  with inv_streamsD(3) [OF inv se(1)] have "key t k = Some (c, sid)" by (simp add: sess_ok_def)
  then obtain p where p: "cl_pumps t k = Some p" "pu_sess p = c" "pu_sid p = sid" by (auto simp: key_def)
  let ?se = "se\<lparr>se_pc := SRecv\<rparr>"
  have hand: "in_hand j ?se = []" "in_hand j se = (if j = k then [x] else [])" for j
    using dl by (simp_all add: in_hand_def)
  from se have c: "cl_sess t (pu_sess p) = Some se" by (simp add: p(2))
  show ?thesis
  proof (cases "chan_send x (pu_chan p)")
    case SendWait
    with st p show ?thesis by (simp add: se_deliver_def)
  next
    case SendErr
    with st p have t': "t' = set_sess_pc c SRecv t" by (simp add: se_deliver_def)
    have "pump_ok k p se \<Longrightarrow> pump_ok k p ?se"
      using SendErr hand by (auto simp: pump_ok_def down_ok_def chan_send_def split: if_splits)
    then show ?thesis
      by (intro inv_streams_pump [OF inv p(1) c, where p' = p and se' = ?se and fs = "[]"])
        (use t' p se hand in \<open>auto simp: set_sess_pc_def sess_upd\<close>)
  next
    case (SendOk ch)
    let ?p = "p\<lparr>pu_chan := ch\<rparr>"
    from st p SendOk have t': "t' = set_sess_pc c SRecv (upd_pump k (\<lambda>p. p\<lparr>pu_chan := ch\<rparr>) t)"
      by (simp add: se_deliver_def)
    have "pump_ok k p se \<Longrightarrow> pump_ok k ?p ?se"
      using mpsc.send_appends [OF SendOk] chan_send_OkD [OF SendOk] hand
      by (auto simp: pump_ok_def down_ok_def)
    then show ?thesis
      by (intro inv_streams_pump [OF inv p(1) c, where p' = ?p and se' = ?se and fs = "[]"])
        (use t' p se hand in \<open>auto simp: set_sess_pc_def upd_session_def upd_pump_def\<close>)
  qed
qed

lemma inv_streams_se_step:
  assumes inv: "inv_streams t" and st: "se_step cfg lib c inp t = Some t'"
  shows "inv_streams t'"
proof -
  from st obtain se where se: "cl_sess t c = Some se" by (auto simp: se_step_def split: option.splits)
  have pc: "inv_streams (set_sess_pc c pc' u)"
    if "inv_streams u" "cl_sess u c = Some sf" "delivering_to sf = None" "pc' \<in> {SRecv, SAttach, SDetach r, SFlush r, SOver r}"
    for u sf pc' r
    by (rule inv_streams_pc [OF that(1-3)]) (use that(4) in auto)
  show ?thesis
  proof (cases "se_pc se")
    case SConnect
    with st se obtain r where "t' = se_connect c r t" by (auto simp: se_step_def split: sess_input.splits)
    with SConnect se inv show ?thesis
      by (cases r) (auto simp: se_connect_def delivering_to_def intro!: pc)
  next
    case SAttach
    with st se have t': "t' = set_sess_pc c SRecv (attach_hub c t)"
      by (auto simp: se_step_def se_attach_def split: sess_input.splits)
    have "inv_streams (attach_hub c t)" by (rule inv_streams_same [OF inv]) (simp_all add: attach_hub_def)
    with SAttach se show ?thesis unfolding t'
      by (intro pc [where sf = se]) (auto simp: attach_hub_def delivering_to_def)
  next
    case SRecv
    have d: "delivering_to se = None" using SRecv by (simp add: delivering_to_def)
    from st se SRecv obtain r where r: "se_recv cfg lib c r t = Some t'"
      by (auto simp: se_step_def split: sess_input.splits)
    show ?thesis
    proof (cases r)
      case (InFrame f k)
      with r have k: "cl_pumps t k = None" "t' = se_frame cfg lib c f k (log_inbound c f t)"
        by (auto simp: se_recv_def split: if_splits)
      show ?thesis unfolding k(2) by (rule inv_streams_se_frame [OF inv se SRecv k(1)])
    qed (use r in \<open>auto simp: se_recv_def intro!: pc [OF inv se d]\<close>)
  next
    case SHandshake
    have d: "delivering_to se = None" using SHandshake by (simp add: delivering_to_def)
    from st se SHandshake have st: "se_handshake cfg c t = Some t'"
      by (auto simp: se_step_def split: sess_input.splits)
    show ?thesis
    proof (cases "hub_send c (client_handshake (cc_spoke_id cfg) (cc_token cfg)) t")
      case (SendOk u)
      then obtain ch where u: "cl_sess u c = Some (se\<lparr>se_chan := ch\<rparr>)"
        using se by (auto elim!: hub_send_OkE)
      from st SendOk have "t' = set_sess_pc c SRecv u" by (simp add: se_handshake_def)
      with inv_streams_send [OF inv SendOk] d u show ?thesis by (simp add: pc)
    qed (use st inv se d in \<open>auto simp: se_handshake_def intro!: pc\<close>)
  next
    case (SSend f)
    have d: "delivering_to se = None" using SSend by (simp add: delivering_to_def)
    from st se SSend have st: "se_send c f t = Some t'" by (auto simp: se_step_def split: sess_input.splits)
    have f: "says_nothing [f]" using inv_streamsD(3) [OF inv se] SSend by (simp add: sess_ok_def)
    show ?thesis
    proof (cases "hub_send c f t")
      case (SendOk u)
      then obtain ch where u: "cl_sess u c = Some (se\<lparr>se_chan := ch\<rparr>)"
        using se by (auto elim!: hub_send_OkE)
      from st SendOk have "t' = set_sess_pc c SRecv u" by (simp add: se_send_def)
      with inv_streams_send [OF inv SendOk f] d u show ?thesis by (simp add: pc)
    qed (use st inv se d in \<open>auto simp: se_send_def intro!: pc\<close>)
  next
    case (SDeliver sid k x)
    with st se have "se_deliver c k x t = Some t'" by (auto simp: se_step_def split: sess_input.splits)
    with inv_streams_deliver [OF inv se SDeliver] show ?thesis .
  next
    case (SDetach r)
    with st se have t': "t' = set_sess_pc c (SFlush r) (detach_hub t)"
      by (auto simp: se_step_def se_detach_def split: sess_input.splits)
    have "inv_streams (detach_hub t)" by (rule inv_streams_same [OF inv]) (simp_all add: detach_hub_def)
    with SDetach se show ?thesis unfolding t'
      by (intro pc [where sf = se and r = r]) (auto simp: detach_hub_def delivering_to_def)
  next
    case (SFlush r)
    with st se have t': "t' = set_sess_pc c (SOver r) (flush_pending t)"
      by (auto simp: se_step_def se_flush_def split: sess_input.splits)
    have "inv_streams (flush_pending t)" by (rule inv_streams_same [OF inv]) (simp_all add: flush_pending_def)
    with SFlush se show ?thesis unfolding t'
      by (intro pc [where sf = se and r = r]) (auto simp: flush_pending_def delivering_to_def)
  next
    case (SOver r)
    with st se show ?thesis by (simp add: se_step_def)
  qed
qed

text \<open>A step of a pump that leaves its session alone, and one that sends a frame.\<close>

lemma down_ok_pc:
  "down_ok k p se \<Longrightarrow> (writing pc \<Longrightarrow> writing (pu_pc p)) \<Longrightarrow> down_ok k (p\<lparr>pu_pc := pc\<rparr>) se"
  by (auto simp: down_ok_def split: if_splits)

lemma down_ok_chan [simp]: "down_ok k p (se\<lparr>se_chan := ch\<rparr>) = down_ok k p se"
  by (simp add: down_ok_def in_hand_def)

lemma inv_streams_pump_only:
  assumes inv: "inv_streams t" and p: "cl_pumps t k = Some p"
    and id: "pu_sess (g p) = pu_sess p" "pu_sid (g p) = pu_sid p"
    and ok: "\<And>se. pump_ok k p se \<Longrightarrow> pump_ok k (g p) se"
  shows "inv_streams (upd_pump k g t)"
proof -
  from inv_streamsD(1) [OF inv p] obtain se where se: "cl_sess t (pu_sess p) = Some se" by blast
  show ?thesis
    by (rule inv_streams_pump [OF inv p se, where p' = "g p" and se' = se and fs = "[]"])
      (use p id ok se in \<open>simp_all add: pump_upd map_upd_triv\<close>)
qed

lemma inv_streams_pump_send:
  assumes inv: "inv_streams t" and p: "cl_pumps t k = Some p"
    and s: "hub_send (pu_sess p) f t = SendOk u"
    and f: "\<And>sid. sid \<noteq> pu_sid p \<Longrightarrow> client_payloads sid [f] = []"
    and ok: "\<And>rd ps. up_ok (pu_pc p) rd ps \<Longrightarrow> up_ok pc rd (ps @ client_payloads (pu_sid p) [f])"
    and w: "writing pc \<Longrightarrow> writing (pu_pc p)"
  shows "inv_streams (set_pump_pc k pc u)"
  using s
proof (cases rule: hub_send_OkE)
  case (1 se ch)
  let ?p = "p\<lparr>pu_pc := pc\<rparr>" and ?se = "se\<lparr>se_chan := ch\<rparr>"
  have out: "outbound ?se = outbound se @ [f]" using 1(2) by (simp add: outbound_def)
  have hand: "in_hand j ?se = in_hand j se" for j by (simp add: in_hand_def)
  have "pump_ok k p se \<Longrightarrow> pump_ok k ?p ?se"
    using ok down_ok_pc [OF _ w] by (auto simp: pump_ok_def out simp del: outbound_ops client_payloads.simps)
  with 1 p f out hand show ?thesis
    by (intro inv_streams_pump [OF inv p 1(1), where p' = ?p and se' = ?se and fs = "[f]"])
      (simp_all add: set_pump_pc_def upd_pump_def upd_session_def del: client_payloads.simps)
qed

lemma inv_streams_pump_pc:
  assumes "inv_streams t" "cl_pumps t k = Some p"
    and "\<And>rd ps. up_ok (pu_pc p) rd ps \<Longrightarrow> up_ok pc rd ps" "writing pc \<Longrightarrow> writing (pu_pc p)"
  shows "inv_streams (set_pump_pc k pc t)"
  unfolding set_pump_pc_def
  by (rule inv_streams_pump_only [OF assms(1,2)])
    (use assms(3) down_ok_pc [OF _ assms(4)] in \<open>auto simp: pump_ok_def\<close>)

lemma up_ok_loose: "up_ok pc rd ps \<Longrightarrow> up_ok RRemove rd ps" "up_ok RRemove rd ps \<Longrightarrow> up_ok RDone rd ps"
  by (cases pc) auto

lemma client_frame_payloads [simp]:
  "client_payloads sid [client_data i x] = (if i = sid then [x] else [])"
  "client_payloads sid [client_close i half r] = []"
  by (simp_all add: client_data_def client_close_def)

lemma inv_streams_pu_recv:
  assumes inv: "inv_streams t" and p: "cl_pumps t k = Some p" "pu_pc p = RLoop"
    and st: "pu_recv k p ok t = Some t'"
  shows "inv_streams t'"
proof (cases "chan_recv (pu_chan p)")
  case None
  with st have "t' = set_pump_pc k RRemove t" by (auto simp: pu_recv_def split: if_splits)
  with inv_streams_pump_pc [OF inv p(1)] p(2) show ?thesis by simp
next
  case (Some a)
  then obtain x ch where a: "chan_recv (pu_chan p) = Some (x, ch)" by (cases a) simp
  note q = chan_recv_SomeD [OF a]
  show ?thesis
  proof (cases ok)
    case True
    let ?g = "\<lambda>p. p\<lparr>pu_chan := ch, pu_written := pu_written p @ [x]\<rparr>"
    have "pump_ok k p se \<Longrightarrow> pump_ok k (?g p) se" for se
      using p(2) q by (auto simp: pump_ok_def down_ok_def)
    with inv_streams_pump_only [OF inv p(1), of ?g] st a True show ?thesis by (simp add: pu_recv_def)
  next
    case False
    let ?g = "\<lambda>p. p\<lparr>pu_chan := ch, pu_pc := RRemove\<rparr>"
    have "pump_ok k p se \<Longrightarrow> pump_ok k (?g p) se" for se
      using p(2) q by (auto simp: pump_ok_def down_ok_def)
    with inv_streams_pump_only [OF inv p(1), of ?g] st a False show ?thesis by (simp add: pu_recv_def)
  qed
qed

lemma inv_streams_pu_remove:
  assumes inv: "inv_streams t" and p: "cl_pumps t k = Some p" "pu_pc p = RRemove"
  shows "inv_streams (pu_remove k p t)"
proof -
  from inv_streamsD(1) [OF inv p(1)] obtain se where se: "cl_sess t (pu_sess p) = Some se" by blast
  let ?p = "p\<lparr>pu_pc := RDone, pu_chan := chan_drop_rx (pu_chan p)\<rparr>"
  let ?se = "se\<lparr>se_streams := (se_streams se)(pu_sid p := None)\<rparr>"
  have hand: "in_hand j ?se = in_hand j se" for j by (simp add: in_hand_def)
  have "pump_ok k p se \<Longrightarrow> pump_ok k ?p ?se" using p(2) by (auto simp: pump_ok_def down_ok_def)
  with p se hand show ?thesis
    by (intro inv_streams_pump [OF inv p(1) se, where p' = ?p and se' = ?se and fs = "[]"])
      (auto simp: pu_remove_def streams_remove_def upd_session_def upd_pump_def split: if_splits)
qed

lemma inv_streams_pu_step:
  assumes inv: "inv_streams t" and st: "pu_step k e t = Some t'"
  shows "inv_streams t'"
proof -
  from st obtain p where p: "cl_pumps t k = Some p" by (auto simp: pu_step_def split: option.splits)
  note pc = inv_streams_pump_pc [OF inv p] and send = inv_streams_pump_send [OF inv p]
  note loose = up_ok_loose(1) [where pc = "pu_pc p"]
  have close: "inv_streams t'"
    if "pu_send_close k p (client_close (pu_sid p) half r) t = Some t'" for half r
    using that pc [of RRemove] send [where f = "client_close (pu_sid p) half r" and pc = RRemove] loose
    by (auto simp: pu_send_close_def simp del: client_payloads.simps split: sent.splits)
  show ?thesis
  proof (cases "pu_pc p")
    case (RDial target)
    with st p obtain r where "t' = pu_dial k r t" by (auto simp: pu_step_def split: pump_event.splits)
    with RDial pc show ?thesis by (cases r) (simp_all add: pu_dial_def)
  next
    case (RRefuse reason)
    with st p close show ?thesis by (auto simp: pu_step_def split: pump_event.splits)
  next
    case RLoop
    have read: "inv_streams (upd_pump k (\<lambda>p. p\<lparr>pu_pc := RSendData bs, pu_read := pu_read p @ [bs]\<rparr>) t)" for bs
      by (rule inv_streams_pump_only [OF inv p]) (use RLoop in \<open>auto simp: pump_ok_def down_ok_def\<close>)
    from RLoop st p pc [of RSendEof] read inv_streams_pu_recv [OF inv p RLoop] show ?thesis
      by (auto simp: pu_step_def pu_got_def split: pump_event.splits if_splits)
  next
    case (RSendData bs)
    with st p have "pu_send_data k p bs t = Some t'" by (auto simp: pu_step_def split: pump_event.splits)
    with RSendData pc [of RRemove] send [where f = "client_data (pu_sid p) bs" and pc = RLoop] show ?thesis
      by (auto simp: pu_send_data_def simp del: client_payloads.simps split: sent.splits)
  next
    case RSendEof
    with st p close show ?thesis by (auto simp: pu_step_def split: pump_event.splits)
  next
    case RRemove
    with st p have "t' = pu_remove k p t" by (auto simp: pu_step_def split: pump_event.splits)
    with inv_streams_pu_remove [OF inv p RRemove] show ?thesis by simp
  next
    case RDone
    with st p show ?thesis by (simp add: pu_step_def)
  qed
qed

lemma inv_streams_step:
  assumes "inv_streams t" "cl_step cfg lib e t = Some t'"
  shows "inv_streams t'"
proof (cases e)
  case (CvRequest h req)
  with assms show ?thesis by (auto simp: hd_open_def intro: inv_streams_same split: if_splits)
next
  case (CvHandler h inp)
  with assms inv_streams_hd_step show ?thesis by simp
next
  case (CvCancel h)
  with assms show ?thesis
    by (auto simp: hd_cancel_def set_handler_pc_def intro!: inv_streams_same [OF assms(1)]
        split: option.splits handler_pc.splits if_splits)
next
  case (CvStart c)
  with assms inv_streams_start show ?thesis by simp
next
  case (CvSess c inp)
  with assms inv_streams_se_step show ?thesis by simp
next
  case (CvPump k e)
  with assms inv_streams_pu_step show ?thesis by simp
next
  case (CvTake c)
  with assms inv_streams_env(1) show ?thesis by simp
next
  case (CvDropRx c)
  with assms inv_streams_env(2) show ?thesis by simp
qed

lemma inv_streams_reach: "cl_reach cfg lib n t \<Longrightarrow> inv_streams t"
proof (induction rule: cl_reach.induct)
  case cl_reach_init
  show ?case by (simp add: inv_streams_def client_init_def key_def)
next
  case (cl_reach_step n s e s')
  from inv_streams_step [OF cl_reach_step(3,2)] show ?case .
qed

section \<open>The two directions\<close>

lemma pump_ok_reach:
  assumes "cl_reach cfg lib n t" "cl_pumps t k = Some p" "cl_sess t (pu_sess p) = Some se"
    "opens (pu_sid p) (se_rcvd se) = 1"
  shows "down_ok k p se" "up_ok (pu_pc p) (pu_read p) (client_payloads (pu_sid p) (outbound se))"
  using inv_streamsD(1) [OF inv_streams_reach [OF assms(1)] assms(2)] assms(3,4)
  by (auto simp: pump_ok_def)

lemma up_ok_cases: "up_ok pc rd ps \<Longrightarrow> \<exists>lost. rd = ps @ lost \<and> length lost \<le> 1"
  using up_ok_loose(1) by (fastforce simp del: up_ok.simps(1-5))

lemma down_ok_prefix: "down_ok k p se \<Longrightarrow> \<exists>post. heard (pu_sid p) (se_rcvd se) = pu_written p @ post"
  by (auto simp: down_ok_def split: if_splits)

text \<open>
  C12. On the spoke a stream that the hub opened once in the session is carried faithfully both ways, for
  every interleaving: what its pump wrote to the target is a prefix of the payloads the hub sent after
  the \<open>Open\<close>, in order, and the \<open>Data\<close> frames the client sent for it carry what the pump read from
  the target, in order and complete but for at most the last read. While the stream is registered,
  its pump writing and the session between two frames, nothing the hub sent is missing: it is written
  or waits in the pump's channel.
\<close>
theorem spoke_stream_faithful:
  assumes "cl_reach cfg lib n t" and "cl_pumps t k = Some p" and "cl_sess t (pu_sess p) = Some se"
    and "opens (pu_sid p) (se_rcvd se) = 1"
  shows "(\<exists>rest. heard (pu_sid p) (se_rcvd se) = pu_written p @ rest \<and>
      (writing (pu_pc p) \<and> se_streams se (pu_sid p) = Some k \<and> se_pc se = SRecv \<longrightarrow>
         rest = ch_queue (pu_chan p))) \<and>
    (\<exists>lost. pu_read p = client_payloads (pu_sid p) (outbound se) @ lost \<and> length lost \<le> 1)"
proof -
  note ok = pump_ok_reach [OF assms]
  have "in_hand k se = []" if "se_pc se = SRecv" using that by (simp add: in_hand_def delivering_to_def)
  with ok(1) have "\<exists>rest. heard (pu_sid p) (se_rcvd se) = pu_written p @ rest \<and>
      (writing (pu_pc p) \<and> se_streams se (pu_sid p) = Some k \<and> se_pc se = SRecv \<longrightarrow>
         rest = ch_queue (pu_chan p))"
    by (cases "writing (pu_pc p)") (auto simp: down_ok_def)
  with up_ok_cases [OF ok(2)] show ?thesis by blast
qed

text \<open>The hub opens stream 1, sends two payloads; the target answers with one read.\<close>

definition from_hub :: "server_kind \<Rightarrow> server_frame" where
  "from_hub x = \<lparr>sf_stream_id = 1, sf_kind = Some x\<rparr>"

definition stream_events :: "cl_event list" where
  "stream_events = online_events 0 @
     [CvSess 0 (InHub (InFrame (from_hub (Open \<lparr>os_protocol = ''tcp'', os_target = []\<rparr>)) 3)),
      CvSess 0 (InHub (InFrame (from_hub (SData [1, 2])) 4)), CvPump 3 (PuDial DialOk),
      CvSess 0 InNext, CvPump 3 (PuRecv True), CvSess 0 (InHub (InFrame (from_hub (SData [3])) 4)),
      CvPump 3 (PuReadBytes [9]), CvSess 0 InNext, CvPump 3 PuGo]"

theorem spoke_stream_faithful_witness:
  "\<exists>n t p se. cl_reach demo_client demo_lib n t \<and> cl_pumps t 3 = Some p \<and>
     cl_sess t (pu_sess p) = Some se \<and> heard 1 (se_rcvd se) = [[1, 2], [3]] \<and> pu_written p = [[1, 2]] \<and>
     ch_queue (pu_chan p) = [[3]] \<and> client_payloads 1 (outbound se) = [[9]] \<and>
     (\<exists>lost. pu_read p = [[9]] @ lost \<and> length lost \<le> 1)"
proof -
  let ?ok = "\<lambda>t. case (cl_pumps t 3, cl_sess t 0) of
      (Some p, Some se) \<Rightarrow> pu_sess p = 0 \<and> pu_sid p = 1 \<and> writing (pu_pc p) \<and> pu_written p = [[1, 2]] \<and>
        se_streams se 1 = Some 3 \<and> se_pc se = SRecv \<and> opens 1 (se_rcvd se) = 1 \<and>
        heard 1 (se_rcvd se) = [[1, 2], [3]] \<and> client_payloads 1 (outbound se) = [[9]]
    | _ \<Rightarrow> False"
  have "map_option ?ok (cl_run demo_client demo_lib stream_events client_init) = Some True"
    by code_simp
  then obtain t where t: "cl_reach demo_client demo_lib (length stream_events) t" "?ok t"
    by (rule cl_run_obtains)
  then obtain p se where ps: "cl_pumps t 3 = Some p" "cl_sess t (pu_sess p) = Some se"
    and f: "pu_sid p = 1" "writing (pu_pc p)" "pu_written p = [[1, 2]]" "se_streams se 1 = Some 3"
      "se_pc se = SRecv" "opens 1 (se_rcvd se) = 1" "heard 1 (se_rcvd se) = [[1, 2], [3]]"
      "client_payloads 1 (outbound se) = [[9]]"
    by (auto split: option.splits)
  from spoke_stream_faithful [OF t(1) ps] f have "ch_queue (pu_chan p) = [[3]]"
    "\<exists>lost. pu_read p = [[9]] @ lost \<and> length lost \<le> 1" by auto
  with t(1) ps f show ?thesis by blast
qed

end
