(* ===== verification/Client_Traces.thy ===== *)
theory Client_Traces
  imports Client_Streams
begin

text \<open>
  Two things a session of the spoke leaves behind when it is over: the entry of a request that registered
  too late for the flush, and a pump whose stream nobody closes. Each is stated for every state of this
  kind and every run from it, with a run of the demo spoke that leads there.
\<close>

section \<open>A request that registers after the flush\<close>

text \<open>What may release the handler \<open>h\<close>: its own steps, its caller leaving, and steps of a session.\<close>

fun releases :: "nat \<Rightarrow> cl_event \<Rightarrow> bool" where
  "releases h (CvHandler g _) \<longleftrightarrow> g = h"
| "releases h (CvCancel g) \<longleftrightarrow> g = h"
| "releases h (CvSess _ _) \<longleftrightarrow> True"
| "releases h _ \<longleftrightarrow> False"

definition stale :: "nat \<Rightarrow> u64 \<Rightarrow> client \<Rightarrow> bool" where
  "stale h sid s \<longleftrightarrow> cl_pending s sid = Some h \<and>
     (\<exists>x. cl_handlers s h = Some x \<and> hd_pc x = HWait sid \<and> hd_sid x = Some sid \<and> hd_slot x = None)"

lemma stale_waits:
  assumes "stale h sid s"
  shows "cl_step cfg lib (CvHandler h (InWait WaitPoll)) s = None"
    "cl_step cfg lib (CvHandler h (InWait WaitTimeout)) s \<noteq> None"
  using assms by (auto simp: stale_def hd_step_def hd_wait_def holds_sender_def)

lemma stale_handler:
  assumes inv: "inv_proxy lib n s" and o: "stale h sid s" and g: "g \<noteq> h" and st: "hd_step lib g inp s = Some s'"
  shows "stale h sid s'"
proof -
  from st obtain y where y: "cl_handlers s g = Some y" by (auto simp: hd_step_def split: option.splits)
  have hs: "sid_of_handler s h = Some sid" using o by (auto simp: stale_def sid_of_handler_def)
  have ne: "i \<noteq> sid" if "pc_sid (hd_pc y) = Some i" for i
  proof
    assume "i = sid"
    with that inv_proxyD(3) [OF inv y] have "hd_sid y = Some sid" by (simp add: hd_ok_def)
    then have "sid_of_handler s g = Some sid" using y by (simp add: sid_of_handler_def)
    from inv_proxyD(4) [OF inv hs this] g show False by simp
  qed
  show ?thesis
  proof (cases "hd_pc y")
    case (HSendReq c i req)
    with st y show ?thesis
      using o g by (auto simp: hd_step_def hd_send_def stale_def client_pcs upd_handler_def upd_session_def
          dest!: hub_send_upd split: handler_input.splits sent.splits)
  next
    case (HRegister c i req)
    with ne have "i \<noteq> sid" by simp
    with HRegister st y show ?thesis
      using o g by (auto simp: hd_step_def hd_register_def stale_def client_pcs upd_handler_def
          split: handler_input.splits)
  next
    case (HUnsend i)
    with ne have "i \<noteq> sid" by simp
    with HUnsend st y show ?thesis
      using o g by (auto simp: hd_step_def hd_unsend_def stale_def client_pcs upd_handler_def pending_remove_def
          split: handler_input.splits)
  next
    case (HTimeout i)
    with ne have "i \<noteq> sid" by simp
    with HTimeout st y show ?thesis
      using o g by (auto simp: hd_step_def hd_timeout_def stale_def client_pcs upd_handler_def pending_remove_def
          split: handler_input.splits)
  qed (use st y o g in \<open>auto simp: hd_step_def hd_body_def hd_hub_def hd_wait_def stale_def client_pcs
      upd_handler_def next_stream_id_def Let_def split: handler_input.splits body_outcome.splits
      option.splits wait_outcome.splits if_splits\<close>)
qed

lemma stale_step:
  assumes inv: "inv_proxy lib n s" and o: "stale h sid s" and st: "cl_step cfg lib e s = Some s'"
    and e: "\<not> releases h e"
  shows "stale h sid s'"
proof (cases e)
  case (CvHandler g inp)
  with stale_handler [OF inv o] st e show ?thesis by simp
next
  case (CvPump k ev)
  with st kept_pump_step [of k ev s s'] have "proxy_same s s'" by (simp add: kept_def)
  with o show ?thesis by (simp add: stale_def proxy_same_def)
next
  case (CvStart c)
  with st kept_start [of c s s'] have "proxy_same s s'" by (simp add: kept_def)
  with o show ?thesis by (simp add: stale_def proxy_same_def)
next
  case (CvTake c)
  with st kept_env(1) [of c s s'] have "proxy_same s s'" by (simp add: kept_def)
  with o show ?thesis by (simp add: stale_def proxy_same_def)
next
  case (CvDropRx c)
  with st kept_env(2) [of c s s'] have "proxy_same s s'" by (simp add: kept_def)
  with o show ?thesis by (simp add: stale_def proxy_same_def)
next
  case (CvCancel g)
  with st e o show ?thesis
    by (auto simp: hd_cancel_def stale_def client_pcs upd_handler_def split: option.splits handler_pc.splits)
next
  case (CvRequest g req)
  with st o show ?thesis by (auto simp: hd_open_def stale_def split: if_splits)
qed (use e in simp)

lemma stale_run:
  "cl_run cfg lib es s = Some s' \<Longrightarrow> cl_reach cfg lib n s \<Longrightarrow> n + length es < 2 ^ 63 \<Longrightarrow> stale h sid s \<Longrightarrow>
   \<forall>e \<in> set es. \<not> releases h e \<Longrightarrow> stale h sid s'"
proof (induction es arbitrary: s n)
  case (Cons e es)
  then obtain t where t: "cl_step cfg lib e s = Some t" "cl_run cfg lib es t = Some s'"
    by (auto split: Option.bind_splits)
  have "n < 2 ^ 63" using Cons.prems(3) by simp
  from stale_step [OF inv_proxy_reach [OF Cons.prems(2) this] Cons.prems(4) t(1)] Cons.prems(5)
  have "stale h sid t" by simp
  with Cons.IH [OF t(2) cl_reach_step [OF Cons.prems(2) t(1)]] Cons.prems(3,5) show ?case by simp
qed simp

lemma late_registration:
  assumes inv: "inv_proxy lib n s" and x: "cl_handlers s h = Some x" "hd_pc x = HRegister c sid req"
    and se: "cl_sess s c = Some se" "ch_rx (se_chan se)" "length (ch_queue (se_chan se)) < ch_cap (se_chan se)"
  obtains s' where "cl_run cfg lib [CvHandler h InGo, CvHandler h InGo] s = Some s'" "stale h sid s'"
proof -
  have ok: "hd_sid x = Some sid" "hd_slot x = None"
    using inv_proxyD(3) [OF inv x(1)] x(2) by (simp_all add: hd_ok_def)
  show thesis
    by (rule that)
      (use x ok se in \<open>auto simp: hd_step_def hd_register_def hd_send_def hub_send_def chan_send_def client_pcs
        upd_handler_def upd_session_def stale_def\<close>)
qed

text \<open>
  C35. A request that took the sender before its session ended and registers only when the session is
  over, its flush included, leaves an entry no flush will find: as long as the outbound channel still
  takes the frame, it waits with nobody left to answer. In every run in which no session takes a step
  and the request itself is left alone, the entry stays and polling yields nothing; only the time-out
  of 60 seconds is possible.
\<close>
theorem stale_entry_after_flush:
  assumes "cl_reach cfg lib n s" and "cl_handlers s h = Some x" and "hd_pc x = HRegister c sid req"
    and "cl_sess s c = Some se" and "se_pc se = SOver r"
    and "ch_rx (se_chan se)" and "length (ch_queue (se_chan se)) < ch_cap (se_chan se)"
    and "Suc (Suc n) + length es < 2 ^ 63" and "\<forall>e \<in> set es. \<not> releases h e"
  shows "\<exists>t. cl_run cfg lib [CvHandler h InGo, CvHandler h InGo] s = Some t \<and>
    (\<forall>s'. cl_run cfg lib es t = Some s' \<longrightarrow>
       cl_pending s' sid = Some h \<and> map_option hd_pc (cl_handlers s' h) = Some (HWait sid) \<and>
       cl_step cfg lib (CvHandler h (InWait WaitPoll)) s' = None \<and>
       cl_step cfg lib (CvHandler h (InWait WaitTimeout)) s' \<noteq> None)"
proof -
  have "n < 2 ^ 63" using assms(8) by simp
  from late_registration [OF inv_proxy_reach [OF assms(1) this] assms(2-4,6,7)] obtain t
    where t: "cl_run cfg lib [CvHandler h InGo, CvHandler h InGo] s = Some t" "stale h sid t" .
  have "cl_reach cfg lib (Suc (Suc n)) t" using spoke.run_reaches [OF t(1) assms(1)] by simp
  from stale_run [OF _ this assms(8) t(2) assms(9)] have "stale h sid s'" if "cl_run cfg lib es t = Some s'" for s'
    using that .
  then show ?thesis using t(1) stale_waits by (fastforce simp: stale_def)
qed

definition late_events :: "cl_event list" where
  "late_events = online_events 0 @ request_events 7 @ close_events 0"

lemma late_run:
  "map_option (\<lambda>s.
      (case cl_handlers s 7 of Some x \<Rightarrow> (case hd_pc x of HRegister c sid _ \<Rightarrow> c = 0 \<and> sid = 2 ^ 63 | _ \<Rightarrow> False)
       | None \<Rightarrow> False) \<and>
      (case cl_sess s 0 of Some se \<Rightarrow> se_pc se = SOver SessOk \<and> ch_rx (se_chan se) \<and>
          length (ch_queue (se_chan se)) < ch_cap (se_chan se) | None \<Rightarrow> False))
    (cl_run demo_client demo_lib late_events client_init) = Some True"
  by code_simp

theorem stale_entry_after_flush_witness:
  "\<exists>n t s'. cl_reach demo_client demo_lib n t \<and> cl_run demo_client demo_lib [CvStart 1, CvTake 0] t = Some s' \<and>
     cl_pending s' (2 ^ 63) = Some 7 \<and> cl_step demo_client demo_lib (CvHandler 7 (InWait WaitPoll)) s' = None"
proof -
  from late_run obtain s x req se where s: "cl_reach demo_client demo_lib (length late_events) s"
    "cl_run demo_client demo_lib late_events client_init = Some s"
    "cl_handlers s 7 = Some x" "hd_pc x = HRegister 0 (2 ^ 63) req" "cl_sess s 0 = Some se"
    "se_pc se = SOver SessOk" "ch_rx (se_chan se)" "length (ch_queue (se_chan se)) < ch_cap (se_chan se)"
    by (rule cl_run_obtains) (auto split: option.splits handler_pc.splits)
  have len: "Suc (Suc (length late_events)) + length [CvStart 1, CvTake 0] < 2 ^ 63"
    by (simp add: late_events_def online_events_def request_events_def close_events_def)
  have "\<forall>e \<in> set [CvStart 1, CvTake 0]. \<not> releases 7 e" by simp
  from stale_entry_after_flush [OF s(1,3-8) len this] obtain t
    where t: "cl_run demo_client demo_lib [CvHandler 7 InGo, CvHandler 7 InGo] s = Some t"
      and after: "\<forall>s'. cl_run demo_client demo_lib [CvStart 1, CvTake 0] t = Some s' \<longrightarrow>
        cl_pending s' (2 ^ 63) = Some 7 \<and> cl_step demo_client demo_lib (CvHandler 7 (InWait WaitPoll)) s' = None"
    by blast
  have "cl_run demo_client demo_lib (late_events @ [CvHandler 7 InGo, CvHandler 7 InGo]) client_init = Some t"
    using s(2) t by (simp add: spoke.run_append)
  moreover have "map_option (\<lambda>t. cl_run demo_client demo_lib [CvStart 1, CvTake 0] t \<noteq> None)
      (cl_run demo_client demo_lib (late_events @ [CvHandler 7 InGo, CvHandler 7 InGo]) client_init) = Some True"
    by code_simp
  ultimately obtain s' where "cl_run demo_client demo_lib [CvStart 1, CvTake 0] t = Some s'" by auto
  with after spoke.run_reaches [OF t s(1)] show ?thesis by blast
qed

section \<open>A pump whose stream nobody closes\<close>

text \<open>
  Pump \<open>k\<close> waits for its target or for the hub, its inbound channel empty; its session is over and still
  maps the identifier to it, and no other pump serves that identifier.
\<close>

definition left_over :: "nat \<Rightarrow> pump \<Rightarrow> client \<Rightarrow> bool" where
  "left_over k p s \<longleftrightarrow> cl_pumps s k = Some p \<and> pu_pc p = RLoop \<and> ch_queue (pu_chan p) = [] \<and>
     (\<exists>se r. cl_sess s (pu_sess p) = Some se \<and> se_pc se = SOver r \<and> se_streams se (pu_sid p) = Some k \<and>
        opens (pu_sid p) (se_rcvd se) = 1)"

text \<open>The steps in which the pump hears from its target.\<close>

fun hears_target :: "nat \<Rightarrow> cl_event \<Rightarrow> bool" where
  "hears_target k (CvPump j (PuReadBytes _)) \<longleftrightarrow> j = k"
| "hears_target k (CvPump j PuReadEof) \<longleftrightarrow> j = k"
| "hears_target k (CvPump j PuReadErr) \<longleftrightarrow> j = k"
| "hears_target k _ \<longleftrightarrow> False"

lemma left_over_stuck:
  assumes "left_over k p s" "\<not> hears_target k (CvPump k ev)"
  shows "cl_step cfg lib (CvPump k ev) s = None"
  using assms
  by (cases ev) (auto simp: left_over_def pu_step_def pu_recv_def chan_recv_def inbound_alive_def)

text \<open>What the session keeps, and what a step of another part of the spoke leaves alone.\<close>

definition sess_view :: "client \<Rightarrow> nat \<Rightarrow> (sess_pc \<times> (u64 \<rightharpoonup> nat) \<times> server_frame list) option" where
  "sess_view s c = map_option (\<lambda>se. (se_pc se, se_streams se, se_rcvd se)) (cl_sess s c)"

lemma left_over_kept:
  assumes "left_over k p s" "cl_pumps s' k = cl_pumps s k" "sess_view s' (pu_sess p) = sess_view s (pu_sess p)"
  shows "left_over k p s'"
  using assms by (auto simp: left_over_def sess_view_def)

lemma sess_view_same: "cl_sess s' c = cl_sess s c \<Longrightarrow> sess_view s' c = sess_view s c"
  by (simp add: sess_view_def)

lemma sess_view_send: "hub_send d f s = SendOk s' \<Longrightarrow> sess_view s' c = sess_view s c \<and> cl_pumps s' = cl_pumps s"
  by (auto simp: sess_view_def upd_session_def option.map_comp comp_def dest!: hub_send_upd)

lemma left_over_handler:
  assumes o: "left_over k p s" and st: "hd_step lib h inp s = Some s'"
  shows "left_over k p s'"
proof -
  from st obtain x where x: "cl_handlers s h = Some x" by (auto simp: hd_step_def split: option.splits)
  have same: "left_over k p t" if "cl_sess t = cl_sess s" "cl_pumps t = cl_pumps s" for t
    using that left_over_kept [OF o] sess_view_same by metis
  show ?thesis
  proof (cases "hd_pc x")
    case (HSendReq c sid req)
    with st x have st: "hd_send h c sid req s = Some s'" by (auto simp: hd_step_def split: handler_input.splits)
    show ?thesis
    proof (cases "hub_send c (client_http_request sid req) s")
      case (SendOk t)
      with st have s': "s' = set_handler_pc h (HWait sid) t" by (simp add: hd_send_def)
      have "sess_view s' (pu_sess p) = sess_view t (pu_sess p)" "cl_pumps s' = cl_pumps t"
        by (simp_all add: s' set_handler_pc_def upd_handler_def sess_view_def)
      with sess_view_send [OF SendOk] left_over_kept [OF o] show ?thesis by metis
    qed (use st in \<open>auto simp: hd_send_def set_handler_pc_def upd_handler_def intro!: same\<close>)
  qed (use st x in \<open>auto simp: hd_step_def hd_body_def hd_hub_def hd_register_def hd_unsend_def hd_wait_def
      hd_timeout_def next_stream_id_def pending_remove_def set_handler_pc_def upd_handler_def Let_def
      intro!: same split: handler_input.splits body_outcome.splits option.splits wait_outcome.splits
      if_splits\<close>)
qed

lemma left_over_session:
  assumes inv: "inv_streams s" and o: "left_over k p s" and st: "se_step cfg lib d inp s = Some s'"
  shows "left_over k p s'"
proof -
  from st obtain sd where sd: "cl_sess s d = Some sd" by (auto simp: se_step_def split: option.splits)
  have ne: "d \<noteq> pu_sess p"
  proof
    assume "d = pu_sess p"
    with o st show False by (auto simp: left_over_def se_step_def)
  qed
  have key: "key s k = Some (pu_sess p, pu_sid p)" using o by (simp add: left_over_def key_def)
  have others: "k' \<noteq> k" if "delivering_to sd = Some (i, k', y)" for i k' y
    using inv_streamsD(3) [OF inv sd] that key ne by (auto simp: sess_ok_def)
  have "cl_pumps s' k = cl_pumps s k \<and> cl_sess s' (pu_sess p) = cl_sess s (pu_sess p)"
  proof (cases "se_pc sd")
    case SRecv
    with st sd obtain r where r: "se_recv cfg lib d r s = Some s'" by (auto simp: se_step_def split: sess_input.splits)
    show ?thesis
    proof (cases r)
      case (InFrame f k')
      with r have "k' \<noteq> k" "s' = se_frame cfg lib d f k' (log_inbound d f s)"
        using o by (auto simp: se_recv_def left_over_def split: if_splits)
      with ne show ?thesis
        by (auto simp: se_frame_def se_open_def se_data_def se_response_def set_sess_pc_def streams_remove_def
            log_inbound_def upd_session_def upd_handler_def pending_remove_def Let_def
            split: option.splits server_kind.splits)
    qed (use r ne in \<open>auto simp: se_recv_def set_sess_pc_def upd_session_def\<close>)
  next
    case (SDeliver i k' y)
    with others have "k' \<noteq> k" by (simp add: delivering_to_def)
    with SDeliver st sd ne show ?thesis
      by (auto simp: se_step_def se_deliver_def set_sess_pc_def upd_session_def upd_pump_def
          split: sess_input.splits option.splits sent.splits)
  next
    case SHandshake
    with st sd ne show ?thesis
      by (auto simp: se_step_def se_handshake_def set_sess_pc_def upd_session_def dest!: hub_send_upd
          split: sess_input.splits sent.splits)
  next
    case (SSend f)
    with st sd ne show ?thesis
      by (auto simp: se_step_def se_send_def set_sess_pc_def upd_session_def dest!: hub_send_upd
          split: sess_input.splits sent.splits)
  qed (use st sd ne in \<open>auto simp: se_step_def se_connect_def se_attach_def attach_hub_def se_detach_def
      detach_hub_def se_flush_def flush_pending_def set_sess_pc_def upd_session_def
      split: sess_input.splits connect_outcome.splits\<close>)
  with left_over_kept [OF o] sess_view_same show ?thesis by blast
qed

lemma left_over_moved:
  assumes o: "left_over k p s" and j: "j \<noteq> k"
  shows "left_over k p (set_pump_pc j pc s)"
    "hub_send c f s = SendOk t \<Longrightarrow> left_over k p (set_pump_pc j pc t)"
    "pu_send_close j q f s = Some s' \<Longrightarrow> left_over k p s'"
proof -
  show moved: "left_over k p (set_pump_pc j pc s)" for pc
    by (rule left_over_kept [OF o]) (use j in \<open>simp_all add: set_pump_pc_def upd_pump_def sess_view_def\<close>)
  show sent: "left_over k p (set_pump_pc j pc t)" if "hub_send c f s = SendOk t" for c f t pc
  proof (rule left_over_kept [OF o])
    show "cl_pumps (set_pump_pc j pc t) k = cl_pumps s k"
      using sess_view_send [OF that] j by (simp add: set_pump_pc_def upd_pump_def)
    have "sess_view (set_pump_pc j pc t) (pu_sess p) = sess_view t (pu_sess p)"
      by (simp add: set_pump_pc_def upd_pump_def sess_view_def)
    with sess_view_send [OF that] show "sess_view (set_pump_pc j pc t) (pu_sess p) = sess_view s (pu_sess p)" by metis
  qed
  show "left_over k p s'" if st: "pu_send_close j q f s = Some s'"
  proof (cases "hub_send (pu_sess q) f s")
    case (SendOk t)
    with st have "s' = set_pump_pc j RRemove t" by (simp add: pu_send_close_def)
    with sent [OF SendOk] show ?thesis by simp
  qed (use st moved in \<open>auto simp: pu_send_close_def\<close>)
qed

lemma left_over_pump:
  assumes inv: "inv_streams s" and o: "left_over k p s" and st: "pu_step j ev s = Some s'" and j: "j \<noteq> k"
  shows "left_over k p s'"
proof -
  from st obtain q where q: "cl_pumps s j = Some q" by (auto simp: pu_step_def split: option.splits)
  have other: "\<not> (pu_sess q = pu_sess p \<and> pu_sid q = pu_sid p)"
  proof
    assume "pu_sess q = pu_sess p \<and> pu_sid q = pu_sid p"
    with q o have "key s k = Some (pu_sess p, pu_sid p)" "key s j = Some (pu_sess p, pu_sid p)"
      by (simp_all add: left_over_def key_def)
    with inv_streamsD(2) [OF inv this] j o show False by (fastforce simp: left_over_def)
  qed
  note moved = left_over_moved(1) [OF o j] and sent = left_over_moved(2) [OF o j] and close = left_over_moved(3) [OF o j]
  show ?thesis
  proof (cases "pu_pc q")
    case RRemove
    with st q have s': "s' = pu_remove j q s" by (auto simp: pu_step_def split: pump_event.splits)
    with other j o show ?thesis
      by (auto simp: left_over_def pu_remove_def streams_remove_def upd_session_def upd_pump_def)
  next
    case (RRefuse e)
    with st q have "pu_send_close j q (client_close (pu_sid q) False e) s = Some s'"
      by (auto simp: pu_step_def split: pump_event.splits)
    then show ?thesis by (rule close)
  next
    case RSendEof
    with st q have "pu_send_close j q (client_close (pu_sid q) True ''eof'') s = Some s'"
      by (auto simp: pu_step_def split: pump_event.splits)
    then show ?thesis by (rule close)
  next
    case (RSendData bs)
    with st q have st: "pu_send_data j q bs s = Some s'" by (auto simp: pu_step_def split: pump_event.splits)
    show ?thesis
    proof (cases "hub_send (pu_sess q) (client_data (pu_sid q) bs) s")
      case (SendOk t)
      with st have "s' = set_pump_pc j RLoop t" by (simp add: pu_send_data_def)
      with sent [OF SendOk] show ?thesis by simp
    qed (use st moved in \<open>auto simp: pu_send_data_def\<close>)
  next
    case RLoop
    with st q j have "cl_sess s' = cl_sess s \<and> cl_pumps s' k = cl_pumps s k"
      by (auto simp: pu_step_def pu_got_def pu_recv_def set_pump_pc_def upd_pump_def
          split: pump_event.splits option.splits prod.splits if_splits)
    with left_over_kept [OF o] sess_view_same show ?thesis by metis
  next
    case (RDial target)
    with st q j have "cl_sess s' = cl_sess s \<and> cl_pumps s' k = cl_pumps s k"
      by (auto simp: pu_step_def pu_dial_def set_pump_pc_def upd_pump_def split: pump_event.splits dial_outcome.splits)
    with left_over_kept [OF o] sess_view_same show ?thesis by metis
  qed (use st q in \<open>simp add: pu_step_def\<close>)
qed

lemma left_over_step:
  assumes inv: "inv_streams s" and o: "left_over k p s" and st: "cl_step cfg lib e s = Some s'"
    and e: "\<not> hears_target k e"
  shows "left_over k p s'"
proof (cases e)
  case (CvPump j ev)
  have "j \<noteq> k"
  proof
    assume "j = k"
    with left_over_stuck [OF o, of ev cfg lib] CvPump e st show False by simp
  qed
  with left_over_pump [OF inv o] CvPump st show ?thesis by simp
next
  case (CvSess d inp)
  with left_over_session [OF inv o] st show ?thesis by simp
next
  case (CvHandler h inp)
  with left_over_handler [OF o] st show ?thesis by simp
next
  case (CvStart d)
  with st o show ?thesis by (auto simp: se_start_def left_over_def split: if_splits)
next
  case (CvTake d)
  with st have "sess_view s' (pu_sess p) = sess_view s (pu_sess p) \<and> cl_pumps s' = cl_pumps s"
    by (auto simp: cl_take_def sess_view_def upd_session_def split: option.splits prod.splits if_splits)
  with left_over_kept [OF o] show ?thesis by simp
next
  case (CvDropRx d)
  with st have "sess_view s' (pu_sess p) = sess_view s (pu_sess p) \<and> cl_pumps s' = cl_pumps s"
    by (auto simp: cl_drop_rx_def sess_view_def upd_session_def option.map_comp comp_def split: if_splits)
  with left_over_kept [OF o] show ?thesis by simp
next
  case (CvRequest h req)
  with st o show ?thesis by (auto simp: hd_open_def left_over_def split: if_splits)
next
  case (CvCancel h)
  with st o show ?thesis
    by (auto simp: hd_cancel_def set_handler_pc_def upd_handler_def left_over_def split: option.splits handler_pc.splits)
qed

lemma left_over_run:
  "cl_run cfg lib es s = Some s' \<Longrightarrow> cl_reach cfg lib n s \<Longrightarrow> left_over k p s \<Longrightarrow>
   \<forall>e \<in> set es. \<not> hears_target k e \<Longrightarrow> left_over k p s'"
proof (induction es arbitrary: s n)
  case (Cons e es)
  then obtain t where t: "cl_step cfg lib e s = Some t" "cl_run cfg lib es t = Some s'"
    by (auto split: Option.bind_splits)
  have "left_over k p t"
    by (rule left_over_step [OF inv_streams_reach [OF Cons.prems(2)] Cons.prems(3) t(1)]) (use Cons.prems(4) in simp)
  with Cons.IH [OF t(2) cl_reach_step [OF Cons.prems(2) t(1)]] Cons.prems(4) show ?case by simp
qed simp

text \<open>
  C36. A pump can outlive its session for as long as its target is silent: when the session is over and
  its map still holds the stream (opened once, not closed), a pump that waits with nothing left to write
  stays exactly as it is, in every run in which it does not hear from its target, reconnections
  included. Its inbound channel keeps a sender, in the very map the pump keeps alive, so the end of the
  hub's side is never signalled; the only steps it has left are those in which the target speaks,
  closes or fails.
\<close>
theorem pump_outlives_session:
  assumes "cl_reach cfg lib n s" and "cl_sess s (pu_sess p) = Some se" and "se_pc se = SOver r"
    and "cl_pumps s k = Some p" and "pu_pc p = RLoop" and "ch_queue (pu_chan p) = []"
    and "se_streams se (pu_sid p) = Some k" and "opens (pu_sid p) (se_rcvd se) = 1"
    and "cl_run cfg lib es s = Some s'" and "\<forall>e \<in> set es. \<not> hears_target k e"
  shows "cl_pumps s' k = Some p \<and>
    (\<forall>ev. \<not> hears_target k (CvPump k ev) \<longrightarrow> cl_step cfg lib (CvPump k ev) s' = None)"
proof -
  have "left_over k p s" using assms by (auto simp: left_over_def)
  from left_over_run [OF assms(9,1) this assms(10)] have o: "left_over k p s'" .
  with left_over_stuck [OF o] show ?thesis by (simp add: left_over_def)
qed

definition over_events :: "cl_event list" where
  "over_events = online_events 0 @
     [CvSess 0 (InHub (InFrame \<lparr>sf_stream_id = 1, sf_kind = Some (Open \<lparr>os_protocol = ''tcp'', os_target = []\<rparr>)\<rparr> 3)),
      CvPump 3 (PuDial DialOk)] @ close_events 0"

lemma over_run:
  "map_option (\<lambda>s.
      (case cl_pumps s 3 of Some p \<Rightarrow> pu_sess p = 0 \<and> pu_sid p = 1 \<and> pu_pc p = RLoop \<and> ch_queue (pu_chan p) = []
       | None \<Rightarrow> False) \<and>
      (case cl_sess s 0 of Some se \<Rightarrow> se_pc se = SOver SessOk \<and> se_streams se 1 = Some 3 \<and> opens 1 (se_rcvd se) = 1
       | None \<Rightarrow> False) \<and>
      cl_run demo_client demo_lib (online_events 1 @ request_events 7) s \<noteq> None)
    (cl_run demo_client demo_lib over_events client_init) = Some True"
  by code_simp

theorem pump_outlives_session_witness:
  "\<exists>n s s' p. cl_reach demo_client demo_lib n s \<and>
     cl_run demo_client demo_lib (online_events 1 @ request_events 7) s = Some s' \<and>
     cl_pumps s' 3 = Some p \<and> pu_pc p = RLoop \<and> cl_step demo_client demo_lib (CvPump 3 (PuRecv True)) s' = None"
proof -
  let ?es = "online_events 1 @ request_events 7"
  from over_run obtain s p se s' where s: "cl_reach demo_client demo_lib (length over_events) s"
    and p: "cl_pumps s 3 = Some p" "pu_sess p = 0" "pu_sid p = 1" "pu_pc p = RLoop" "ch_queue (pu_chan p) = []"
    and se: "cl_sess s 0 = Some se" "se_pc se = SOver SessOk" "se_streams se 1 = Some 3" "opens 1 (se_rcvd se) = 1"
    and s': "cl_run demo_client demo_lib ?es s = Some s'"
    by (rule cl_run_obtains) (auto split: option.splits)
  have "\<forall>e \<in> set ?es. \<not> hears_target 3 e" by (simp add: online_events_def request_events_def)
  with pump_outlives_session [OF s _ se(2) p(1,4,5) _ _ s'] p se
  have "cl_pumps s' 3 = Some p" "cl_step demo_client demo_lib (CvPump 3 (PuRecv True)) s' = None" by auto
  with s s' p(4) show ?thesis by blast
qed

end
