(* ===== verification/Client_Reconnect.thy ===== *)
theory Client_Reconnect
  imports Client_Demo
begin

text \<open>
  The reconnect loop of \<open>tunnel-client\<close>'s \<open>main\<close>: how long it sleeps between two sessions, as a
  function of how the sessions ended and how long they ran. Times are in nanoseconds, the backoff in
  whole seconds.
\<close>

section \<open>The loop\<close>

text \<open>One iteration: the sleep, if there is one, and the next backoff.\<close>

definition after_session :: "client_config \<Rightarrow> nat \<Rightarrow> sess_ret \<Rightarrow> int \<Rightarrow> nat option \<times> nat" where
  "after_session cfg backoff ret elapsed =
     (case ret of
        SessOk \<Rightarrow> (None, cc_backoff_min cfg)
      | SessErr _ \<Rightarrow>
          (let b = (if 10 * 10 ^ 9 \<le> elapsed then cc_backoff_min cfg else backoff) in
           (Some b, min (cc_backoff_max cfg) (b * 2))))"

fun main_loop :: "client_config \<Rightarrow> nat \<Rightarrow> (sess_ret \<times> int) list \<Rightarrow> nat option list" where
  "main_loop cfg backoff [] = []"
| "main_loop cfg backoff ((ret, elapsed) # rs) =
     (let (delay, backoff') = after_session cfg backoff ret elapsed in delay # main_loop cfg backoff' rs)"

definition client_main :: "client_config \<Rightarrow> (sess_ret \<times> int) list \<Rightarrow> nat option list" where
  "client_main cfg rs = main_loop cfg (cc_backoff_min cfg) rs"

section \<open>Its specification\<close>

text \<open>
  The number of failures in a row after the last reset decides; a clean end resets it, and so does a
  session that failed after at least ten seconds.
\<close>

fun quick_failures :: "nat \<Rightarrow> (sess_ret \<times> int) list \<Rightarrow> nat" where
  "quick_failures k [] = k"
| "quick_failures k ((SessOk, _) # rs) = quick_failures 0 rs"
| "quick_failures k ((SessErr _, elapsed) # rs) =
     quick_failures (if 10 * 10 ^ 9 \<le> elapsed then 1 else Suc k) rs"

definition delay_spec :: "(sess_ret \<times> int) list \<Rightarrow> sess_ret \<times> int \<Rightarrow> nat option" where
  "delay_spec before now =
     (case now of
        (SessOk, _) \<Rightarrow> None
      | (SessErr _, elapsed) \<Rightarrow>
          Some (if 10 * 10 ^ 9 \<le> elapsed then 1 else min 30 (2 ^ quick_failures 0 before)))"

lemma min_double: "min 30 (min 30 (2 ^ k) * 2) = min 30 (2 ^ Suc k :: nat)"
  by (auto simp: min_def)

lemma main_loop_spec:
  assumes "cc_backoff_min cfg = 1" "cc_backoff_max cfg = 30"
  shows "i < length rs \<Longrightarrow> main_loop cfg (min 30 (2 ^ k)) rs ! i =
     (case rs ! i of
        (SessOk, _) \<Rightarrow> None
      | (SessErr _, elapsed) \<Rightarrow>
          Some (if 10 * 10 ^ 9 \<le> elapsed then 1 else min 30 (2 ^ quick_failures k (take i rs))))"
proof (induction rs arbitrary: i k)
  case (Cons a rs)
  obtain ret el where a: "a = (ret, el)" by (cases a)
  have one: "(1::nat) = min 30 (2 ^ 0)" by simp
  show ?case
  proof (cases i)
    case 0
    then show ?thesis by (simp add: a after_session_def assms Let_def split: sess_ret.splits prod.splits)
  next
    case (Suc j)
    let ?k' = "case ret of SessOk \<Rightarrow> 0 | SessErr _ \<Rightarrow> if 10 * 10 ^ 9 \<le> el then 1 else Suc k"
    have q: "quick_failures k (take i (a # rs)) = quick_failures ?k' (take j rs)"
      by (cases ret) (simp_all add: a Suc)
    have "snd (after_session cfg (min 30 (2 ^ k)) ret el) = min 30 (2 ^ ?k')"
      using min_double [of 0] min_double [of k]
      by (cases ret) (auto simp: after_session_def assms Let_def)
    then have "main_loop cfg (min 30 (2 ^ k)) (a # rs) ! i = main_loop cfg (min 30 (2 ^ ?k')) rs ! j"
      by (simp add: a Suc Let_def case_prod_beta del: min.absorb_iff1 min.absorb_iff2)
    also have "\<dots> = (case rs ! j of
        (SessOk, _) \<Rightarrow> None
      | (SessErr _, elapsed) \<Rightarrow>
          Some (if 10 * 10 ^ 9 \<le> elapsed then 1 else min 30 (2 ^ quick_failures ?k' (take j rs))))"
      using Cons.IH [of j ?k'] Cons.prems Suc by simp
    finally show ?thesis unfolding q by (simp add: Suc)
  qed
qed simp

lemma length_main_loop: "length (main_loop cfg b rs) = length rs"
  by (induction rs arbitrary: b) (auto simp: Let_def case_prod_beta)

text \<open>
  C25. With a loaded configuration the loop sleeps exactly as specified: not at all after a clean end,
  one second after a failure of a session that ran ten seconds or more, and otherwise 1, 2, 4, 8, 16
  and then 30 seconds, by the number of failures in a row since the last reset.
\<close>
theorem reconnect_delays:
  assumes "load_client_config env = Inr cfg"
  shows "client_main cfg rs = map (\<lambda>i. delay_spec (take i rs) (rs ! i)) [0..<length rs]"
proof -
  have cfg: "cc_backoff_min cfg = 1" "cc_backoff_max cfg = 30"
    using assms by (auto simp: load_client_config_def Let_def bind_result_Inr_iff split: if_splits)
  show ?thesis
  proof (rule nth_equalityI)
    fix i assume "i < length (client_main cfg rs)"
    then have i: "i < length rs" by (simp add: client_main_def length_main_loop)
    have "client_main cfg rs ! i = delay_spec (take i rs) (rs ! i)"
      using main_loop_spec [OF cfg i, of 0] by (simp add: client_main_def delay_spec_def cfg)
    then show "client_main cfg rs ! i = map (\<lambda>i. delay_spec (take i rs) (rs ! i)) [0..<length rs] ! i"
      using i by simp
  qed (simp add: client_main_def length_main_loop)
qed

definition failing :: "int \<Rightarrow> sess_ret \<times> int" where
  "failing seconds = (SessErr ''transport error'', seconds * 10 ^ 9)"

theorem reconnect_delays_witness:
  "\<exists>cfg. load_client_config
      [''HUB_URL'' \<mapsto> ''hub:443'', ''SPOKE_ID'' \<mapsto> ''app-b'', ''TUNNEL_TOKEN'' \<mapsto> ''t''] = Inr cfg \<and>
    client_main cfg [failing 0, failing 1, failing 1, failing 60, failing 1, (SessOk, 0), failing 1] =
      [Some 1, Some 2, Some 4, Some 1, Some 2, None, Some 1]"
proof -
  let ?rs = "[failing 0, failing 1, failing 1, failing 60, failing 1, (SessOk, 0), failing 1]"
  have "\<exists>cfg. load_client_config
      [''HUB_URL'' \<mapsto> ''hub:443'', ''SPOKE_ID'' \<mapsto> ''app-b'', ''TUNNEL_TOKEN'' \<mapsto> ''t''] = Inr cfg"
    by (simp add: load_client_config_def load_targets_def env_or_default_def starts_with_def Let_def)
  then obtain cfg where cfg: "load_client_config
      [''HUB_URL'' \<mapsto> ''hub:443'', ''SPOKE_ID'' \<mapsto> ''app-b'', ''TUNNEL_TOKEN'' \<mapsto> ''t''] = Inr cfg" ..
  have delays: "map (\<lambda>i. delay_spec (take i ?rs) (?rs ! i)) [0..<length ?rs] =
      [Some 1, Some 2, Some 4, Some 1, Some 2, None, Some 1]"
  proof -
    have u: "[0..<length ?rs] = [0, 1, 2, 3, 4, 5, 6]" by (simp add: upt_rec_numeral)
    show ?thesis unfolding u by (simp add: delay_spec_def failing_def)
  qed
  from trans [OF reconnect_delays [OF cfg] delays] cfg show ?thesis by blast
qed

text \<open>
  A hub that ends the stream without an error, as it does after a refused handshake, is dialled
  again at once, without any delay, for as long as it does so.
\<close>
theorem clean_ends_are_not_delayed:
  "main_loop cfg backoff (map (\<lambda>t. (SessOk, t)) ts) = replicate (length ts) None"
  by (induction ts arbitrary: backoff) (auto simp: after_session_def)

end
