(* ===== verification/Client_Startup.thy ===== *)
theory Client_Startup
  imports Client_Reconnect
begin

text \<open>
  The start of \<open>tunnel-client\<close>: what \<open>main\<close> does with its configuration, the HTTP proxy it may bind,
  and the gRPC endpoint each session dials (first part of \<open>run_session_impl\<close>). The transport itself is
  a parameter.
\<close>

section \<open>The endpoint\<close>

record endpoint =
  ep_uri :: string
  ep_stream_window :: nat
  ep_connection_window :: nat
  ep_keep_alive_idle :: bool
  ep_keep_alive_interval :: nat   \<comment> \<open>seconds\<close>
  ep_keep_alive_timeout :: nat
  ep_tls_name :: "string option"

text \<open>
  The transport: what \<open>Endpoint::from_shared\<close> and \<open>tls_config\<close> object to, and the errors of the
  connection and of the call.
\<close>

record transport =
  tp_from_shared :: "string \<Rightarrow> string option"
  tp_tls_config :: "endpoint \<Rightarrow> string option"
  tp_connect :: "endpoint \<Rightarrow> string option"
  tp_call :: "endpoint \<Rightarrow> string option"

definition base_endpoint :: "string \<Rightarrow> endpoint" where
  "base_endpoint uri = \<lparr>ep_uri = uri, ep_stream_window = 4 * 1024 * 1024,
     ep_connection_window = 16 * 1024 * 1024, ep_keep_alive_idle = True,
     ep_keep_alive_interval = 30, ep_keep_alive_timeout = 20, ep_tls_name = None\<rparr>"

definition make_endpoint :: "transport \<Rightarrow> client_config \<Rightarrow> string + endpoint" where
  "make_endpoint tp cfg =
     (let uri = hub_uri cfg in
      case tp_from_shared tp uri of
        Some e \<Rightarrow> Inl e
      | None \<Rightarrow>
          if cc_insecure cfg then Inr (base_endpoint uri)
          else
            (let ep = (base_endpoint uri)\<lparr>ep_tls_name := Some (tls_host cfg)\<rparr> in
             case tp_tls_config tp ep of Some e \<Rightarrow> Inl e | None \<Rightarrow> Inr ep))"

definition dial_hub :: "transport \<Rightarrow> client_config \<Rightarrow> connect_outcome" where
  "dial_hub tp cfg =
     (case make_endpoint tp cfg of
        Inl e \<Rightarrow> ConnectFailed e
      | Inr ep \<Rightarrow>
          (case tp_connect tp ep of
             Some e \<Rightarrow> ConnectFailed e
           | None \<Rightarrow> (case tp_call tp ep of Some e \<Rightarrow> ConnectFailed e | None \<Rightarrow> Connected)))"

section \<open>The program\<close>

text \<open>\<open>run_http_proxy\<close>: every route and method goes to the one handler, if the address can be bound.\<close>

definition run_http_proxy :: "(string \<Rightarrow> string option) \<Rightarrow> string \<Rightarrow> string + string" where
  "run_http_proxy bind listen = (case bind listen of Some e \<Rightarrow> Inl e | None \<Rightarrow> Inr listen)"

text \<open>
  \<open>main\<close>: exits with code 1 without a configuration; otherwise runs the reconnect loop, and the proxy
  beside it when an address is configured (a failure to bind is only logged).
\<close>

datatype spoke_main =
    SpokeExit int client_config_error
  | SpokeRuns client_config client "(string + string) option"

definition spoke_start :: "env \<Rightarrow> (string \<Rightarrow> string option) \<Rightarrow> spoke_main" where
  "spoke_start env bind =
     (case load_client_config env of
        Inl e \<Rightarrow> SpokeExit 1 e
      | Inr cfg \<Rightarrow> SpokeRuns cfg client_init (map_option (run_http_proxy bind) (cc_proxy_listen cfg)))"

section \<open>Properties\<close>

lemma cc_insecure_load:
  "load_client_config env = Inr cfg \<Longrightarrow>
     cc_insecure cfg = (case env ''TUNNEL_INSECURE'' of None \<Rightarrow> False | Some v \<Rightarrow> eq_ignore_ascii_case v ''true'')"
  by (auto simp: load_client_config_def Let_def bind_result_Inr_iff split: if_splits option.splits)

lemma make_endpoint_Inr:
  "make_endpoint tp cfg = Inr ep \<Longrightarrow>
     ep_uri ep = hub_uri cfg \<and> ep_tls_name ep = (if cc_insecure cfg then None else Some (tls_host cfg))"
  by (auto simp: make_endpoint_def Let_def base_endpoint_def split: option.splits if_splits)

lemma rsplit_once_last:
  "c \<notin> set t \<Longrightarrow> rsplit_once c (s @ c # t) = Some (s, t)"
  using split_once_append [of c "rev t" "rev s"] by (simp add: rsplit_once_def)

text \<open>
  C26. How the hub is dialled: with TLS unless the variable \<open>TUNNEL_INSECURE\<close> spells \<open>true\<close> in some case,
  and the scheme says so; the certificate is checked against the text of \<open>HUB_URL\<close> before its last colon,
  or against all of it when it has no colon.
\<close>
theorem hub_is_dialled_over_tls:
  assumes "load_client_config env = Inr cfg" and "make_endpoint tp cfg = Inr ep"
    and "env ''HUB_URL'' = Some url"
  shows "if \<exists>v. env ''TUNNEL_INSECURE'' = Some v \<and> eq_ignore_ascii_case v ''true''
    then ep_uri ep = ''http://'' @ url \<and> ep_tls_name ep = None
    else ep_uri ep = ''https://'' @ url \<and>
      (\<exists>name. ep_tls_name ep = Some name \<and>
         (if CHR '':'' \<in> set url
          then \<exists>port. url = name @ CHR '':'' # port \<and> CHR '':'' \<notin> set port else name = url))"
proof -
  have url: "cc_hub_url cfg = url"
    using assms(1,3) by (auto simp: load_client_config_def env_or_default_def Let_def bind_result_Inr_iff
        split: if_splits)
  have sec: "cc_insecure cfg \<longleftrightarrow> (\<exists>v. env ''TUNNEL_INSECURE'' = Some v \<and> eq_ignore_ascii_case v ''true'')"
    using cc_insecure_load [OF assms(1)] by (auto split: option.splits)
  have name: "if CHR '':'' \<in> set url
      then \<exists>port. url = tls_host cfg @ CHR '':'' # port \<and> CHR '':'' \<notin> set port else tls_host cfg = url"
  proof (cases "CHR '':'' \<in> set url")
    case True
    then obtain host port where "url = host @ CHR '':'' # port" "CHR '':'' \<notin> set port"
      by (auto dest: split_list_last)
    with rsplit_once_last [of "CHR '':''" port host] True show ?thesis by (simp add: tls_host_def url)
  next
    case False
    then have "rsplit_once CHR '':'' url = None"
      using split_once_None_iff [of "CHR '':''" "rev url"] by (simp add: rsplit_once_def)
    with False show ?thesis by (simp add: tls_host_def url)
  qed
  from make_endpoint_Inr [OF assms(2)] sec name show ?thesis by (auto simp: hub_uri_def url)
qed

definition good_transport :: transport where
  "good_transport = \<lparr>tp_from_shared = (\<lambda>_. None), tp_tls_config = (\<lambda>_. None),
     tp_connect = (\<lambda>_. None), tp_call = (\<lambda>_. None)\<rparr>"

text \<open>
  The value of \<open>HUB_URL\<close> in \<open>examples/application-spoke\<close> has a scheme, which the code neither expects nor
  refuses: the address gets a second scheme, and the certificate is checked against the name \<open>https\<close>.
\<close>
theorem hub_is_dialled_over_tls_witness:
  "\<exists>cfg ep. load_client_config
      [''HUB_URL'' \<mapsto> ''https://hub.example.com'', ''SPOKE_ID'' \<mapsto> ''app-b'', ''TUNNEL_TOKEN'' \<mapsto> ''t''] = Inr cfg \<and>
    make_endpoint good_transport cfg = Inr ep \<and>
    ep_uri ep = ''https://https://hub.example.com'' \<and> ep_tls_name ep = Some ''https''"
proof -
  let ?env = "[''HUB_URL'' \<mapsto> ''https://hub.example.com'', ''SPOKE_ID'' \<mapsto> ''app-b'', ''TUNNEL_TOKEN'' \<mapsto> ''t'']"
  obtain cfg where cfg: "load_client_config ?env = Inr cfg"
    by (simp add: load_client_config_def load_targets_def env_or_default_def starts_with_def Let_def)
  obtain ep where ep: "make_endpoint good_transport cfg = Inr ep"
    by (cases "cc_insecure cfg") (simp_all add: make_endpoint_def good_transport_def Let_def)
  from hub_is_dialled_over_tls [OF cfg ep, of "''https://hub.example.com''"] obtain name port
    where n: "ep_uri ep = ''https://https://hub.example.com''" "ep_tls_name ep = Some name"
      "''https'' @ CHR '':'' # ''//hub.example.com'' = name @ CHR '':'' # port" "CHR '':'' \<notin> set port"
    by auto
  have "name = ''https''"
    using rsplit_once_last [OF n(4), of name] rsplit_once_last [of "CHR '':''" "''//hub.example.com''" "''https''"]
      n(3) by simp
  with cfg ep n show ?thesis by blast
qed

text \<open>
  The client starts exactly when its configuration loads, with no session, no pending request and
  the identifier counter at \<open>2^63\<close>; it serves local HTTP exactly when \<open>KERNEL_PROXY_LISTEN\<close> is not
  blank and its address can be bound, and a failure to bind does not stop the tunnel.
\<close>
lemma spoke_start_spec:
  "spoke_start env bind =
     (case load_client_config env of
        Inl e \<Rightarrow> SpokeExit 1 e
      | Inr cfg \<Rightarrow>
          SpokeRuns cfg client_init
            (case env ''KERNEL_PROXY_LISTEN'' of
               None \<Rightarrow> None
             | Some raw \<Rightarrow>
                 if trim raw = [] then None
                 else Some (case bind (trim raw) of Some e \<Rightarrow> Inl e | None \<Rightarrow> Inr (trim raw))))"
proof (cases "load_client_config env")
  case (Inr cfg)
  then have "cc_proxy_listen cfg =
      (case env ''KERNEL_PROXY_LISTEN'' of None \<Rightarrow> None
       | Some s \<Rightarrow> if trim s = [] then None else Some (trim s))"
    by (auto simp: load_client_config_def Let_def bind_result_Inr_iff split: if_splits option.splits)
  with Inr show ?thesis by (auto simp: spoke_start_def run_http_proxy_def split: option.splits)
qed (simp add: spoke_start_def)

end
