(* ===== verification/Sysml_Validator.thy ===== *)
theory Sysml_Validator
  imports Rust_Net
begin

text \<open>
  \<open>sysml-validator\<close> (\<open>hub/images/sysml-validator/src/main.rs\<close>): the HTTP service that checks a SysML
  text with a syntax checker and with a validator, and accepts it only when both do. The two checkers,
  the JSON library, the temporary directory and the HTTP server are third-party code or the system,
  and parameters here.
\<close>

section \<open>Data\<close>

text \<open>A JSON value; the order of the members is the order in which the source names them.\<close>

datatype json =
  JNull | JBool bool | JNum nat | JStr string | JArr "json list" | JObj "(string \<times> json) list"

record diagnostic =
  dg_line :: nat
  dg_column :: nat
  dg_code :: string
  dg_message :: string

record stage_result =
  st_ok :: bool
  st_diagnostics :: "diagnostic list"

record validate_response =
  vr_ok :: bool
  vr_syntax :: stage_result
  vr_semantic :: stage_result
  vr_elements :: "nat option"
  vr_elapsed_ms :: nat
  vr_tools :: json

text \<open>
  What the source reads of the libraries: a report of the syntax checker with the diagnostics of each
  file (start line, start column, code, message), an error of the validator (the span of a diagnostic,
  the \<open>Debug\<close> form of its kind and its message, or the \<open>Debug\<close> form of any other error), the parser
  of a request body (the \<open>content\<close> it finds) and the serialiser.
\<close>

record check_report =
  cr_valid :: bool
  cr_files :: "(nat \<times> nat \<times> string \<times> string) list list"

datatype sem_error = SemDiagnostic "(nat \<times> nat) option" string string | SemOther string

record sysml_lib =
  sl_check_paths :: "(string \<times> bytes) list \<Rightarrow> string + check_report"
  sl_compile_text :: "string \<Rightarrow> string \<Rightarrow> sem_error + nat"
  sl_from_slice :: "bytes \<Rightarrow> string + string"
  sl_to_vec :: "json \<Rightarrow> bytes option"

text \<open>What one request meets: the temporary directory, the write into it, and the clock.\<close>

record ambient =
  am_tempdir :: "string + string"
  am_write :: "string option"
  am_elapsed_ms :: nat

datatype http_method = MGet | MPost | MOther string

text \<open>A request: what its body reader yields, and the error the reader ends with, if any.\<close>

record incoming =
  in_method :: http_method
  in_url :: string
  in_body :: bytes
  in_error :: "string option"

record reply =
  rp_status :: u16
  rp_content_type :: "string option"
  rp_body :: bytes

section \<open>Messages\<close>

text \<open>The texts of the service are Japanese; they are the UTF-8 bytes of the string literals.\<close>

definition msg_tempdir :: string where
  "msg_tempdir =
    [CHR 0xE4, CHR 0xB8, CHR 0x80, CHR 0xE6, CHR 0x99, CHR 0x82, CHR 0xE3, CHR 0x83, CHR 0x87,
     CHR 0xE3, CHR 0x82, CHR 0xA3, CHR 0xE3, CHR 0x83, CHR 0xAC, CHR 0xE3, CHR 0x82, CHR 0xAF,
     CHR 0xE3, CHR 0x83, CHR 0x88, CHR 0xE3, CHR 0x83, CHR 0xAA, CHR 0xE3, CHR 0x83, CHR 0xBC,
     CHR 0xE3, CHR 0x82, CHR 0x92, CHR 0xE4, CHR 0xBD, CHR 0x9C, CHR 0xE3, CHR 0x82, CHR 0x8C,
     CHR 0xE3, CHR 0x81, CHR 0xAA, CHR 0xE3, CHR 0x81, CHR 0x84, CHR 0x3A, CHR 0x20]"

definition msg_write :: string where
  "msg_write =
    [CHR 0xE4, CHR 0xB8, CHR 0x80, CHR 0xE6, CHR 0x99, CHR 0x82, CHR 0xE3, CHR 0x83, CHR 0x95,
     CHR 0xE3, CHR 0x82, CHR 0xA1, CHR 0xE3, CHR 0x82, CHR 0xA4, CHR 0xE3, CHR 0x83, CHR 0xAB,
     CHR 0xE3, CHR 0x81, CHR 0xAB, CHR 0xE6, CHR 0x9B, CHR 0xB8, CHR 0xE3, CHR 0x81, CHR 0x91,
     CHR 0xE3, CHR 0x81, CHR 0xAA, CHR 0xE3, CHR 0x81, CHR 0x84, CHR 0x3A, CHR 0x20]"

definition msg_read :: string where
  "msg_read =
    [CHR 0xE6, CHR 0x9C, CHR 0xAC, CHR 0xE6, CHR 0x96, CHR 0x87, CHR 0xE3, CHR 0x82, CHR 0x92,
     CHR 0xE8, CHR 0xAA, CHR 0xAD, CHR 0xE3, CHR 0x82, CHR 0x81, CHR 0xE3, CHR 0x81, CHR 0xAA,
     CHR 0xE3, CHR 0x81, CHR 0x84, CHR 0x3A, CHR 0x20]"

definition msg_too_big_pre :: string where
  "msg_too_big_pre =
    [CHR 0xE6, CHR 0x9C, CHR 0xAC, CHR 0xE6, CHR 0x96, CHR 0x87, CHR 0xE3, CHR 0x81, CHR 0x8C,
     CHR 0xE5, CHR 0xA4, CHR 0xA7, CHR 0xE3, CHR 0x81, CHR 0x8D, CHR 0xE3, CHR 0x81, CHR 0x99,
     CHR 0xE3, CHR 0x81, CHR 0x8E, CHR 0xE3, CHR 0x82, CHR 0x8B, CHR 0x20, CHR 0x28, CHR 0xE4,
     CHR 0xB8, CHR 0x8A, CHR 0xE9, CHR 0x99, CHR 0x90, CHR 0x20]"

definition msg_too_big_post :: string where
  "msg_too_big_post =
    [CHR 0x20, CHR 0xE3, CHR 0x83, CHR 0x90, CHR 0xE3, CHR 0x82, CHR 0xA4, CHR 0xE3, CHR 0x83,
     CHR 0x88, CHR 0x29]"

definition msg_json :: string where
  "msg_json =
    [CHR 0x4A, CHR 0x53, CHR 0x4F, CHR 0x4E, CHR 0x20, CHR 0xE3, CHR 0x81, CHR 0xA8, CHR 0xE3,
     CHR 0x81, CHR 0x97, CHR 0xE3, CHR 0x81, CHR 0xA6, CHR 0xE8, CHR 0xAA, CHR 0xAD, CHR 0xE3,
     CHR 0x82, CHR 0x81, CHR 0xE3, CHR 0x81, CHR 0xAA, CHR 0xE3, CHR 0x81, CHR 0x84, CHR 0x3A,
     CHR 0x20]"

section \<open>The two stages\<close>

definition internal_error :: "string \<Rightarrow> string \<Rightarrow> stage_result" where
  "internal_error code message =
     \<lparr>st_ok = False,
      st_diagnostics = [\<lparr>dg_line = 0, dg_column = 0, dg_code = code, dg_message = message\<rparr>]\<rparr>"

text \<open>\<open>Path::join\<close> with a relative file name.\<close>

definition path_join :: "string \<Rightarrow> string \<Rightarrow> string" where
  "path_join dir name = (if dir = [] \<or> last dir = CHR ''/'' then dir @ name else dir @ ''/'' @ name)"

definition report_diagnostics :: "check_report \<Rightarrow> diagnostic list" where
  "report_diagnostics report =
     map (\<lambda>(l, c, code, message). \<lparr>dg_line = l, dg_column = c, dg_code = code, dg_message = message\<rparr>)
       (concat (cr_files report))"

definition check_syntax :: "sysml_lib \<Rightarrow> ambient \<Rightarrow> string \<Rightarrow> stage_result" where
  "check_syntax lib am content =
     (case am_tempdir am of
        Inl e \<Rightarrow> internal_error ''syntax.io'' (msg_tempdir @ e)
      | Inr dir \<Rightarrow>
          (case am_write am of
             Some e \<Rightarrow> internal_error ''syntax.io'' (msg_write @ e)
           | None \<Rightarrow>
               (case sl_check_paths lib [(path_join dir ''topic.sysml'', as_bytes content)] of
                  Inl e \<Rightarrow> internal_error ''syntax.error'' e
                | Inr report \<Rightarrow>
                    (let ds = report_diagnostics report in
                     \<lparr>st_ok = (cr_valid report \<and> ds = []), st_diagnostics = ds\<rparr>))))"

text \<open>The kind of a diagnostic is a Rust identifier, for which \<open>to_lowercase\<close> is the ASCII one.\<close>

definition check_semantic :: "sysml_lib \<Rightarrow> string \<Rightarrow> stage_result \<times> nat option" where
  "check_semantic lib content =
     (case sl_compile_text lib content ''topic.sysml'' of
        Inr elements \<Rightarrow> (\<lparr>st_ok = True, st_diagnostics = []\<rparr>, Some elements)
      | Inl e \<Rightarrow>
          (let diag = (case e of
                 SemDiagnostic span kind message \<Rightarrow>
                   (let (line, column) = (case span of Some p \<Rightarrow> p | None \<Rightarrow> (0, 0)) in
                    \<lparr>dg_line = line, dg_column = column,
                     dg_code = to_ascii_lowercase (''semantic.'' @ kind), dg_message = message\<rparr>)
               | SemOther text \<Rightarrow>
                   \<lparr>dg_line = 0, dg_column = 0, dg_code = ''semantic.error'', dg_message = text\<rparr>)
           in (\<lparr>st_ok = False, st_diagnostics = [diag]\<rparr>, None)))"

section \<open>Responses\<close>

definition validator_tools :: json where
  "validator_tools = JObj
     [(''syntax_checker'', JObj [(''name'', JStr ''sysml2''), (''version'', JStr ''0.3.1'')]),
      (''validator'', JObj [(''name'', JStr ''mercurio-sysml''), (''version'', JStr ''0.86.0'')])]"

definition json_diagnostic :: "diagnostic \<Rightarrow> json" where
  "json_diagnostic d = JObj [(''line'', JNum (dg_line d)), (''column'', JNum (dg_column d)),
     (''code'', JStr (dg_code d)), (''message'', JStr (dg_message d))]"

definition json_stage :: "stage_result \<Rightarrow> json" where
  "json_stage r = JObj [(''ok'', JBool (st_ok r)),
     (''diagnostics'', JArr (map json_diagnostic (st_diagnostics r)))]"

definition json_validate :: "validate_response \<Rightarrow> json" where
  "json_validate r = JObj [(''ok'', JBool (vr_ok r)), (''syntax'', json_stage (vr_syntax r)),
     (''semantic'', json_stage (vr_semantic r)),
     (''elements'', case vr_elements r of None \<Rightarrow> JNull | Some n \<Rightarrow> JNum n),
     (''elapsed_ms'', JNum (vr_elapsed_ms r)), (''tools'', vr_tools r)]"

definition json_failure :: "string \<Rightarrow> json" where
  "json_failure message = JObj [(''ok'', JBool False), (''error'', JStr message)]"

definition json_response :: "sysml_lib \<Rightarrow> u16 \<Rightarrow> json \<Rightarrow> reply" where
  "json_response lib status body =
     \<lparr>rp_status = status, rp_content_type = Some ''application/json; charset=utf-8'',
      rp_body = (case sl_to_vec lib body of
                   Some bs \<Rightarrow> bs
                 | None \<Rightarrow> as_bytes (''{'' @ [CHR 0x22] @ ''ok'' @ [CHR 0x22] @ '':false}''))\<rparr>"

text \<open>\<open>Response::from_string\<close> of \<open>tiny_http\<close> sets this content type.\<close>

definition plain_response :: "u16 \<Rightarrow> string \<Rightarrow> reply" where
  "plain_response status text =
     \<lparr>rp_status = status, rp_content_type = Some ''text/plain; charset=UTF-8'', rp_body = as_bytes text\<rparr>"

section \<open>The service\<close>

definition max_body_bytes :: int where
  "max_body_bytes = 2 * 1024 * 1024"

text \<open>\<open>take(n).read_to_end\<close>: the first \<open>n\<close> bytes, and the reader's error only if it comes before.\<close>

fun take_limit :: "int \<Rightarrow> bytes \<Rightarrow> bytes" where
  "take_limit n [] = []"
| "take_limit n (b # bs) = (if n \<le> 0 then [] else b # take_limit (n - 1) bs)"

definition read_limited :: "int \<Rightarrow> incoming \<Rightarrow> string + bytes" where
  "read_limited n r =
     (case in_error r of
        Some e \<Rightarrow> if int (length (in_body r)) < n then Inl e else Inr (take_limit n (in_body r))
      | None \<Rightarrow> Inr (take_limit n (in_body r)))"

definition read_content :: "sysml_lib \<Rightarrow> incoming \<Rightarrow> string + string" where
  "read_content lib r =
     (case read_limited (max_body_bytes + 1) r of
        Inl e \<Rightarrow> Inl (msg_read @ e)
      | Inr raw \<Rightarrow>
          if max_body_bytes < int (length raw)
          then Inl (msg_too_big_pre @ show_nat (nat max_body_bytes) @ msg_too_big_post)
          else map_err (\<lambda>e. msg_json @ e) (sl_from_slice lib raw))"

definition validate_content :: "sysml_lib \<Rightarrow> ambient \<Rightarrow> string \<Rightarrow> validate_response" where
  "validate_content lib am content =
     (let syntax = check_syntax lib am content;
          (semantic, elements) = check_semantic lib content
      in \<lparr>vr_ok = (st_ok syntax \<and> st_ok semantic), vr_syntax = syntax, vr_semantic = semantic,
          vr_elements = elements, vr_elapsed_ms = am_elapsed_ms am, vr_tools = validator_tools\<rparr>)"

definition url_path :: "string \<Rightarrow> string" where
  "url_path url = (case split_on CHR ''?'' url of [] \<Rightarrow> [] | p # _ \<Rightarrow> p)"

definition handle_request :: "sysml_lib \<Rightarrow> ambient \<Rightarrow> incoming \<Rightarrow> reply" where
  "handle_request lib am r =
     (if in_method r = MGet \<and> url_path (in_url r) = ''/healthz'' then plain_response 200 ''ok''
      else if in_method r = MPost \<and> url_path (in_url r) = ''/validate'' then
        (case read_content lib r of
           Inl message \<Rightarrow> json_response lib 400 (json_failure message)
         | Inr content \<Rightarrow> json_response lib 200 (json_validate (validate_content lib am content)))
      else plain_response 404 ''not found'')"

text \<open>The loop over \<open>incoming_requests\<close>: one reply per request, in order.\<close>

fun serve_requests :: "sysml_lib \<Rightarrow> (ambient \<times> incoming) list \<Rightarrow> reply list" where
  "serve_requests lib [] = []"
| "serve_requests lib ((am, r) # rs) = handle_request lib am r # serve_requests lib rs"

datatype startup = PanicMetamodel string | PanicBind string | Listening string

definition validator_main :: "env \<Rightarrow> string option \<Rightarrow> (string \<Rightarrow> string option) \<Rightarrow> startup" where
  "validator_main env metamodel bind =
     (let addr = (case env ''LISTEN_ADDR'' of Some a \<Rightarrow> a | None \<Rightarrow> ''0.0.0.0:8080'') in
      case metamodel of
        Some e \<Rightarrow> PanicMetamodel e
      | None \<Rightarrow> (case bind addr of Some e \<Rightarrow> PanicBind e | None \<Rightarrow> Listening addr))"

section \<open>Reading the body\<close>

lemma length_take_limit: "int (length (take_limit n bs)) = max 0 (min n (int (length bs)))"
  by (induction n bs rule: take_limit.induct) auto

lemma take_limit_id: "int (length bs) \<le> n \<Longrightarrow> take_limit n bs = bs"
  by (induction n bs rule: take_limit.induct) auto

lemma read_limited_cases:
  "0 \<le> n \<Longrightarrow> read_limited n r =
     (if int (length (in_body r)) < n
      then (case in_error r of Some e \<Rightarrow> Inl e | None \<Rightarrow> Inr (in_body r))
      else Inr (take_limit n (in_body r)))"
  by (auto simp: read_limited_def take_limit_id split: option.splits)

lemma read_content_cases:
  "read_content lib r =
     (if max_body_bytes < int (length (in_body r))
      then Inl (msg_too_big_pre @ show_nat (nat max_body_bytes) @ msg_too_big_post)
      else (case in_error r of
              Some e \<Rightarrow> Inl (msg_read @ e)
            | None \<Rightarrow> map_err (\<lambda>e. msg_json @ e) (sl_from_slice lib (in_body r))))"
proof -
  have pos: "0 \<le> max_body_bytes + 1" by (simp add: max_body_bytes_def)
  show ?thesis
    using length_take_limit [of "max_body_bytes + 1" "in_body r"]
    by (auto simp: read_content_def read_limited_cases [OF pos] split: option.splits)
qed

section \<open>Properties\<close>

lemma report_diagnostics_Nil [simp]: "report_diagnostics report = [] \<longleftrightarrow> concat (cr_files report) = []"
  by (simp add: report_diagnostics_def)

lemma check_syntax_ok:
  "st_ok (check_syntax lib am content) \<longleftrightarrow>
     (\<exists>dir report. am_tempdir am = Inr dir \<and> am_write am = None \<and>
        sl_check_paths lib [(path_join dir ''topic.sysml'', as_bytes content)] = Inr report \<and>
        cr_valid report \<and> concat (cr_files report) = [])"
  by (auto simp: check_syntax_def internal_error_def Let_def simp del: concat_eq_Nil_conv
      split: sum.splits option.splits)

lemma check_semantic_ok:
  "st_ok (fst (check_semantic lib content)) \<longleftrightarrow>
     (\<exists>n. sl_compile_text lib content ''topic.sysml'' = Inr n)"
  by (auto simp: check_semantic_def Let_def split: sum.splits)

text \<open>
  C27. The service accepts a text exactly when the temporary file could be written, the syntax checker
  called the file valid without a single diagnostic, and the validator compiled the text: every
  failure of the system or of a checker is a rejection, never an acceptance.
\<close>
theorem validate_accepts_iff_both_stages_pass:
  "vr_ok (validate_content lib am content) \<longleftrightarrow>
     (\<exists>dir report n. am_tempdir am = Inr dir \<and> am_write am = None \<and>
        sl_check_paths lib [(path_join dir ''topic.sysml'', as_bytes content)] = Inr report \<and>
        cr_valid report \<and> concat (cr_files report) = [] \<and>
        sl_compile_text lib content ''topic.sysml'' = Inr n)"
  using check_semantic_ok [of lib content]
  by (auto simp: validate_content_def check_syntax_ok Let_def case_prod_beta simp del: concat_eq_Nil_conv)

text \<open>
  C31. The status of every reply: 200 for the health check; for a validation 400 when the body is
  longer than 2 MiB, cannot be read to its end or does not parse, and 200 otherwise, whatever the
  verdict; 404 for everything else. The query string plays no part.
\<close>
theorem handle_request_status:
  "rp_status (handle_request lib am r) =
     (if in_method r = MGet \<and> url_path (in_url r) = ''/healthz'' then 200
      else if in_method r = MPost \<and> url_path (in_url r) = ''/validate'' then
        (if int (length (in_body r)) \<le> max_body_bytes \<and> in_error r = None \<and>
            \<not> isl (sl_from_slice lib (in_body r)) then 200 else 400)
      else 404)"
  by (cases "sl_from_slice lib (in_body r)")
    (auto simp: handle_request_def plain_response_def json_response_def read_content_cases
      split: sum.splits option.splits)

lemma parser_update [simp]:
  "check_syntax (lib\<lparr>sl_from_slice := p\<rparr>) = check_syntax lib"
  "check_semantic (lib\<lparr>sl_from_slice := p\<rparr>) = check_semantic lib"
  "json_response (lib\<lparr>sl_from_slice := p\<rparr>) = json_response lib"
  by (intro ext; simp add: check_syntax_def check_semantic_def json_response_def
      cong: sum.case_cong option.case_cong)+

text \<open>
  C28. The JSON parser is given the complete body of at most 2 MiB, or nothing: two parsers that agree on
  the body of a request, if that is complete and within the limit, serve the request alike. In
  particular no prefix of a longer or broken body is ever parsed.
\<close>
theorem parser_sees_bounded_bodies:
  assumes "int (length (in_body r)) \<le> 2 * 1024 * 1024 \<and> in_error r = None \<longrightarrow>
      p (in_body r) = sl_from_slice lib (in_body r)"
  shows "handle_request (lib\<lparr>sl_from_slice := p\<rparr>) am r = handle_request lib am r"
proof -
  have "read_content (lib\<lparr>sl_from_slice := p\<rparr>) r = read_content lib r"
    using assms by (auto simp: read_content_cases max_body_bytes_def split: option.splits)
  then show ?thesis
    by (simp add: handle_request_def validate_content_def cong: if_cong sum.case_cong)
qed

definition demo_sysml :: sysml_lib where
  "demo_sysml = \<lparr>sl_check_paths = (\<lambda>_. Inr \<lparr>cr_valid = True, cr_files = []\<rparr>),
     sl_compile_text = (\<lambda>_ _. Inr 1), sl_from_slice = (\<lambda>_. Inl ''eof''), sl_to_vec = (\<lambda>_. None)\<rparr>"

text \<open>A body that breaks off: whatever a parser would make of the received part plays no role.\<close>

theorem parser_sees_bounded_bodies_witness:
  "\<forall>p am. handle_request (demo_sysml\<lparr>sl_from_slice := p\<rparr>) am
       \<lparr>in_method = MPost, in_url = ''/validate'', in_body = [123], in_error = Some ''reset''\<rparr> =
     handle_request demo_sysml am
       \<lparr>in_method = MPost, in_url = ''/validate'', in_body = [123], in_error = Some ''reset''\<rparr>"
  by (intro allI, rule parser_sees_bounded_bodies) simp

end
