(* ===== verification/Server_Wire.thy ===== *)
theory Server_Wire
  imports Server_Streams
begin

text \<open>
  What the hub puts on the response stream of a session for one virtual stream: first its \<open>Open\<close>
  frame, then one \<open>Data\<close> frame per read of the TCP socket, in order and complete, then at most one
  \<open>Close\<close>. Proved for every interleaving of the accept loops, the pumps and the connections.
\<close>

section \<open>Frames of a stream\<close>

definition stream_frame :: "server_frame \<Rightarrow> bool" where
  "stream_frame f \<longleftrightarrow>
     (case sf_kind f of Some (Open _) \<Rightarrow> True | Some (SData _) \<Rightarrow> True | Some (SClose _) \<Rightarrow> True | _ \<Rightarrow> False)"

lemma stream_frame_simps [simp]:
  "stream_frame (open_frame sid t)" "stream_frame (data_frame sid p)" "stream_frame (eof_frame sid)"
  "\<not> stream_frame (challenge_frame n i)" "\<not> stream_frame (http_response_frame sid r)"
  "\<not> stream_frame (reject_kind_frame sid)"
  "sf_stream_id (open_frame sid t) = sid" "sf_stream_id (data_frame sid p) = sid"
  "sf_stream_id (eof_frame sid) = sid"
  by (simp_all add: stream_frame_def open_frame_def data_frame_def eof_frame_def challenge_frame_def
      http_response_frame_def reject_kind_frame_def)

text \<open>Everything accepted by the response channel of connection \<open>c\<close> so far, taken or still queued.\<close>

definition out_frames :: "server \<Rightarrow> nat \<Rightarrow> server_frame list" where
  "out_frames s c = (case outs s c of None \<Rightarrow> [] | Some ot \<Rightarrow> ot_sent ot @ ch_queue (ot_chan ot))"

definition on_wire :: "server \<Rightarrow> nat \<Rightarrow> u64 \<Rightarrow> server_frame list" where
  "on_wire s c sid = filter (\<lambda>f. stream_frame f \<and> sf_stream_id f = sid) (out_frames s c)"

definition up_view :: "server \<Rightarrow> nat \<Rightarrow> (nat \<times> u64 \<times> up_pc \<times> bytes list) option" where
  "up_view s k = map_option (\<lambda>v. (vs_sess v, vs_sid v, vs_up v, vs_read v)) (strms s k)"

lemma outs_ops [simp]:
  "outs (set_conn_pc c pc s) = outs s" "outs (upd_sess a f s) = outs s"
  "outs (upd_acc a g s) = outs s" "outs (upd_http h j s) = outs s"
  "outs (upd_mets m s) = outs s" "outs (upd_strm k v s) = outs s"
  "outs (session_close_flag a s) = outs s" "outs (session_close_clear a s) = outs s"
  "outs (session_remove a sid s) = outs s" "outs (session_remove_counted a sid s) = outs s"
  by (simp_all add: state_ops)

lemma out_frames_cong: "outs s' = outs s \<Longrightarrow> out_frames s' = out_frames s"
  by (simp add: out_frames_def fun_eq_iff)

lemma up_view_cong: "strms s' = strms s \<Longrightarrow> up_view s' = up_view s"
  by (simp add: up_view_def fun_eq_iff)

lemma up_view_sid: "up_view s k = Some (c, sid, u, rd) \<Longrightarrow> sid_of s k = Some (c, sid)"
  by (auto simp: up_view_def sid_of_def)

lemma up_view_upd_strm:
  "up_view (upd_strm k f s) j =
     (if j = k then map_option (\<lambda>v. (vs_sess (f v), vs_sid (f v), vs_up (f v), vs_read (f v))) (strms s k)
      else up_view s j)"
  by (simp add: up_view_def option.map_comp comp_def)

lemma tx_self:
  assumes "inv_auth cfg s" "sess s c = Some ss"
  shows "ss_tx ss = c"
proof -
  have "conn_ok cfg c (pc_of s c) (rcvd_of s c) (ident_of s c)"
    using assms(1) by (simp add: inv_auth_def)
  with assms(2) show ?thesis
    by (auto simp: conn_ok_def ident_of_def split: option.splits if_splits prod.splits)
qed

text \<open>A successful send appends to the response channel of the session's own connection.\<close>

lemma session_send_out:
  assumes "inv_auth cfg s" "session_send c f s = SendOk s'"
  shows "out_frames s' = (out_frames s)(c := out_frames s c @ [f])" "\<exists>x. s' = s\<lparr>outs := x\<rparr>"
proof -
  from session_send_OkD [OF assms(2)] obtain ss ot ch where
    s: "sess s c = Some ss" "outs s (ss_tx ss) = Some ot" "chan_send f (ot_chan ot) = SendOk ch"
      "s' = s\<lparr>outs := (outs s)(ss_tx ss \<mapsto> ot\<lparr>ot_chan := ch\<rparr>)\<rparr>"
    by blast
  with tx_self [OF assms(1)] have "ss_tx ss = c" by blast
  with s mpsc.send_appends [OF s(3)] show "out_frames s' = (out_frames s)(c := out_frames s c @ [f])"
    by (auto simp: out_frames_def fun_eq_iff)
  show "\<exists>x. s' = s\<lparr>outs := x\<rparr>" using s(4) by blast
qed

section \<open>The invariant\<close>

text \<open>
  The frames of one stream on the wire, by the position of its upstream pump: \<open>rd\<close> is what was read
  from the socket. Only a pump that stopped after a failed send may have read more than it sent.
\<close>

definition sent_prefix :: "u64 \<Rightarrow> bytes list \<Rightarrow> server_frame list \<Rightarrow> bool" where
  "sent_prefix sid ps fs \<longleftrightarrow> (\<exists>t. fs = open_frame sid t # map (data_frame sid) ps)"

fun wire_ok :: "u64 \<Rightarrow> up_pc \<Rightarrow> bytes list \<Rightarrow> server_frame list \<Rightarrow> bool" where
  "wire_ok sid UpIdle rd fs \<longleftrightarrow> fs = [] \<and> rd = []"
| "wire_ok sid UpRead rd fs \<longleftrightarrow> sent_prefix sid rd fs"
| "wire_ok sid (UpSend p) rd fs \<longleftrightarrow> (\<exists>ps. rd = ps @ [p] \<and> sent_prefix sid ps fs)"
| "wire_ok sid UpSendClose rd fs \<longleftrightarrow> sent_prefix sid rd fs"
| "wire_ok sid _ rd fs \<longleftrightarrow>
     sent_prefix sid rd fs \<or> (\<exists>gs. fs = gs @ [eof_frame sid] \<and> sent_prefix sid rd gs) \<or>
     (\<exists>ps p. rd = ps @ [p] \<and> sent_prefix sid ps fs)"

lemma sent_prefix_snoc: "sent_prefix sid ps fs \<Longrightarrow> sent_prefix sid (ps @ [p]) (fs @ [data_frame sid p])"
  by (auto simp: sent_prefix_def)

definition replies_ok :: "server \<Rightarrow> bool" where
  "replies_ok s \<longleftrightarrow>
     (\<forall>h t f. https s h = Some t \<longrightarrow> ht_pc t = HSend f \<longrightarrow> \<not> stream_frame f) \<and>
     (\<forall>c ctx f. pc_of s c = Some (CReject ctx f) \<longrightarrow> \<not> stream_frame f)"

definition inv_wire :: "server \<Rightarrow> bool" where
  "inv_wire s \<longleftrightarrow>
     (\<forall>c f. f \<in> set (out_frames s c) \<longrightarrow> stream_frame f \<longrightarrow> (\<exists>k. sid_of s k = Some (c, sf_stream_id f))) \<and>
     (\<forall>k c sid u rd. up_view s k = Some (c, sid, u, rd) \<longrightarrow> wire_ok sid u rd (on_wire s c sid)) \<and>
     (\<forall>a c sid k. task_of s a = Some (c, sid, k) \<longrightarrow> up_view s k = Some (c, sid, UpIdle, [])) \<and>
     replies_ok s"

lemma inv_wireD:
  assumes "inv_wire s"
  shows "f \<in> set (out_frames s c) \<Longrightarrow> stream_frame f \<Longrightarrow> \<exists>k. sid_of s k = Some (c, sf_stream_id f)"
    "up_view s k = Some (c, sid, u, rd) \<Longrightarrow> wire_ok sid u rd (on_wire s c sid)"
    "task_of s a = Some (c, sid, k) \<Longrightarrow> up_view s k = Some (c, sid, UpIdle, [])"
    "replies_ok s"
  using assms unfolding inv_wire_def by (elim conjE; blast)+

text \<open>Steps that touch no stream: at most other frames are appended.\<close>

definition wire_kept :: "server \<Rightarrow> server \<Rightarrow> bool" where
  "wire_kept s s' \<longleftrightarrow>
     (\<forall>c. \<exists>fs. out_frames s' c = out_frames s c @ fs \<and> (\<forall>f \<in> set fs. \<not> stream_frame f)) \<and>
     (\<forall>k. up_view s' k = up_view s k) \<and>
     (\<forall>a x. task_of s' a = Some x \<longrightarrow> task_of s a = Some x)"

lemma up_view_eq_sid: "up_view s' k = up_view s k \<Longrightarrow> sid_of s' k = sid_of s k"
  by (cases "strms s k"; cases "strms s' k") (auto simp: up_view_def sid_of_def)

lemma inv_wire_kept:
  assumes inv: "inv_wire s" and kept: "wire_kept s s'" and rep: "replies_ok s'"
  shows "inv_wire s'"
proof -
  have up: "up_view s' k = up_view s k" for k using kept by (simp add: wire_kept_def)
  then have sid: "sid_of s' k = sid_of s k" for k by (rule up_view_eq_sid)
  have out: "\<exists>fs. out_frames s' c = out_frames s c @ fs \<and> (\<forall>f \<in> set fs. \<not> stream_frame f)" for c
    using kept by (simp add: wire_kept_def)
  have wire: "on_wire s' c i = on_wire s c i" for c i
    using out [of c] by (auto simp: on_wire_def filter_empty_conv)
  show ?thesis
    unfolding inv_wire_def up sid wire
  proof (intro conjI allI impI)
    fix c f assume "f \<in> set (out_frames s' c)" "stream_frame f"
    with out [of c] have "f \<in> set (out_frames s c)" by auto
    then show "\<exists>k. sid_of s k = Some (c, sf_stream_id f)"
      using \<open>stream_frame f\<close> by (rule inv_wireD(1) [OF inv])
  next
    fix a c i k assume "task_of s' a = Some (c, i, k)"
    then have "task_of s a = Some (c, i, k)" using kept by (simp add: wire_kept_def)
    then show "up_view s k = Some (c, i, UpIdle, [])" by (rule inv_wireD(3) [OF inv])
  next
    fix k c i u rd assume "up_view s k = Some (c, i, u, rd)"
    then show "wire_ok i u rd (on_wire s c i)" by (rule inv_wireD(2) [OF inv])
  qed (rule rep)
qed

text \<open>A step of one stream's pump, or of the accept loop that opens it.\<close>

lemma inv_wire_move:
  assumes inv: "inv_wire s" and ids: "inv_ids n s" and v: "up_view s k = Some (c, sid, u, rd)"
    and up: "\<And>j. up_view s' j = (if j = k then Some (c, sid, u', rd') else up_view s j)"
    and out: "out_frames s' = (out_frames s)(c := out_frames s c @ fs)"
    and fs: "\<forall>f \<in> set fs. stream_frame f \<and> sf_stream_id f = sid"
    and ok: "wire_ok sid u' rd' (on_wire s c sid @ fs)"
    and task: "\<And>a d i j. task_of s' a = Some (d, i, j) \<Longrightarrow> task_of s a = Some (d, i, j) \<and> j \<noteq> k"
    and rep: "replies_ok s'"
  shows "inv_wire s'"
proof -
  note sid_k = up_view_sid [OF v]
  have sid: "sid_of s' j = sid_of s j" for j
  proof (cases "j = k")
    case True
    have "up_view s' k = Some (c, sid, u', rd')" using up [of k] by simp
    from up_view_sid [OF this] True sid_k show ?thesis by simp
  next
    case False
    then have "up_view s' j = up_view s j" using up [of j] by simp
    then show ?thesis by (rule up_view_eq_sid)
  qed
  have fil: "filter (\<lambda>f. stream_frame f \<and> sf_stream_id f = i) fs = (if i = sid then fs else [])" for i
    using fs by (auto simp: filter_empty_conv filter_id_conv)
  have wire: "on_wire s' d i = (if d = c \<and> i = sid then on_wire s c sid @ fs else on_wire s d i)" for d i
    using fil [of i] by (auto simp: on_wire_def out)
  show ?thesis
    unfolding inv_wire_def sid
  proof (intro conjI allI impI)
    fix d f assume "f \<in> set (out_frames s' d)" "stream_frame f"
    then consider "f \<in> set (out_frames s d)" | "d = c" "f \<in> set fs"
      by (auto simp: out split: if_splits)
    then show "\<exists>j. sid_of s j = Some (d, sf_stream_id f)"
    proof cases
      case 1
      then show ?thesis using \<open>stream_frame f\<close> by (rule inv_wireD(1) [OF inv])
    next
      case 2
      with fs sid_k show ?thesis by auto
    qed
  next
    fix j d i w xs assume j: "up_view s' j = Some (d, i, w, xs)"
    show "wire_ok i w xs (on_wire s' d i)"
    proof (cases "j = k")
      case True
      with j up [of k] ok show ?thesis by (simp add: wire)
    next
      case False
      with j up [of j] have old: "up_view s j = Some (d, i, w, xs)" by simp
      have "\<not> (d = c \<and> i = sid)"
        using inv_idsD(3) [OF ids sid_k] up_view_sid [OF old] False by blast
      then show ?thesis using inv_wireD(2) [OF inv old] by (auto simp: wire)
    qed
  next
    fix a d i j assume "task_of s' a = Some (d, i, j)"
    from task [OF this] have "task_of s a = Some (d, i, j)" "j \<noteq> k" by auto
    with inv_wireD(3) [OF inv this(1)] up [of j] show "up_view s' j = Some (d, i, UpIdle, [])" by simp
  qed (rule rep)
qed

section \<open>Steps that touch no stream\<close>

lemma wire_keptI:
  assumes "\<And>c. out_frames s' c = out_frames s c \<or>
      (\<exists>f. \<not> stream_frame f \<and> out_frames s' c = out_frames s c @ [f])"
    and "\<And>k. up_view s' k = up_view s k"
    and "\<And>a x. task_of s' a = Some x \<Longrightarrow> task_of s a = Some x"
  shows "wire_kept s s'"
  unfolding wire_kept_def
proof (intro conjI allI)
  fix c
  from assms(1) [of c] show "\<exists>fs. out_frames s' c = out_frames s c @ fs \<and> (\<forall>f \<in> set fs. \<not> stream_frame f)"
    by (elim disjE exE) auto
qed (use assms(2,3) in auto)

lemma wire_kept_same:
  assumes "outs s' = outs s" "\<And>k. up_view s' k = up_view s k" "\<And>a x. task_of s' a = Some x \<Longrightarrow> task_of s a = Some x"
  shows "wire_kept s s'"
  using assms out_frames_cong [OF assms(1)] by (intro wire_keptI) auto

lemma wire_kept_conn_step:
  assumes auth: "inv_auth cfg s" and rep: "replies_ok s" and st: "conn_step cfg c inp s = Some s'"
  shows "wire_kept s s'"
  using st
proof (cases rule: conn_stepE)
  case (Reject cn ctx f)
  then have "pc_of s c = Some (CReject ctx f)" by (simp add: pc_of_conn)
  with rep have f: "\<not> stream_frame f" unfolding replies_ok_def by blast
  show ?thesis
  proof (cases "session_send c f s")
    case (SendOk t)
    with Reject have s': "s' = set_conn_pc c (CRecv ctx) t" by (simp add: conn_reject_def)
    have "out_frames s' = out_frames t" "strms t = strms s" "accs t = accs s"
      using session_send_out(2) [OF auth SendOk] s' by (auto intro: out_frames_cong)
    with session_send_out(1) [OF auth SendOk] f s' show ?thesis
      by (intro wire_keptI) (auto simp: up_view_def task_of_def)
  qed (use Reject in \<open>auto simp: conn_reject_def up_view_def task_of_def intro!: wire_kept_same\<close>)
next
  case (Bind cn ctx b bs r)
  then show ?thesis
    by (intro wire_kept_same) (auto simp: conn_bind_alt task_of_def up_view_def split: op_splits)
next
  case (Deliver cn ctx sid k p)
  then show ?thesis
    by (intro wire_kept_same)
      (auto simp: conn_ops task_of_def up_view_def split: op_splits)
next
  case (Abort cn r)
  then show ?thesis
    by (intro wire_kept_same) (auto simp: conn_ops task_of_def up_view_def split: option.splits if_splits)
next
  case (First cn r)
  then show ?thesis
    by (intro wire_kept_same)
      (auto simp: conn_first_def conn_fail_def task_of_def up_view_def split: recv_result.splits sum.splits)
next
  case (Recv cn ctx r h)
  then show ?thesis
    by (intro wire_kept_same) (auto simp: conn_ops task_of_def up_view_def split: op_splits)
qed (intro wire_kept_same; auto simp: conn_ops task_of_def up_view_def split: op_splits)+

lemma replies_conn_step:
  assumes rep: "replies_ok s" and st: "conn_step cfg c inp s = Some s'"
  shows "replies_ok s'"
  unfolding replies_ok_def
proof (intro conjI allI impI)
  fix h t f
  assume "https s' h = Some t" "ht_pc t = HSend f"
  then have "https s h = Some t" using st
    by (elim conn_stepE) (auto simp: conn_ops conn_first_def dest!: session_send_frame split: op_splits sum.splits)
  with rep \<open>ht_pc t = HSend f\<close> show "\<not> stream_frame f" by (auto simp: replies_ok_def)
next
  fix d ctx f
  assume d: "pc_of s' d = Some (CReject ctx f)"
  show "\<not> stream_frame f"
  proof (cases "d = c")
    case True
    with d st have "pc_of s c = Some (CReject ctx f) \<or> (\<exists>sid. f = reject_kind_frame sid)"
      by (elim conn_stepE)
        (auto simp: conn_ops conn_first_def pc_of_conn dest!: session_send_frame split: op_splits sum.splits)
    with rep show ?thesis by (auto simp: replies_ok_def)
  next
    case False
    with d rep conn_step_other_pc [OF st] show ?thesis by (auto simp: replies_ok_def)
  qed
qed

lemma handle_http_reply:
  "handle_http_request cfg env sid req sp m = (f, m') \<Longrightarrow> \<exists>r. f = http_response_frame sid r"
  by (auto simp: handle_http_request_def Let_def split: sum.splits if_splits)

lemma replies_ok_step:
  assumes rep: "replies_ok s" and st: "step cfg e s = Some s'"
  shows "replies_ok s'"
  using st
proof (cases rule: step_cases)
  case (Connect c n t)
  with rep connect_views(1) [OF Connect(2)] connect_SomeD(5) [OF Connect(2)] show ?thesis
    by (auto simp: replies_ok_def)
next
  case (Conn c inp)
  from replies_conn_step [OF rep Conn(2)] show ?thesis .
next
  case Quiet
  have pc: "pc_of s' d = pc_of s d" for d using Quiet(1) by (simp add: quiet_def)
  have "\<not> stream_frame f" if h: "https s' h = Some t" "ht_pc t = HSend f" for h t f
  proof (cases "https s h = Some t")
    case True
    with rep h show ?thesis by (auto simp: replies_ok_def)
  next
    case False
    moreover have "\<not> (\<exists>c n t. e = EvConnect c n t)" "\<not> (\<exists>c inp. e = EvConn c inp)"
      using Quiet(2,3) by blast+
    ultimately have "\<exists>sid r. f = http_response_frame sid r"
      using h st
      by (cases e)
        (auto simp: http_run_def http_send_def dest!: session_send_frame handle_http_reply
          elim!: acc_stepE up_stepE dn_stepE
          simp: acc_ops out_take_def out_drop_def
          split: option.splits http_pc.splits prod.splits sent.splits if_splits acc_pc.splits
            accept_outcome.splits read_outcome.splits write_outcome.splits)
    then show ?thesis by auto
  qed
  with rep pc show ?thesis by (auto simp: replies_ok_def)
qed

text \<open>The other tasks, when they send nothing for a stream.\<close>

lemma wire_kept_connect:
  assumes "connect c n t s = Some s'"
  shows "wire_kept s s'"
proof (intro wire_keptI)
  fix d
  from connect_SomeD(2,5) [OF assms]
  show "out_frames s' d = out_frames s d \<or>
      (\<exists>f. \<not> stream_frame f \<and> out_frames s' d = out_frames s d @ [f])"
    by (cases "d = c") (auto simp: out_frames_def)
qed (use connect_SomeD(5) [OF assms] in \<open>auto simp: up_view_def task_of_def\<close>)

lemma wire_kept_send:
  assumes "inv_auth cfg s" "session_send c f s = SendOk t" "\<not> stream_frame f"
    and "outs s' = outs t" "strms s' = strms t" "accs s' = accs t"
  shows "wire_kept s s'"
proof -
  have "strms t = strms s" "accs t = accs s" using session_send_out(2) [OF assms(1,2)] by auto
  with session_send_out(1) [OF assms(1,2)] assms(3-6) out_frames_cong [OF assms(4)] show ?thesis
    by (intro wire_keptI) (auto simp: up_view_def task_of_def)
qed

lemma wire_kept_http_send:
  assumes "inv_auth cfg s" "replies_ok s" "http_send h s = Some s'"
  shows "wire_kept s s'"
proof -
  from assms(3) obtain t f where t: "https s h = Some t" "ht_pc t = HSend f"
    and s': "(case session_send (ht_sess t) f s of
                  SendWait \<Rightarrow> None
                | SendErr \<Rightarrow> Some (upd_http h (\<lambda>t. t\<lparr>ht_pc := HDone\<rparr>) s)
                | SendOk s' \<Rightarrow> Some (upd_http h (\<lambda>t. t\<lparr>ht_pc := HDone\<rparr>) s')) = Some s'"
    by (auto simp: http_send_def split: option.splits http_pc.splits)
  have f: "\<not> stream_frame f" using assms(2) t by (auto simp: replies_ok_def)
  show ?thesis
  proof (cases "session_send (ht_sess t) f s")
    case (SendOk u)
    with s' have "s' = upd_http h (\<lambda>t. t\<lparr>ht_pc := HDone\<rparr>) u" by simp
    then show ?thesis
      by (intro wire_kept_send [OF assms(1) SendOk f]) (auto simp: state_ops)
  qed (use s' in \<open>auto simp: up_view_def task_of_def state_ops intro!: wire_kept_same\<close>)
qed

lemma wire_kept_out:
  "out_take c s = Some s' \<Longrightarrow> wire_kept s s'" "out_drop c s = Some s' \<Longrightarrow> wire_kept s s'"
proof -
  assume "out_take c s = Some s'"
  then show "wire_kept s s'"
    by (intro wire_keptI)
      (auto simp: out_take_def out_frames_def up_view_def task_of_def dest!: chan_recv_SomeD
        split: option.splits if_splits prod.splits)
next
  assume "out_drop c s = Some s'"
  then show "wire_kept s s'"
    by (intro wire_keptI)
      (auto simp: out_drop_def out_frames_def chan_drop_rx_def up_view_def task_of_def
        split: option.splits if_splits)
qed

lemma wire_kept_dn_step: "dn_step k r s = Some s' \<Longrightarrow> wire_kept s s'"
  by (erule dn_stepE)
    (auto simp: acc_ops up_view_def task_of_def intro!: wire_kept_same split: op_splits)

lemma wire_kept_acc_cancel: "acc_cancel a s = Some s' \<Longrightarrow> wire_kept s s'"
  by (auto simp: acc_ops up_view_def task_of_acc option.map_comp comp_def intro!: wire_kept_same
      split: option.splits if_splits acc_pc.splits)

lemma wire_kept_http_run: "http_run cfg env h s = Some s' \<Longrightarrow> wire_kept s s'"
  by (auto simp: http_run_def up_view_def task_of_def intro!: wire_kept_same
      split: option.splits http_pc.splits prod.splits)

section \<open>The accept loop and the upstream pump\<close>

lemma inv_wire_accept:
  assumes inv: "inv_wire s" and ids: "inv_ids n s" and n: "n < 2 ^ 63" and a: "accepts s e a ac k"
    and s': "s' = upd_acc a (\<lambda>ac. ac\<lparr>ac_pc := AInsert (next_sid s + 1) k\<rparr>)
              (s\<lparr>next_sid := next_sid s + 1,
                 strms := (strms s)(k \<mapsto> vstream_new (ac_sess ac) (next_sid s + 1))\<rparr>)"
    and rep: "replies_ok s'"
  shows "inv_wire s'"
proof -
  let ?sid = "next_sid s + 1" and ?c = "ac_sess ac"
  have ac: "accs s a = Some ac" "strms s k = None" using a by (simp_all add: accepts_def)
  have new: "unat ?sid = Suc (unat (next_sid s))"
    using unat_inc64 [of "next_sid s"] inv_idsD(1) [OF ids] n by simp
  have none: "sid_of s j \<noteq> Some (c, ?sid)" "sid_of s k = None" for j c
    using inv_idsD(2) [OF ids, of j c ?sid] new ac(2) by (auto simp: sid_of_def)
  have up: "up_view s' j = (if j = k then Some (?c, ?sid, UpIdle, []) else up_view s j)" for j
    by (simp add: s' up_view_def vstream_new_def)
  have sid: "sid_of s' j = (if j = k then Some (?c, ?sid) else sid_of s j)" for j
    by (simp add: s' vstream_new_def)
  have out: "out_frames s' = out_frames s" by (rule out_frames_cong) (simp add: s')
  have task: "task_of s' b = (if b = a then Some (?c, ?sid, k) else task_of s b)" for b
    using ac by (simp add: s')
  have wire: "on_wire s' c i = on_wire s c i" for c i by (simp add: on_wire_def out)
  have empty: "on_wire s ?c ?sid = []"
    using inv_wireD(1) [OF inv] none(1) by (fastforce simp: on_wire_def filter_empty_conv)
  show ?thesis
    unfolding inv_wire_def out wire
  proof (intro conjI allI impI)
    fix c f assume "f \<in> set (out_frames s c)" "stream_frame f"
    from inv_wireD(1) [OF inv this] obtain j where "sid_of s j = Some (c, sf_stream_id f)" by blast
    with none(2) have "sid_of s' j = Some (c, sf_stream_id f)" by (cases "j = k") (simp_all add: sid)
    then show "\<exists>j. sid_of s' j = Some (c, sf_stream_id f)" by blast
  next
    fix j c i u rd assume "up_view s' j = Some (c, i, u, rd)"
    then show "wire_ok i u rd (on_wire s c i)"
      using inv_wireD(2) [OF inv, of j c i u rd] empty by (cases "j = k") (auto simp: up)
  next
    fix b c i j assume "task_of s' b = Some (c, i, j)"
    then show "up_view s' j = Some (c, i, UpIdle, [])"
      using inv_wireD(3) [OF inv, of b c i j] inv_idsD(4) [OF ids, of b c i j] none(2)
      by (cases "b = a") (auto simp: up task)
  qed (rule rep)
qed

lemma inv_wire_acc_step:
  assumes auth: "inv_auth cfg s" and inv: "inv_wire s" and ids: "inv_ids n s" and n: "n < 2 ^ 63"
    and st: "acc_step a r s = Some s'" and rep: "replies_ok s'"
  shows "inv_wire s'"
  using st
proof (cases rule: acc_stepE)
  case (Accept ac)
  show ?thesis
  proof (cases r)
    case (AcceptOk k)
    with Accept have "accepts s (EvAcc a r) a ac k"
      by (auto simp: accepts_def acc_accept_def split: if_splits)
    moreover from Accept AcceptOk have "s' = upd_acc a (\<lambda>ac. ac\<lparr>ac_pc := AInsert (next_sid s + 1) k\<rparr>)
              (s\<lparr>next_sid := next_sid s + 1,
                 strms := (strms s)(k \<mapsto> vstream_new (ac_sess ac) (next_sid s + 1))\<rparr>)"
      by (auto simp: acc_accept_def alloc_sid_def split: if_splits)
    ultimately show ?thesis using rep by (rule inv_wire_accept [OF inv ids n])
  next
    case AcceptErr
    with Accept show ?thesis
      by (intro inv_wire_kept [OF inv _ rep])
        (auto simp: acc_ops up_view_def task_of_acc intro!: wire_kept_same split: if_splits)
  qed
next
  case (Open ac sid k)
  show ?thesis
  proof (cases "session_send (ac_sess ac) (open_frame sid (ac_target ac)) s")
    case (SendOk t)
    have a: "task_of s a = Some (ac_sess ac, sid, k)" using Open by (simp add: task_of_acc)
    note v = inv_wireD(3) [OF inv a]
    have s': "s' = upd_acc a (\<lambda>ac. ac\<lparr>ac_pc := ACheck\<rparr>)
        (upd_strm k (\<lambda>v. v\<lparr>vs_up := UpRead, vs_dn := DnRecv\<rparr>) t)" "outs s' = outs t"
      using Open(3) SendOk by (auto simp: acc_open_def)
    have t: "strms t = strms s" "accs t = accs s"
      using session_send_out(2) [OF auth SendOk] by auto
    have "on_wire s (ac_sess ac) sid = []" using inv_wireD(2) [OF inv v] by simp
    then have ok: "wire_ok sid UpRead [] (on_wire s (ac_sess ac) sid @ [open_frame sid (ac_target ac)])"
      by (auto simp: sent_prefix_def)
    show ?thesis
    proof (rule inv_wire_move [OF inv ids v _ _ _ ok _ rep])
      show "up_view s' j = (if j = k then Some (ac_sess ac, sid, UpRead, []) else up_view s j)" for j
        using v by (auto simp: s' up_view_def t)
      show "out_frames s' = (out_frames s)(ac_sess ac := out_frames s (ac_sess ac) @ [open_frame sid (ac_target ac)])"
        unfolding out_frames_cong [OF s'(2)] by (rule session_send_out(1) [OF auth SendOk])
      fix b d i j assume b: "task_of s' b = Some (d, i, j)"
      then have "b \<noteq> a" "task_of s b = Some (d, i, j)"
        using Open(1) by (auto simp: s' t task_of_def split: if_splits)
      with inv_idsD(5) [OF ids a] show "task_of s b = Some (d, i, j) \<and> j \<noteq> k" by blast
    qed simp
  next
    case SendErr
    with Open show ?thesis
      by (intro inv_wire_kept [OF inv _ rep])
        (auto simp: acc_ops up_view_def task_of_acc intro!: wire_kept_same split: if_splits)
  qed (use Open in \<open>simp add: acc_open_def\<close>)
qed (intro inv_wire_kept [OF inv _ rep];
     auto simp: acc_ops up_view_def task_of_acc option.map_comp comp_def
       intro!: wire_kept_same split: if_splits)+

lemma inv_wire_up_move:
  assumes inv: "inv_wire s" and ids: "inv_ids n s"
    and v: "strms s k = Some v" "vs_up v \<noteq> UpIdle"
    and s': "strms s' k = Some (v\<lparr>vs_up := u', vs_read := rd'\<rparr>)" "\<And>j. j \<noteq> k \<Longrightarrow> strms s' j = strms s j"
      "accs s' = accs s"
    and out: "out_frames s' = (out_frames s)(vs_sess v := out_frames s (vs_sess v) @ fs)"
    and fs: "\<forall>f \<in> set fs. stream_frame f \<and> sf_stream_id f = vs_sid v"
    and ok: "wire_ok (vs_sid v) u' rd' (on_wire s (vs_sess v) (vs_sid v) @ fs)"
    and rep: "replies_ok s'"
  shows "inv_wire s'"
proof -
  have up: "up_view s k = Some (vs_sess v, vs_sid v, vs_up v, vs_read v)"
    using v by (simp add: up_view_def)
  show ?thesis
  proof (rule inv_wire_move [OF inv ids up _ out fs ok _ rep])
    fix j
    show "up_view s' j = (if j = k then Some (vs_sess v, vs_sid v, u', rd') else up_view s j)"
      using s'(1) s'(2) [of j] by (simp add: up_view_def)
  next
    fix b d i j assume "task_of s' b = Some (d, i, j)"
    then have "task_of s b = Some (d, i, j)" using s'(3) by (simp add: task_of_def)
    with inv_wireD(3) [OF inv this] up v(2) show "task_of s b = Some (d, i, j) \<and> j \<noteq> k"
      by auto
  qed
qed

lemma inv_wire_up_step:
  assumes auth: "inv_auth cfg s" and inv: "inv_wire s" and ids: "inv_ids n s"
    and st: "up_step k r s = Some s'" and rep: "replies_ok s'"
  shows "inv_wire s'"
proof -
  from st obtain v where v: "strms s k = Some v" "vs_up v \<noteq> UpIdle"
    by (auto elim!: up_stepE)
  let ?c = "vs_sess v" and ?sid = "vs_sid v"
  have wok: "wire_ok ?sid (vs_up v) (vs_read v) (on_wire s ?c ?sid)"
    using inv_wireD(2) [OF inv, of k ?c ?sid "vs_up v" "vs_read v"] v by (simp add: up_view_def)
  have quiet: "inv_wire s'"
    if "strms s' k = Some (v\<lparr>vs_up := u', vs_read := rd'\<rparr>)" "\<And>j. j \<noteq> k \<Longrightarrow> strms s' j = strms s j"
      "accs s' = accs s" "outs s' = outs s" "wire_ok ?sid u' rd' (on_wire s ?c ?sid)" for u' rd'
    using inv_wire_up_move [OF inv ids v that(1-3), of "[]"] that(5)
      out_frames_cong [OF that(4)] rep by simp
  have send: "inv_wire s'"
    if snd: "session_send ?c f s = SendOk t" and s': "s' = upd_strm k (\<lambda>v. v\<lparr>vs_up := u'\<rparr>) t"
      and f: "stream_frame f" "sf_stream_id f = ?sid"
      and ok: "wire_ok ?sid u' (vs_read v) (on_wire s ?c ?sid @ [f])" for f t u'
  proof -
    have t: "strms t = strms s" "accs t = accs s" using session_send_out(2) [OF auth snd] by auto
    have "outs s' = outs t" by (simp add: s')
    note out_frames_cong [OF this]
    also note session_send_out(1) [OF auth snd]
    finally have "out_frames s' = (out_frames s)(?c := out_frames s ?c @ [f])" .
    then show ?thesis
      using inv_wire_up_move [OF inv ids v, where s' = s' and u' = u' and rd' = "vs_read v" and fs = "[f]"]
        v s' t f ok rep by simp
  qed
  from st show ?thesis
  proof (cases rule: up_stepE)
    case (Read w)
    with v wok show ?thesis
      by (intro quiet [where
            u' = "case r of ReadBytes bs \<Rightarrow> UpSend bs | ReadEof \<Rightarrow> UpSendClose | ReadErr \<Rightarrow> UpRemove" and
            rd' = "case r of ReadBytes bs \<Rightarrow> vs_read v @ [bs] | _ \<Rightarrow> vs_read v"])
        (auto simp: up_read_def state_ops split: read_outcome.splits if_splits)
  next
    case (Send w p)
    with v have w: "vs_up v = UpSend p" "w = v" by simp_all
    show ?thesis
    proof (cases "session_send ?c (data_frame ?sid p) s")
      case (SendOk t)
      with Send w show ?thesis
        using wok sent_prefix_snoc by (intro send [OF SendOk, where u' = UpRead]) (auto simp: up_send_def)
    next
      case SendErr
      with Send w v wok show ?thesis
        by (intro quiet [where u' = UpRemove and rd' = "vs_read v"]) (auto simp: up_send_def state_ops)
    qed (use Send w in \<open>simp add: up_send_def\<close>)
  next
    case (SendClose w)
    with v have w: "vs_up v = UpSendClose" "w = v" by simp_all
    show ?thesis
    proof (cases "session_send ?c (eof_frame ?sid) s")
      case (SendOk t)
      with SendClose w show ?thesis
        using wok by (intro send [OF SendOk, where u' = UpRemove]) (auto simp: up_send_close_def)
    next
      case SendErr
      with SendClose w v wok show ?thesis
        by (intro quiet [where u' = UpRemove and rd' = "vs_read v"]) (auto simp: up_send_close_def state_ops)
    qed (use SendClose w in \<open>simp add: up_send_close_def\<close>)
  next
    case (Remove w)
    with v wok show ?thesis
      by (intro quiet [where u' = UpDone and rd' = "vs_read v"]) (auto simp: up_remove_def state_ops session_has_def)
  qed
qed

section \<open>Every reachable state\<close>

lemma inv_wire_step:
  assumes auth: "inv_auth cfg s" and inv: "inv_wire s" and ids: "inv_ids n s" and n: "n < 2 ^ 63"
    and st: "step cfg e s = Some s'"
  shows "inv_wire s'"
proof -
  have rep: "replies_ok s'" using replies_ok_step [OF inv_wireD(4) [OF inv] st] .
  note kept = inv_wire_kept [OF inv _ rep]
  show ?thesis
  proof (cases e)
    case (EvAcc a r)
    with st have "acc_step a r s = Some s'" by simp
    then show ?thesis using rep by (rule inv_wire_acc_step [OF auth inv ids n])
  next
    case (EvUp k r)
    with st have "up_step k r s = Some s'" by simp
    then show ?thesis using rep by (rule inv_wire_up_step [OF auth inv ids])
  next
    case (EvConn c inp)
    with st have "conn_step cfg c inp s = Some s'" by simp
    from kept [OF wire_kept_conn_step [OF auth inv_wireD(4) [OF inv] this]] show ?thesis .
  next
    case (EvHttpSend h)
    with st have "http_send h s = Some s'" by simp
    from kept [OF wire_kept_http_send [OF auth inv_wireD(4) [OF inv] this]] show ?thesis .
  qed (use st kept in \<open>auto intro: wire_kept_connect wire_kept_acc_cancel wire_kept_dn_step
        wire_kept_http_run wire_kept_out\<close>)
qed

lemma inv_wire_init: "inv_wire server_init"
  by (simp add: inv_wire_def replies_ok_def server_init_def out_frames_def up_view_def task_of_def pc_of_def)

lemma inv_wire_reach: "reach cfg n s \<Longrightarrow> n \<le> 2 ^ 63 \<Longrightarrow> inv_wire s"
proof (induction rule: reach.induct)
  case (reach_step n s e s')
  then have n: "n < 2 ^ 63" by simp
  with reach_step have "inv_wire s" "inv_ids n s" by (simp_all add: inv_ids_reach)
  then show ?case
    using inv_wire_step [OF inv_auth_reach [OF reach_step(1)] _ _ n reach_step(2)] by blast
qed (rule inv_wire_init)

lemma wire_ok_shape:
  assumes "wire_ok sid u rd fs"
  shows "fs = [] \<and> rd = [] \<or>
    (\<exists>t sent unsent close. rd = sent @ unsent \<and> length unsent \<le> 1 \<and>
       fs = open_frame sid t # map (data_frame sid) sent @ close \<and>
       (close = [] \<or> close = [eof_frame sid] \<and> unsent = []) \<and> (u = UpRead \<longrightarrow> unsent = []))"
proof (cases "fs = [] \<and> rd = []")
  case False
  with assms consider "sent_prefix sid rd fs"
    | ps p where "rd = ps @ [p]" "sent_prefix sid ps fs" "u \<noteq> UpRead"
    | gs where "fs = gs @ [eof_frame sid]" "sent_prefix sid rd gs"
    by (cases u) auto
  then show ?thesis
  proof cases
    case 1
    then obtain t where "fs = open_frame sid t # map (data_frame sid) rd" by (auto simp: sent_prefix_def)
    then show ?thesis
      by (intro disjI2 exI [of _ t] exI [of _ rd] exI [of _ "[]"]) simp
  next
    case (2 ps p)
    then obtain t where "fs = open_frame sid t # map (data_frame sid) ps" by (auto simp: sent_prefix_def)
    with 2 show ?thesis
      by (intro disjI2 exI [of _ t] exI [of _ ps] exI [of _ "[p]"] exI [of _ "[]"]) simp
  next
    case (3 gs)
    then obtain t where "gs = open_frame sid t # map (data_frame sid) rd" by (auto simp: sent_prefix_def)
    with 3 show ?thesis
      by (intro disjI2 exI [of _ t] exI [of _ rd] exI [of _ "[]"] exI [of _ "[eof_frame sid]"]) simp
  qed
qed simp

text \<open>
  C10. On the response stream, the frames of one virtual stream are nothing before it is opened, and
  from then on its \<open>Open\<close> frame followed by one \<open>Data\<close> frame per read of the TCP socket, in reading
  order, and possibly one \<open>Close\<close> at the very end, and only after everything that was read. While
  the pump is alive at most the last read is not yet sent; nothing is lost, repeated or reordered,
  and no other stream's bytes appear under this identifier.
\<close>
theorem stream_on_wire:
  assumes "reach cfg n s" and "n < 2 ^ 63" and "strms s k = Some v"
  shows "on_wire s (vs_sess v) (vs_sid v) = [] \<and> vs_read v = [] \<or>
    (\<exists>t sent unsent close. vs_read v = sent @ unsent \<and> length unsent \<le> 1 \<and>
       on_wire s (vs_sess v) (vs_sid v) =
         open_frame (vs_sid v) t # map (data_frame (vs_sid v)) sent @ close \<and>
       (close = [] \<or> close = [eof_frame (vs_sid v)] \<and> unsent = []) \<and>
       (vs_up v = UpRead \<longrightarrow> unsent = []))"
proof -
  have "up_view s k = Some (vs_sess v, vs_sid v, vs_up v, vs_read v)"
    using assms(3) by (simp add: up_view_def)
  then have "wire_ok (vs_sid v) (vs_up v) (vs_read v) (on_wire s (vs_sess v) (vs_sid v))"
    using inv_wireD(2) inv_wire_reach [OF assms(1)] assms(2) by simp
  then show ?thesis by (rule wire_ok_shape)
qed

theorem stream_on_wire_witness:
  "\<exists>n s v sent unsent. reach demo_cfg n s \<and> strms s 5 = Some v \<and> vs_read v = [[7, 8], [9]] \<and>
     [[7, 8], [9]] = sent @ unsent \<and> length unsent \<le> 1 \<and>
     (\<exists>t close. on_wire s (vs_sess v) (vs_sid v) =
         open_frame (vs_sid v) t # map (data_frame (vs_sid v)) sent @ close)"
proof -
  let ?es = "open_events @ [EvUp 5 (ReadBytes [7, 8]), EvUp 5 ReadEof, EvUp 5 (ReadBytes [9])]"
  have "map_option (\<lambda>s. map_option vs_read (strms s 5) = Some [[7, 8], [9]])
      (run demo_cfg ?es server_init) = Some True"
    by code_simp
  then obtain s v where s: "reach demo_cfg (length ?es) s" "strms s 5 = Some v" "vs_read v = [[7, 8], [9]]"
    by (rule run_obtains) auto
  have "length ?es < 2 ^ 63"
    by (simp add: open_events_def cluster_events_def join_events_def)
  from stream_on_wire [OF s(1) this s(2)] s(3)
  obtain t sent unsent close where "[[7, 8], [9]] = sent @ unsent" "length unsent \<le> 1"
    "on_wire s (vs_sess v) (vs_sid v) =
       open_frame (vs_sid v) t # map (data_frame (vs_sid v)) sent @ close"
    by auto
  with s show ?thesis by blast
qed

end
