(* ===== verification/Server_Replies.thy ===== *)
theory Server_Replies
  imports Server_Wire
begin

text \<open>
  The HTTP answers of the hub: every \<open>HttpResponse\<close> frame it puts on a response stream answers a
  request frame that came in on the same connection under the same identifier, and is what
  \<open>handle_http_request\<close> makes of that very request for the authenticated spoke (or the refusal of a
  spoke that may not use the proxy).
\<close>

definition is_response :: "server_frame \<Rightarrow> bool" where
  "is_response f \<longleftrightarrow> (case sf_kind f of Some (SHttpResponse _) \<Rightarrow> True | _ \<Rightarrow> False)"

lemma is_response_simps [simp]:
  "\<not> is_response (open_frame sid t)" "\<not> is_response (data_frame sid p)" "\<not> is_response (eof_frame sid)"
  "\<not> is_response (challenge_frame n i)" "is_response (http_response_frame sid r)"
  "sf_stream_id (http_response_frame sid r) = sid"
  by (simp_all add: is_response_def open_frame_def data_frame_def eof_frame_def challenge_frame_def
      http_response_frame_def)

definition request_frame :: "u64 \<Rightarrow> http_request \<Rightarrow> client_frame" where
  "request_frame sid req = \<lparr>cf_stream_id = sid, cf_kind = Some (CHttpRequest req)\<rparr>"

text \<open>
  The answer \<open>f\<close> to \<open>req\<close> under \<open>sid\<close> for the spoke \<open>sp\<close> with configuration \<open>sc\<close>: the refusal of a
  spoke that may not use the proxy, or the verdict of one of the kernels \<open>Ks\<close>, asked for exactly this
  request in the name of exactly this spoke.
\<close>

definition hub_answer ::
  "server_config \<Rightarrow> http_env set \<Rightarrow> string \<Rightarrow> spoke_config \<Rightarrow> u64 \<Rightarrow> http_request \<Rightarrow> server_frame \<Rightarrow> bool" where
  "hub_answer cfg Ks sp sc sid req f \<longleftrightarrow>
     (if sc_kind sc \<noteq> Application
      then f = http_response_frame sid
             \<lparr>rs_status = 403, rs_headers = [], rs_body = as_bytes ''application spoke required'',
              rs_error = ''rejected_kind''\<rparr>
      else \<exists>env \<in> Ks. \<exists>res r. verdict cfg env sp req res r \<and> f = http_response_frame sid r)"

definition asked :: "server_config \<Rightarrow> server \<Rightarrow> nat \<Rightarrow> string \<Rightarrow> spoke_config \<Rightarrow> u64 \<Rightarrow> http_request \<Rightarrow> bool" where
  "asked cfg s c sp sc sid req \<longleftrightarrow>
     owner cfg s c sp sc \<and> (\<exists>fs. rcvd_of s c = Some fs \<and> request_frame sid req \<in> set fs)"

definition answered :: "server_config \<Rightarrow> http_env set \<Rightarrow> server \<Rightarrow> nat \<Rightarrow> server_frame \<Rightarrow> bool" where
  "answered cfg Ks s c f \<longleftrightarrow>
     (\<exists>sp sc req. asked cfg s c sp sc (sf_stream_id f) req \<and> hub_answer cfg Ks sp sc (sf_stream_id f) req f)"

text \<open>The kernels a run of the hub talks to.\<close>

definition kernel_from :: "http_env set \<Rightarrow> event \<Rightarrow> bool" where
  "kernel_from Ks e \<longleftrightarrow> (case e of EvHttp h env \<Rightarrow> env \<in> Ks | _ \<Rightarrow> True)"

lemma owner_unique:
  assumes "owner cfg s c sp sc" "owner cfg s c sp' sc'"
  shows "sp' = sp \<and> sc' = sc"
proof -
  have sp: "sp' = sp" using assms by (simp add: owner_def)
  have "spokes cfg sp = Some sc" "spokes cfg sp' = Some sc'"
    using assms unfolding owner_def authenticated_def by blast+
  with sp show ?thesis by simp
qed

definition inv_replies :: "server_config \<Rightarrow> http_env set \<Rightarrow> server \<Rightarrow> bool" where
  "inv_replies cfg Ks s \<longleftrightarrow>
     (\<forall>c f. f \<in> set (out_frames s c) \<longrightarrow> is_response f \<longrightarrow> answered cfg Ks s c f) \<and>
     (\<forall>h t req. https s h = Some t \<longrightarrow> ht_pc t = HRun req \<longrightarrow> (\<exists>sp sc. asked cfg s (ht_sess t) sp sc (ht_sid t) req)) \<and>
     (\<forall>h t f. https s h = Some t \<longrightarrow> ht_pc t = HSend f \<longrightarrow> answered cfg Ks s (ht_sess t) f) \<and>
     (\<forall>c ctx f. pc_of s c = Some (CReject ctx f) \<longrightarrow> answered cfg Ks s c f)"

lemma inv_repliesD:
  assumes "inv_replies cfg Ks s"
  shows "f \<in> set (out_frames s c) \<Longrightarrow> is_response f \<Longrightarrow> answered cfg Ks s c f"
    "https s h = Some t \<Longrightarrow> ht_pc t = HRun req \<Longrightarrow> \<exists>sp sc. asked cfg s (ht_sess t) sp sc (ht_sid t) req"
    "https s h = Some t \<Longrightarrow> ht_pc t = HSend f \<Longrightarrow> answered cfg Ks s (ht_sess t) f"
    "pc_of s c = Some (CReject ctx f) \<Longrightarrow> answered cfg Ks s c f"
  using assms by (simp_all add: inv_replies_def)

section \<open>What a connection received only grows\<close>

lemma step_grows:
  assumes inv: "inv_auth cfg s" and st: "step cfg e s = Some s'"
    and d: "rcvd_of s d = Some fs" "ident_of s d = Some (sp, d)"
  shows "(\<exists>gs. rcvd_of s' d = Some (fs @ gs)) \<and> ident_of s' d = Some (sp, d)"
  using st
proof (cases rule: step_cases)
  case (Connect c n t)
  with d connect_views [OF Connect(2)] show ?thesis by auto
next
  case (Conn c inp)
  then obtain cn where cn: "conns s c = Some cn" by (auto simp: conn_step_def split: option.splits)
  show ?thesis
  proof (cases "cn_pc cn = CFirst")
    case True
    with Conn(2) cn obtain r where s': "s' = conn_first cfg c r s" by (auto elim!: conn_stepE)
    have "ident_of s c = None"
      using inv cn True by (auto simp: inv_auth_def conn_ok_def pc_of_def rcvd_of_def dest!: spec [of _ c])
    with d have "d \<noteq> c" by auto
    with d s' show ?thesis
      by (auto simp: conn_first_def conn_fail_def split: recv_result.splits sum.splits)
  next
    case False
    from conn_step_moves [OF Conn(2) cn False] d cn show ?thesis
      by (cases "d = c") (auto simp: conn_moves_def rcvd_of_def)
  qed
next
  case Quiet
  with d show ?thesis by (simp add: quiet_def)
qed

lemma asked_step:
  assumes "inv_auth cfg s" "step cfg e s = Some s'" "asked cfg s c sp sc sid req"
  shows "asked cfg s' c sp sc sid req"
proof -
  from assms(3) obtain fs where fs: "rcvd_of s c = Some fs" "ident_of s c = Some (sp, c)"
    "request_frame sid req \<in> set fs"
    by (auto simp: asked_def owner_def)
  from step_grows [OF assms(1,2) fs(1,2)] fs(3) owner_step [OF assms(1,2)] assms(3) show ?thesis
    by (auto simp: asked_def)
qed

lemma answered_step:
  assumes "inv_auth cfg s" "step cfg e s = Some s'" "answered cfg Ks s c f"
  shows "answered cfg Ks s' c f"
  using asked_step [OF assms(1,2)] assms(3) unfolding answered_def by blast

section \<open>What each step sends\<close>

text \<open>
  A new frame on a response stream is not a response, or it was in a task's hand: in the refusal a
  connection sends, or in a forwarding task.
\<close>

definition sends_ok :: "server_config \<Rightarrow> http_env set \<Rightarrow> server \<Rightarrow> server \<Rightarrow> bool" where
  "sends_ok cfg Ks s s' \<longleftrightarrow>
     (\<forall>c f. f \<in> set (out_frames s' c) \<longrightarrow> is_response f \<longrightarrow> f \<in> set (out_frames s c) \<or> answered cfg Ks s c f)"

lemma sends_ok_same: "outs s' = outs s \<Longrightarrow> sends_ok cfg Ks s s'"
  using out_frames_cong [of s' s] by (simp add: sends_ok_def)

lemma sends_ok_send:
  assumes "inv_auth cfg s" "session_send c f s = SendOk t" "is_response f \<longrightarrow> answered cfg Ks s c f"
    and "outs s' = outs t"
  shows "sends_ok cfg Ks s s'"
  using session_send_out(1) [OF assms(1,2)] assms(3) out_frames_cong [OF assms(4)]
  by (auto simp: sends_ok_def)

lemma sends_ok_conn:
  assumes inv: "inv_auth cfg s" and rep: "inv_replies cfg Ks s" and st: "conn_step cfg c inp s = Some s'"
  shows "sends_ok cfg Ks s s'"
  using st
proof (cases rule: conn_stepE)
  case (Reject cn ctx f)
  have f: "answered cfg Ks s c f" using inv_repliesD(4) [OF rep] Reject by (simp add: pc_of_def)
  show ?thesis
  proof (cases "session_send c f s")
    case (SendOk t)
    with Reject have "s' = set_conn_pc c (CRecv ctx) t" by (simp add: conn_reject_def)
    with f show ?thesis by (intro sends_ok_send [OF inv SendOk]) simp_all
  qed (use Reject in \<open>auto simp: conn_reject_def intro!: sends_ok_same\<close>)
qed (intro sends_ok_same; auto simp: conn_ops conn_first_def log_frame_def split: op_splits sum.splits)+

lemma sends_ok_connect: "connect c n t s = Some s' \<Longrightarrow> sends_ok cfg Ks s s'"
  using connect_SomeD(2,5) [of c n t s s']
  by (auto simp: sends_ok_def out_frames_def split: if_splits)

lemma sends_ok_task:
  assumes inv: "inv_auth cfg s"
  shows "acc_step a r s = Some s' \<Longrightarrow> sends_ok cfg Ks s s'" "up_step k x s = Some s' \<Longrightarrow> sends_ok cfg Ks s s'"
proof -
  have send: "sends_ok cfg Ks s s'"
    if "session_send c f s = SendOk t" "\<not> is_response f" "outs s' = outs t" for c f t
    using sends_ok_send [OF inv that(1)] that(2,3) by blast
  assume "acc_step a r s = Some s'"
  then show "sends_ok cfg Ks s s'"
  proof (cases rule: acc_stepE)
    case (Open ac sid k)
    show ?thesis
    proof (cases "session_send (ac_sess ac) (open_frame sid (ac_target ac)) s")
      case (SendOk t)
      with Open show ?thesis by (intro send [OF SendOk]) (auto simp: acc_open_def state_ops)
    qed (use Open in \<open>auto simp: acc_open_def state_ops intro!: sends_ok_same\<close>)
  qed (auto simp: acc_ops state_ops intro!: sends_ok_same split: op_splits)
next
  have send: "sends_ok cfg Ks s s'"
    if "session_send c f s = SendOk t" "\<not> is_response f" "outs s' = outs t" for c f t
    using sends_ok_send [OF inv that(1)] that(2,3) by blast
  assume "up_step k x s = Some s'"
  then show "sends_ok cfg Ks s s'"
  proof (cases rule: up_stepE)
    case (Send v p)
    show ?thesis
    proof (cases "session_send (vs_sess v) (data_frame (vs_sid v) p) s")
      case (SendOk t)
      with Send show ?thesis by (intro send [OF SendOk]) (auto simp: up_send_def state_ops)
    qed (use Send in \<open>auto simp: up_send_def state_ops intro!: sends_ok_same\<close>)
  next
    case (SendClose v)
    show ?thesis
    proof (cases "session_send (vs_sess v) (eof_frame (vs_sid v)) s")
      case (SendOk t)
      with SendClose show ?thesis by (intro send [OF SendOk]) (auto simp: up_send_close_def state_ops)
    qed (use SendClose in \<open>auto simp: up_send_close_def state_ops intro!: sends_ok_same\<close>)
  qed (auto simp: acc_ops state_ops intro!: sends_ok_same split: op_splits)
qed

lemma sends_ok_http:
  assumes inv: "inv_auth cfg s" and rep: "inv_replies cfg Ks s" and st: "http_send h s = Some s'"
  shows "sends_ok cfg Ks s s'"
proof -
  from st obtain t f where t: "https s h = Some t" "ht_pc t = HSend f"
    by (auto simp: http_send_def split: option.splits http_pc.splits)
  have f: "answered cfg Ks s (ht_sess t) f" by (rule inv_repliesD(3) [OF rep t])
  show ?thesis
  proof (cases "session_send (ht_sess t) f s")
    case (SendOk u)
    with st t have "s' = upd_http h (\<lambda>t. t\<lparr>ht_pc := HDone\<rparr>) u" by (simp add: http_send_def)
    with f show ?thesis by (intro sends_ok_send [OF inv SendOk]) simp_all
  qed (use st t in \<open>auto simp: http_send_def intro!: sends_ok_same\<close>)
qed

lemma sends_ok_out: "out_take c s = Some s' \<Longrightarrow> sends_ok cfg Ks s s'" "out_drop c s = Some s' \<Longrightarrow> sends_ok cfg Ks s s'"
  by (auto simp: sends_ok_def out_take_def out_drop_def out_frames_def chan_drop_rx_def
      dest!: chan_recv_SomeD split: option.splits prod.splits if_splits)

lemma sends_ok_quiet:
  "acc_cancel a s = Some s' \<Longrightarrow> sends_ok cfg Ks s s'" "dn_step k x s = Some s' \<Longrightarrow> sends_ok cfg Ks s s'"
  "http_run cfg env h s = Some s' \<Longrightarrow> sends_ok cfg Ks s s'"
  by (auto simp: acc_cancel_def acc_finish_def http_run_def state_ops acc_ops intro!: sends_ok_same elim!: dn_stepE
      split: option.splits acc_pc.splits http_pc.splits prod.splits op_splits)

lemma sends_ok_step:
  assumes "inv_auth cfg s" "inv_replies cfg Ks s" "step cfg e s = Some s'"
  shows "sends_ok cfg Ks s s'"
  using assms sends_ok_conn sends_ok_connect sends_ok_task sends_ok_http sends_ok_out sends_ok_quiet
  by (cases e) simp_all

section \<open>The tasks\<close>

definition from_request :: "recv_result \<Rightarrow> u64 \<Rightarrow> http_request \<Rightarrow> bool" where
  "from_request r sid req \<longleftrightarrow> r = Frame (request_frame sid req)"

lemma from_requestI: "cf_kind f = Some (CHttpRequest req) \<Longrightarrow> from_request (Frame f) (cf_stream_id f) req"
  by (simp add: from_request_def request_frame_def)

lemma conn_recv_http:
  assumes "conn_recv c ctx r h s = Some s'" and "pc_of s c = Some (CRecv ctx)"
  shows "https s' = https s \<or>
      (\<exists>sid req. from_request r sid req \<and>
         https s' = (https s)(h \<mapsto> \<lparr>ht_sess = c, ht_sid = sid, ht_pc = HRun req\<rparr>))" (is ?tasks)
    "pc_of s' c = Some (CReject ctx' g) \<Longrightarrow>
       sc_kind (cx_sc ctx) \<noteq> Application \<and> (\<exists>sid req. from_request r sid req \<and> g = reject_kind_frame sid)"
    "r = Frame f \<Longrightarrow> rcvd_of s' c = map_option (\<lambda>fs. fs @ [f]) (rcvd_of s c)"
proof -
  show "r = Frame f \<Longrightarrow> rcvd_of s' c = map_option (\<lambda>fs. fs @ [f]) (rcvd_of s c)"
    using assms(1) by (auto simp: conn_ops split: op_splits)
  consider (Http) f req where "r = Frame f" "cf_kind f = Some (CHttpRequest req)"
    | (Other) "https s' = https s" "pc_of s' c \<noteq> Some (CReject ctx' g)"
    using assms by (cases r) (auto simp: conn_ops state_ops pc_of_def log_frame_def split: op_splits)
  note cases = this
  show ?tasks
    using cases
  proof cases
    case Http
    with assms(1) have "https s' = https s \<or>
        https s' = (https s)(h \<mapsto> \<lparr>ht_sess = c, ht_sid = cf_stream_id f, ht_pc = HRun req\<rparr>)"
      by (auto simp: conn_ops state_ops split: if_splits)
    with from_requestI [OF Http(2)] Http(1) show ?thesis by blast
  qed simp
  show "sc_kind (cx_sc ctx) \<noteq> Application \<and> (\<exists>sid req. from_request r sid req \<and> g = reject_kind_frame sid)" if "pc_of s' c = Some (CReject ctx' g)"
    using cases
  proof cases
    case Http
    with that assms from_requestI [OF Http(2)] show ?thesis by (auto simp: conn_ops split: if_splits)
  qed (use that in simp)
qed

lemma from_request_asked:
  assumes inv: "inv_auth cfg s" and cn: "conns s c = Some cn" "cn_pc cn = CRecv ctx"
    and st: "step cfg (EvConn c inp) s = Some s'" and re: "conn_recv c ctx r h s = Some s'"
    and r: "from_request r sid req"
  shows "asked cfg s' c (cx_id ctx) (cx_sc ctx) sid req"
proof -
  have ow: "owner cfg s' c (cx_id ctx) (cx_sc ctx)"
    using owner_step [OF inv st owner_of_ctx [OF inv cn(1)]] cn(2) by simp
  have id: "ident_of s c = Some (cx_id ctx, c)" "rcvd_of s c = Some (cn_rcvd cn)"
    using inv_auth_connD [OF inv cn(1)] cn(2) by simp_all
  have "pc_of s c = Some (CRecv ctx)" using cn by (simp add: pc_of_def)
  from step_grows [OF inv st id(2,1)] conn_recv_http(3) [OF re this] r id(2) ow show ?thesis
    by (auto simp: asked_def from_request_def)
qed

lemma tasks_conn_step:
  assumes inv: "inv_auth cfg s" and rep: "inv_replies cfg Ks s" and st: "conn_step cfg c inp s = Some s'"
  shows "(\<forall>h t. https s' h = Some t \<longrightarrow> https s h = Some t \<or>
        (\<exists>req sp sc. ht_pc t = HRun req \<and> asked cfg s' (ht_sess t) sp sc (ht_sid t) req)) \<and>
    (\<forall>ctx f. pc_of s' c = Some (CReject ctx f) \<longrightarrow> pc_of s c = Some (CReject ctx f) \<or> answered cfg Ks s' c f)"
  using st
proof (cases rule: conn_stepE)
  case (Recv cn ctx r h)
  have st': "step cfg (EvConn c inp) s = Some s'" using st by simp
  note asked = from_request_asked [OF inv Recv(1,2) st' Recv(3)]
  have pc: "pc_of s c = Some (CRecv ctx)" using Recv by (simp add: pc_of_def)
  show ?thesis
  proof (intro conjI allI impI)
    fix i t assume "https s' i = Some t"
    with conn_recv_http(1) [OF Recv(3) pc] consider "https s i = Some t"
      | sid req where "from_request r sid req" "t = \<lparr>ht_sess = c, ht_sid = sid, ht_pc = HRun req\<rparr>"
      by (auto split: if_splits)
    then show "https s i = Some t \<or>
        (\<exists>req sp sc. ht_pc t = HRun req \<and> asked cfg s' (ht_sess t) sp sc (ht_sid t) req)"
    proof cases
      case (2 sid req)
      from asked [OF 2(1)] 2(2) show ?thesis by auto
    qed simp
  next
    fix ctx' f assume f: "pc_of s' c = Some (CReject ctx' f)"
    from conn_recv_http(2) [OF Recv(3) pc f] obtain sid req
      where r: "from_request r sid req" "f = reject_kind_frame sid" "sc_kind (cx_sc ctx) \<noteq> Application" by blast
    from asked [OF r(1)] r(2,3) show "pc_of s c = Some (CReject ctx' f) \<or> answered cfg Ks s' c f"
      by (auto simp: answered_def hub_answer_def reject_kind_frame_def)
  qed
qed (auto simp: conn_ops conn_first_def log_frame_def state_ops pc_of_def dest!: session_send_frame
      split: op_splits sum.splits)

lemma answered_run:
  assumes auth: "inv_auth cfg s" and tasks: "inv_tasks cfg s" and rep: "inv_replies cfg Ks s"
    and u: "https s i = Some u" "ht_pc u = HRun req" and env: "env \<in> Ks"
    and f: "handle_http_request cfg env (ht_sid u) req (spoke_of (ht_sess u) s) (mets s) = (f, m)"
  shows "answered cfg Ks s (ht_sess u) f"
proof -
  from inv_repliesD(2) [OF rep u] obtain sp sc where sp: "asked cfg s (ht_sess u) sp sc (ht_sid u) req" by blast
  then have "spoke_of (ht_sess u) s = sp"
    by (auto simp: asked_def owner_def ident_of_def spoke_of_def split: option.splits)
  with f obtain r res where r: "f = http_response_frame (ht_sid u) r" "verdict cfg env sp req res r"
    by (metis handle_http_verdict prod.inject)
  have "forward_ok cfg s u" using tasks u(1) by (simp add: inv_tasks_def)
  then have "sc_kind sc = Application"
    using owner_unique sp unfolding forward_ok_def asked_def by metis
  with r env have "hub_answer cfg Ks sp sc (ht_sid u) req f" by (auto simp: hub_answer_def)
  moreover have "sf_stream_id f = ht_sid u" using r(1) by (simp add: http_response_frame_def)
  ultimately show ?thesis using sp unfolding answered_def by metis
qed

lemma tasks_other_step:
  assumes inv: "inv_auth cfg s" and tasks: "inv_tasks cfg s" and rep: "inv_replies cfg Ks s"
    and st: "step cfg e s = Some s'" and e: "\<And>c inp. e \<noteq> EvConn c inp" and Ks: "kernel_from Ks e"
  shows "https s' h = Some t \<Longrightarrow> https s h = Some t \<or> ht_pc t = HDone \<or>
      (\<exists>f. ht_pc t = HSend f \<and> answered cfg Ks s (ht_sess t) f)"
proof -
  assume h: "https s' h = Some t"
  show ?thesis
  proof (cases "\<exists>i env. e = EvHttp i env")
    case True
    then obtain i env where ev: "e = EvHttp i env" by blast
    with st have "http_run cfg env i s = Some s'" by simp
    then obtain u req f m where u: "https s i = Some u" "ht_pc u = HRun req"
      "handle_http_request cfg env (ht_sid u) req (spoke_of (ht_sess u) s) (mets s) = (f, m)"
      "s' = upd_http i (\<lambda>t. t\<lparr>ht_pc := HSend f\<rparr>) (s\<lparr>mets := m\<rparr>)"
      by (auto simp: http_run_def split: option.splits http_pc.splits prod.splits)
    have "answered cfg Ks s (ht_sess u) f"
      by (rule answered_run [OF inv tasks rep u(1,2) _ u(3)]) (use Ks ev in \<open>simp add: kernel_from_def\<close>)
    with h u show ?thesis by (auto simp: upd_http_def split: if_splits)
  next
    case False
    with h st e show ?thesis
      by (cases e)
        (auto simp: http_send_def acc_ops state_ops out_take_def out_drop_def connect_def
          dest!: session_send_frame elim!: acc_stepE up_stepE dn_stepE
          split: option.splits http_pc.splits sent.splits acc_pc.splits prod.splits if_splits op_splits)
  qed
qed

lemma inv_replies_step:
  assumes inv: "inv_auth cfg s" and tasks: "inv_tasks cfg s" and rep: "inv_replies cfg Ks s"
    and st: "step cfg e s = Some s'" and Ks: "kernel_from Ks e"
  shows "inv_replies cfg Ks s'"
proof -
  note keep = answered_step [OF inv st] and ask = asked_step [OF inv st]
  have out: "f \<in> set (out_frames s' c) \<Longrightarrow> is_response f \<Longrightarrow> answered cfg Ks s' c f" for c f
    using sends_ok_step [OF inv rep st] inv_repliesD(1) [OF rep] keep unfolding sends_ok_def by blast
  show ?thesis
  proof (cases "\<exists>c inp. e = EvConn c inp")
    case True
    then obtain c inp where e: "e = EvConn c inp" by blast
    with st have cs: "conn_step cfg c inp s = Some s'" by simp
    note new = tasks_conn_step [OF inv rep cs]
    have other: "d \<noteq> c \<Longrightarrow> pc_of s' d = pc_of s d" for d by (rule conn_step_other_pc [OF cs])
    show ?thesis
      unfolding inv_replies_def
    proof (intro conjI allI impI)
      fix h t req assume "https s' h = Some t" "ht_pc t = HRun req"
      with new inv_repliesD(2) [OF rep] ask show "\<exists>sp sc. asked cfg s' (ht_sess t) sp sc (ht_sid t) req" by fastforce
    next
      fix h t f assume "https s' h = Some t" "ht_pc t = HSend f"
      with new inv_repliesD(3) [OF rep] keep show "answered cfg Ks s' (ht_sess t) f" by fastforce
    next
      fix d ctx f assume "pc_of s' d = Some (CReject ctx f)"
      with new other [of d] inv_repliesD(4) [OF rep] keep show "answered cfg Ks s' d f" by (cases "d = c") fastforce+
    qed (rule out)
  next
    case False
    then have e: "\<And>c inp. e \<noteq> EvConn c inp" by blast
    note new = tasks_other_step [OF inv tasks rep st e Ks]
    have pc: "pc_of s' d = Some (CReject ctx f) \<Longrightarrow> pc_of s d = Some (CReject ctx f)" for d ctx f
      using st
    proof (cases rule: step_cases)
      case (Connect c n t)
      assume "pc_of s' d = Some (CReject ctx f)"
      with connect_views(1) [OF Connect(2), of d] show ?thesis by (auto split: if_splits)
    next
      case Quiet
      assume "pc_of s' d = Some (CReject ctx f)"
      with Quiet(1) show ?thesis by (simp add: quiet_def)
    qed (use e in blast)
    show ?thesis
      unfolding inv_replies_def
    proof (intro conjI allI impI)
      fix h t req assume "https s' h = Some t" "ht_pc t = HRun req"
      with new inv_repliesD(2) [OF rep] ask show "\<exists>sp sc. asked cfg s' (ht_sess t) sp sc (ht_sid t) req" by fastforce
    next
      fix h t f assume "https s' h = Some t" "ht_pc t = HSend f"
      with new inv_repliesD(3) [OF rep] keep show "answered cfg Ks s' (ht_sess t) f" by fastforce
    next
      fix d ctx f assume "pc_of s' d = Some (CReject ctx f)"
      with pc inv_repliesD(4) [OF rep] keep show "answered cfg Ks s' d f" by blast
    qed (rule out)
  qed
qed

lemma inv_replies_run:
  "run cfg es server_init = Some s \<Longrightarrow> \<forall>e \<in> set es. kernel_from Ks e \<Longrightarrow> inv_replies cfg Ks s"
proof (induction es arbitrary: s rule: rev_induct)
  case Nil
  then have "s = server_init" by simp
  then show ?case by (simp add: inv_replies_def server_init_def out_frames_def pc_of_def)
next
  case (snoc e es)
  from snoc.prems(1) obtain t where t: "run cfg es server_init = Some t" "step cfg e t = Some s"
    by (rule hub.run_snocD)
  from hub.run_reaches [OF t(1) reach_init] have re: "reach cfg (length es) t" by simp
  have "kernel_from Ks e" "inv_replies cfg Ks t" using snoc.IH [OF t(1)] snoc.prems(2) by auto
  with inv_replies_step [OF inv_auth_reach [OF re] inv_tasks_reach [OF re]] t(2) show ?case by blast
qed

end
