(* ===== verification/Client_Requests.thy ===== *)
theory Client_Requests
  imports Client_Streams
begin

text \<open>
  The way out of a proxied request: every \<open>HttpRequest\<close> frame on the wire is the request of the handler
  that owns its identifier, and a handler's request and identifier never change once they are set;
  every handshake on the wire carries the configured spoke id and token.
\<close>

section \<open>The invariant\<close>

definition hd_view :: "client \<Rightarrow> nat \<Rightarrow> (http_request option \<times> u64 option) option" where
  "hd_view t h = map_option (\<lambda>x. (hd_req x, hd_sid x)) (cl_handlers t h)"

definition asks :: "client \<Rightarrow> u64 \<Rightarrow> http_request \<Rightarrow> bool" where
  "asks t sid req \<longleftrightarrow> (\<exists>h. hd_view t h = Some (Some req, Some sid))"

fun pc_request :: "handler_pc \<Rightarrow> http_request option" where
  "pc_request (HHub req) = Some req"
| "pc_request (HRegister _ _ req) = Some req"
| "pc_request (HSendReq _ _ req) = Some req"
| "pc_request _ = None"

definition frames_ok :: "client_config \<Rightarrow> client \<Rightarrow> client_frame list \<Rightarrow> bool" where
  "frames_ok cfg t fs \<longleftrightarrow>
     (\<forall>f req. f \<in> set fs \<longrightarrow> cf_kind f = Some (CHttpRequest req) \<longrightarrow> asks t (cf_stream_id f) req) \<and>
     (\<forall>f hs. f \<in> set fs \<longrightarrow> cf_kind f = Some (Handshake hs) \<longrightarrow>
        f = client_handshake (cc_spoke_id cfg) (cc_token cfg))"

definition numbered_ok :: "handler \<Rightarrow> bool" where
  "numbered_ok x \<longleftrightarrow>
     (\<forall>req. pc_request (hd_pc x) = Some req \<longrightarrow> hd_req x = Some req) \<and>
     (\<forall>sid. pc_sid (hd_pc x) = Some sid \<longrightarrow> hd_sid x = Some sid) \<and>
     (unnumbered (hd_pc x) \<longrightarrow> hd_sid x = None)"

definition inv_requests :: "client_config \<Rightarrow> client \<Rightarrow> bool" where
  "inv_requests cfg t \<longleftrightarrow>
     (\<forall>c se. cl_sess t c = Some se \<longrightarrow> frames_ok cfg t (outbound se)) \<and>
     (\<forall>c se f. cl_sess t c = Some se \<longrightarrow> se_pc se = SSend f \<longrightarrow> frames_ok cfg t [f]) \<and>
     (\<forall>h x. cl_handlers t h = Some x \<longrightarrow> numbered_ok x)"

lemma inv_requestsD:
  assumes "inv_requests cfg t"
  shows "cl_sess t c = Some se \<Longrightarrow> frames_ok cfg t (outbound se)"
    "cl_sess t c = Some se \<Longrightarrow> se_pc se = SSend f \<Longrightarrow> frames_ok cfg t [f]"
    "cl_handlers t h = Some x \<Longrightarrow> numbered_ok x"
  using assms unfolding inv_requests_def by (elim conjE; blast)+

lemma frames_ok_append [simp]: "frames_ok cfg t (fs @ gs) \<longleftrightarrow> frames_ok cfg t fs \<and> frames_ok cfg t gs"
  by (auto simp: frames_ok_def)

lemma frames_ok_simps [simp]:
  "frames_ok cfg t []" "frames_ok cfg t [client_handshake (cc_spoke_id cfg) (cc_token cfg)]" "frames_ok cfg t [client_pong n]"
  "frames_ok cfg t [client_close sid half r]" "frames_ok cfg t [client_data sid p]"
  "frames_ok cfg t [client_http_request sid req] \<longleftrightarrow> asks t sid req"
  by (simp_all add: frames_ok_def client_handshake_def client_pong_def client_close_def client_data_def
      client_http_request_def)

text \<open>What a step may do: the views of old handlers stay, the new frames are in order.\<close>

definition views_kept :: "client \<Rightarrow> client \<Rightarrow> bool" where
  "views_kept t t' \<longleftrightarrow> (\<forall>sid req. asks t sid req \<longrightarrow> asks t' sid req)"

definition frames_kept :: "client_config \<Rightarrow> client \<Rightarrow> client \<Rightarrow> bool" where
  "frames_kept cfg t t' \<longleftrightarrow>
     (\<forall>c se'. cl_sess t' c = Some se' \<longrightarrow>
        (\<exists>fs. frames_ok cfg t' fs \<and>
           (outbound se' = fs \<or> (\<exists>se. cl_sess t c = Some se \<and> outbound se' = outbound se @ fs))) \<and>
        (\<forall>f. se_pc se' = SSend f \<longrightarrow>
           frames_ok cfg t' [f] \<or> (\<exists>se. cl_sess t c = Some se \<and> se_pc se = SSend f)))"

lemma frames_ok_mono: "views_kept t t' \<Longrightarrow> frames_ok cfg t fs \<Longrightarrow> frames_ok cfg t' fs"
  unfolding views_kept_def frames_ok_def by blast

lemma inv_requestsI:
  assumes inv: "inv_requests cfg t" and v: "views_kept t t'" and f: "frames_kept cfg t t'"
    and h: "\<And>h x. cl_handlers t' h = Some x \<Longrightarrow> numbered_ok x"
  shows "inv_requests cfg t'"
  unfolding inv_requests_def
proof (intro conjI allI impI)
  fix c se assume "cl_sess t' c = Some se"
  with f obtain fs where "frames_ok cfg t' fs"
    "outbound se = fs \<or> (\<exists>sf. cl_sess t c = Some sf \<and> outbound se = outbound sf @ fs)"
    unfolding frames_kept_def by blast
  then show "frames_ok cfg t' (outbound se)"
    using inv_requestsD(1) [OF inv] frames_ok_mono [OF v] by auto
next
  fix c se g assume "cl_sess t' c = Some se" "se_pc se = SSend g"
  with f have "frames_ok cfg t' [g] \<or> (\<exists>sf. cl_sess t c = Some sf \<and> se_pc sf = SSend g)"
    unfolding frames_kept_def by blast
  then show "frames_ok cfg t' [g]" using inv_requestsD(2) [OF inv] frames_ok_mono [OF v] by blast
qed (rule h)

lemma frames_kept_same: "cl_sess t' = cl_sess t \<Longrightarrow> frames_kept cfg t t'"
  unfolding frames_kept_def by (metis append_Nil2 frames_ok_simps(1))

lemma frames_kept_upd:
  assumes "cl_sess t c = Some se" "cl_sess t' = (cl_sess t)(c \<mapsto> se')" "outbound se' = outbound se @ fs"
    and "frames_ok cfg t' fs" "\<And>f. se_pc se' = SSend f \<Longrightarrow> frames_ok cfg t' [f] \<or> se_pc se = SSend f"
  shows "frames_kept cfg t t'"
  unfolding frames_kept_def
proof (intro allI impI conjI)
  fix d sf assume sf: "cl_sess t' d = Some sf"
  show "\<exists>fs. frames_ok cfg t' fs \<and>
      (outbound sf = fs \<or> (\<exists>se. cl_sess t d = Some se \<and> outbound sf = outbound se @ fs))"
  proof (cases "d = c")
    case True
    with sf assms show ?thesis by (intro exI [of _ fs]) auto
  next
    case False
    with sf assms(2) show ?thesis by (intro exI [of _ "[]"]) auto
  qed
  fix f assume "se_pc sf = SSend f"
  with sf assms(1,2,5) show "frames_ok cfg t' [f] \<or> (\<exists>se. cl_sess t d = Some se \<and> se_pc se = SSend f)"
    by (cases "d = c") auto
qed

lemma views_kept_same: "cl_handlers t' = cl_handlers t \<Longrightarrow> views_kept t t'"
  by (simp add: views_kept_def asks_def hd_view_def)

lemma views_kept_upd:
  assumes "cl_handlers t h = Some x" "cl_handlers t' = (cl_handlers t)(h \<mapsto> y)"
    and "\<And>sid req. hd_req x = Some req \<Longrightarrow> hd_sid x = Some sid \<Longrightarrow> hd_req y = Some req \<and> hd_sid y = Some sid"
  shows "views_kept t t'"
  unfolding views_kept_def asks_def
proof (intro allI impI, elim exE)
  fix sid req g assume "hd_view t g = Some (Some req, Some sid)"
  with assms have "hd_view t' g = Some (Some req, Some sid)" by (cases "g = h") (auto simp: hd_view_def)
  then show "\<exists>h. hd_view t' h = Some (Some req, Some sid)" by blast
qed

section \<open>The handlers\<close>

lemma numbered_ok_move:
  assumes "numbered_ok x"
    and "pc_request pc = None \<or> pc_request pc = pc_request (hd_pc x)"
    and "pc_sid pc = None \<or> pc_sid pc = pc_sid (hd_pc x)" and "unnumbered pc \<Longrightarrow> unnumbered (hd_pc x)"
  shows "numbered_ok (x\<lparr>hd_pc := pc\<rparr>)"
proof -
  have "\<forall>req. pc_request pc = Some req \<longrightarrow> hd_req x = Some req" "\<forall>sid. pc_sid pc = Some sid \<longrightarrow> hd_sid x = Some sid"
    "unnumbered pc \<longrightarrow> hd_sid x = None"
    using assms unfolding numbered_ok_def by (metis option.distinct(1))+
  then show ?thesis by (simp add: numbered_ok_def)
qed

text \<open>A handler that moves on without touching a session.\<close>

lemma inv_requests_handler:
  assumes inv: "inv_requests cfg t" and x: "cl_handlers t h = Some x"
    and t': "cl_handlers t' = (cl_handlers t)(h \<mapsto> y)" and f: "frames_kept cfg t t'"
    and y: "numbered_ok y"
    and keep: "\<And>sid. hd_sid x = Some sid \<Longrightarrow> hd_req y = hd_req x \<and> hd_sid y = Some sid"
  shows "inv_requests cfg t'"
proof (rule inv_requestsI [OF inv _ f])
  show "views_kept t t'" by (rule views_kept_upd [OF x t']) (use keep in auto)
  fix g z assume "cl_handlers t' g = Some z"
  then show "numbered_ok z" using inv_requestsD(3) [OF inv] y t' by (auto split: if_splits)
qed

lemma handler_upd:
  "cl_handlers t h = Some x \<Longrightarrow> cl_handlers (upd_handler h f t) = (cl_handlers t)(h \<mapsto> f x)"
  by (simp add: upd_handler_def)

lemma inv_requests_hd_step:
  assumes inv: "inv_requests cfg t" and st: "hd_step lib h inp t = Some t'"
  shows "inv_requests cfg t'"
proof -
  from st obtain x where x: "cl_handlers t h = Some x" by (auto simp: hd_step_def split: option.splits)
  note ok = inv_requestsD(3) [OF inv x, unfolded numbered_ok_def]
  have go: "inv_requests cfg (set_handler_pc h pc u)"
    if "pc_request pc = None \<or> pc_request pc = pc_request (hd_pc x)"
      "pc_sid pc = None \<or> pc_sid pc = pc_sid (hd_pc x)" "unnumbered pc \<Longrightarrow> unnumbered (hd_pc x)"
      "cl_handlers u = cl_handlers t" "cl_sess u = cl_sess t" for pc u
    by (rule inv_requests_handler [OF inv x, where y = "x\<lparr>hd_pc := pc\<rparr>"])
      (use that numbered_ok_move [OF inv_requestsD(3) [OF inv x] that(1-3)] x in
        \<open>auto simp: set_handler_pc_def upd_handler_def intro: frames_kept_same\<close>)
  show ?thesis
  proof (cases "hd_pc x")
    case (HBody req)
    have built: "inv_requests cfg (upd_handler h (\<lambda>x. x\<lparr>hd_pc := HHub rq, hd_req := Some rq\<rparr>) t)" for rq
      by (rule inv_requests_handler [OF inv x, where y = "x\<lparr>hd_pc := HHub rq, hd_req := Some rq\<rparr>"])
        (use HBody ok x in \<open>auto simp: handler_upd numbered_ok_def intro: frames_kept_same\<close>)
    from HBody st x built show ?thesis
      by (auto simp: hd_step_def hd_body_def Let_def intro!: go
          split: handler_input.splits body_outcome.splits if_splits)
  next
    case (HHub req)
    with st x have t': "t' = hd_hub h req t" by (auto simp: hd_step_def split: handler_input.splits)
    show ?thesis
    proof (cases "cl_hub t")
      case None
      with t' show ?thesis by (auto simp: hd_hub_def intro!: go)
    next
      case (Some c)
      let ?y = "x\<lparr>hd_pc := HRegister c (cl_counter t) req, hd_sid := Some (cl_counter t)\<rparr>"
      show ?thesis
        by (rule inv_requests_handler [OF inv x, where y = ?y])
          (use t' Some HHub ok x in \<open>auto simp: hd_hub_def next_stream_id_def upd_handler_def numbered_ok_def
             intro: frames_kept_same\<close>)
    qed
  next
    case (HRegister c sid req)
    with st x show ?thesis
      by (auto simp: hd_step_def hd_register_def intro!: go split: handler_input.splits)
  next
    case (HSendReq c sid req)
    show ?thesis
    proof (cases "hub_send c (client_http_request sid req) t")
      case (SendOk u)
      with st x HSendReq have t': "t' = set_handler_pc h (HWait sid) u"
        by (auto simp: hd_step_def hd_send_def split: handler_input.splits)
      from SendOk obtain se ch where u: "cl_sess t c = Some se"
        "ch_queue ch = ch_queue (se_chan se) @ [client_http_request sid req]"
        "u = upd_session c (\<lambda>se. se\<lparr>se_chan := ch\<rparr>) t" "cl_sess u = (cl_sess t)(c \<mapsto> se\<lparr>se_chan := ch\<rparr>)"
        by (rule hub_send_OkE)
      have hs: "cl_handlers t' = (cl_handlers t)(h \<mapsto> x\<lparr>hd_pc := HWait sid\<rparr>)"
        using x by (simp add: t' u(3) set_handler_pc_def upd_handler_def)
      have se: "cl_sess t' = (cl_sess t)(c \<mapsto> se\<lparr>se_chan := ch\<rparr>)" by (simp add: t' u(4) set_handler_pc_def)
      have "asks t' sid req"
        using ok HSendReq by (auto simp: asks_def hd_view_def hs intro!: exI [of _ h])
      then have "frames_kept cfg t t'"
        by (intro frames_kept_upd [OF u(1) se, where fs = "[client_http_request sid req]"])
          (use u(2) in \<open>auto simp: outbound_def\<close>)
      then show ?thesis
        by (rule inv_requests_handler [OF inv x hs]) (use ok HSendReq in \<open>auto simp: numbered_ok_def\<close>)
    qed (use st x HSendReq in \<open>auto simp: hd_step_def hd_send_def intro!: go split: handler_input.splits\<close>)
  next
    case (HUnsend sid)
    with st x show ?thesis
      by (auto simp: hd_step_def hd_unsend_def pending_remove_def intro!: go split: handler_input.splits)
  next
    case (HWait sid)
    with st x show ?thesis
      by (auto simp: hd_step_def hd_wait_def intro!: go
          split: handler_input.splits option.splits if_splits wait_outcome.splits)
  next
    case (HTimeout sid)
    with st x show ?thesis
      by (auto simp: hd_step_def hd_timeout_def pending_remove_def intro!: go split: handler_input.splits)
  qed (use st x in \<open>auto simp: hd_step_def split: handler_input.splits\<close>)
qed

lemma inv_requests_open:
  assumes inv: "inv_requests cfg t" and st: "hd_open h req t = Some t'"
  shows "inv_requests cfg t'"
proof (rule inv_requestsI [OF inv])
  from st have t': "cl_handlers t h = None" "cl_sess t' = cl_sess t"
    "cl_handlers t' = (cl_handlers t)(h \<mapsto> \<lparr>hd_pc = HBody req, hd_req = None, hd_sid = None, hd_slot = None\<rparr>)"
    by (auto simp: hd_open_def split: if_splits)
  show "views_kept t t'"
    unfolding views_kept_def asks_def
  proof (intro allI impI, elim exE)
    fix sid rq g assume "hd_view t g = Some (Some rq, Some sid)"
    with t' have "hd_view t' g = Some (Some rq, Some sid)" by (cases "g = h") (auto simp: hd_view_def)
    then show "\<exists>h. hd_view t' h = Some (Some rq, Some sid)" by blast
  qed
  show "frames_kept cfg t t'" by (rule frames_kept_same [OF t'(2)])
  fix g x assume "cl_handlers t' g = Some x"
  with inv_requestsD(3) [OF inv] t'(3) show "numbered_ok x" by (auto simp: numbered_ok_def split: if_splits)
qed

section \<open>The sessions and the pumps\<close>

text \<open>Steps that leave requests and identifiers of the handlers alone.\<close>

lemma inv_requests_frames:
  assumes inv: "inv_requests cfg t" and f: "frames_kept cfg t t'"
    and h: "\<And>h. map_option (\<lambda>x. (hd_pc x, hd_req x, hd_sid x)) (cl_handlers t' h) =
        map_option (\<lambda>x. (hd_pc x, hd_req x, hd_sid x)) (cl_handlers t h)"
  shows "inv_requests cfg t'"
proof (rule inv_requestsI [OF inv _ f])
  have "hd_view t' g = hd_view t g" for g
    using h [of g] by (cases "cl_handlers t g"; cases "cl_handlers t' g") (auto simp: hd_view_def)
  then show "views_kept t t'" by (simp add: views_kept_def asks_def)
  fix g x assume "cl_handlers t' g = Some x"
  with h [of g] obtain y where "cl_handlers t g = Some y" "hd_pc x = hd_pc y" "hd_req x = hd_req y"
    "hd_sid x = hd_sid y"
    by (cases "cl_handlers t g") auto
  with inv_requestsD(3) [OF inv] show "numbered_ok x" by (auto simp: numbered_ok_def)
qed

lemma frames_kept_session:
  assumes "cl_sess t c = Some se" "cl_sess t' = (cl_sess t)(c \<mapsto> se')" "outbound se' = outbound se"
    and "\<And>f. se_pc se' = SSend f \<Longrightarrow> frames_ok cfg t' [f] \<or> se_pc se = SSend f"
  shows "frames_kept cfg t t'"
  by (rule frames_kept_upd [OF assms(1,2), where fs = "[]"]) (use assms(3,4) in simp_all)

lemma frames_kept_sent:
  assumes "hub_send c f t = SendOk u" "cl_sess t c = Some se" "frames_ok cfg t' [f]"
    and "cl_sess t' = (cl_sess u)(c := map_option g (cl_sess u c))"
    and "\<And>se. outbound (g se) = outbound se" "\<And>se f. se_pc (g se) = SSend f \<Longrightarrow> se_pc se = SSend f"
  shows "frames_kept cfg t t'"
  using assms(1)
proof (cases rule: hub_send_OkE)
  case (1 sf ch)
  with assms(2) have sf: "sf = se" by simp
  have "outbound (se\<lparr>se_chan := ch\<rparr>) = outbound se @ [f]" using 1(2) by (simp add: sf outbound_def)
  then have out: "outbound (g (se\<lparr>se_chan := ch\<rparr>)) = outbound se @ [f]" by (simp only: assms(5))
  have "cl_sess t' = (cl_sess t)(c \<mapsto> g (se\<lparr>se_chan := ch\<rparr>))" by (simp add: assms(4) 1(4) sf)
  from frames_kept_upd [OF assms(2) this out assms(3)] assms(6) [of "se\<lparr>se_chan := ch\<rparr>"] show ?thesis
    by fastforce
qed

lemma frames_kept_se_frame:
  assumes se: "cl_sess t c = Some se"
  shows "frames_kept cfg t (se_frame cfg lib c f k (log_inbound c f t))" (is "frames_kept cfg t ?t")
proof -
  have frame: "frames_kept cfg t t'"
    if "cl_sess t' = (cl_sess t)(c \<mapsto> se\<lparr>se_rcvd := r, se_pc := pc, se_streams := m\<rparr>)"
      "pc = se_pc se \<or> (\<forall>f. pc = SSend f \<longrightarrow> frames_ok cfg t' [f])" for t' pc r m
    by (rule frames_kept_session [OF se that(1)]) (use that(2) in auto)
  let ?r = "se_rcvd se @ [f]" and ?sid = "sf_stream_id f"
  note defs = se_frame_def set_sess_pc_def upd_session_def log_inbound_def
  show ?thesis
  proof (cases "sf_kind f")
    case None
    show ?thesis by (rule frame [where r = ?r and pc = "se_pc se" and m = "se_streams se"])
      (use None se in \<open>simp_all add: defs\<close>)
  next
    case (Some kind)
    show ?thesis
    proof (cases kind)
      case (Challenge ch)
      show ?thesis by (rule frame [where r = ?r and pc = SHandshake and m = "se_streams se"])
        (use Challenge Some se in \<open>simp_all add: defs\<close>)
    next
      case (Open op)
      let ?name = "if os_target op = [] then ''default'' else os_target op"
      show ?thesis
      proof (cases "cc_targets cfg ?name")
        case None
        show ?thesis
          by (rule frame [where r = ?r and m = "se_streams se" and
                pc = "SSend (client_close ?sid False (''unknown target '' @ hl_debug lib ?name))"])
            (use None Open Some se in \<open>auto simp: defs se_open_def Let_def\<close>)
      next
        case (Some target)
        show ?thesis
          by (rule frame [where r = ?r and pc = "se_pc se" and m = "(se_streams se)(?sid \<mapsto> k)"])
            (use Some Open \<open>sf_kind f = Some kind\<close> se in \<open>auto simp: defs se_open_def Let_def\<close>)
      qed
    next
      case (SData x)
      show ?thesis
      proof (cases "se_streams se ?sid")
        case None
        show ?thesis by (rule frame [where r = ?r and pc = "se_pc se" and m = "se_streams se"])
          (use None SData Some se in \<open>simp_all add: defs se_data_def\<close>)
      next
        case (Some j)
        show ?thesis by (rule frame [where r = ?r and pc = "SDeliver ?sid j x" and m = "se_streams se"])
          (use Some SData \<open>sf_kind f = Some kind\<close> se in \<open>simp_all add: defs se_data_def\<close>)
      qed
    next
      case (SClose cs)
      show ?thesis by (rule frame [where r = ?r and pc = "se_pc se" and m = "(se_streams se)(?sid := None)"])
        (use SClose Some se in \<open>simp_all add: defs streams_remove_def\<close>)
    next
      case (Ping n)
      show ?thesis by (rule frame [where r = ?r and pc = "SSend (client_pong n)" and m = "se_streams se"])
        (use Ping Some se in \<open>simp_all add: defs\<close>)
    next
      case (SHttpResponse resp)
      show ?thesis by (rule frame [where r = ?r and pc = "se_pc se" and m = "se_streams se"])
        (use SHttpResponse Some se in \<open>auto simp: defs se_response_def pending_remove_def upd_handler_def
           split: option.splits\<close>)
    qed
  qed
qed

lemma frames_kept_se_step:
  assumes inv: "inv_requests cfg t" and st: "se_step cfg lib c inp t = Some t'"
  shows "frames_kept cfg t t'"
proof -
  from st obtain se where se: "cl_sess t c = Some se" by (auto simp: se_step_def split: option.splits)
  have pc: "frames_kept cfg t (set_sess_pc c pc u)" if "cl_sess u = cl_sess t" "\<And>f. pc \<noteq> SSend f" for pc u
    by (rule frames_kept_session [OF se, where se' = "se\<lparr>se_pc := pc\<rparr>"])
      (use that se in \<open>auto simp: set_sess_pc_def upd_session_def\<close>)
  have send: "frames_kept cfg t t'"
    if "hub_send c f t = SendOk u" "t' = set_sess_pc c SRecv u" "frames_ok cfg t' [f]" for f u
    by (rule frames_kept_sent [OF that(1) se that(3), where g = "\<lambda>se. se\<lparr>se_pc := SRecv\<rparr>"])
      (simp_all add: that(2) set_sess_pc_def upd_session_def)
  show ?thesis
  proof (cases "se_pc se")
    case SConnect
    with st se obtain r where "t' = se_connect c r t" by (auto simp: se_step_def split: sess_input.splits)
    then show ?thesis by (cases r) (auto simp: se_connect_def intro!: pc)
  next
    case SAttach
    with st se have "t' = se_attach c t" by (auto simp: se_step_def split: sess_input.splits)
    then show ?thesis by (auto simp: se_attach_def attach_hub_def intro!: pc)
  next
    case SRecv
    with st se obtain r where r: "se_recv cfg lib c r t = Some t'" by (auto simp: se_step_def split: sess_input.splits)
    show ?thesis
    proof (cases r)
      case (InFrame f k)
      with r have t': "t' = se_frame cfg lib c f k (log_inbound c f t)" by (auto simp: se_recv_def split: if_splits)
      from frames_kept_se_frame [OF se, of cfg lib f k] t' show ?thesis by simp
    next
      case (InStatus e)
      with r show ?thesis by (auto simp: se_recv_def intro!: pc)
    next
      case InEnd
      with r show ?thesis by (auto simp: se_recv_def intro!: pc)
    qed
  next
    case SHandshake
    with st se have st: "se_handshake cfg c t = Some t'" by (auto simp: se_step_def split: sess_input.splits)
    show ?thesis
    proof (cases "hub_send c (client_handshake (cc_spoke_id cfg) (cc_token cfg)) t")
      case (SendOk u)
      with st have "t' = set_sess_pc c SRecv u" by (simp add: se_handshake_def)
      from send [OF SendOk this] show ?thesis by simp
    qed (use st in \<open>auto simp: se_handshake_def intro!: pc\<close>)
  next
    case (SSend f)
    with st se have st: "se_send c f t = Some t'" by (auto simp: se_step_def split: sess_input.splits)
    have f: "frames_ok cfg t [f]" by (rule inv_requestsD(2) [OF inv se SSend])
    show ?thesis
    proof (cases "hub_send c f t")
      case (SendOk u)
      with st have t': "t' = set_sess_pc c SRecv u" by (simp add: se_send_def)
      from hub_send_upd [OF SendOk] t' have "cl_handlers t' = cl_handlers t" by (auto simp: set_sess_pc_def)
      from frames_ok_mono [OF views_kept_same [OF this] f] show ?thesis by (rule send [OF SendOk t'])
    qed (use st in \<open>auto simp: se_send_def intro!: pc\<close>)
  next
    case (SDeliver sid k x)
    with st se have "se_deliver c k x t = Some t'" by (auto simp: se_step_def split: sess_input.splits)
    then show ?thesis by (auto simp: se_deliver_def intro!: pc split: option.splits sent.splits)
  next
    case (SDetach r)
    with st se have "t' = se_detach c r t" by (auto simp: se_step_def split: sess_input.splits)
    then show ?thesis by (auto simp: se_detach_def detach_hub_def intro!: pc)
  next
    case (SFlush r)
    with st se have "t' = se_flush c r t" by (auto simp: se_step_def split: sess_input.splits)
    then show ?thesis by (auto simp: se_flush_def flush_pending_def intro!: pc)
  qed (use st se in \<open>simp add: se_step_def\<close>)
qed

lemma frames_kept_pu_step:
  assumes st: "pu_step k e t = Some t'"
  shows "frames_kept cfg t t'"
proof -
  from st obtain p where p: "cl_pumps t k = Some p" by (auto simp: pu_step_def split: option.splits)
  have pc: "frames_kept cfg t (upd_pump k g u)" if "cl_sess u = cl_sess t" for g u
    by (rule frames_kept_same) (simp add: that)
  have send: "frames_kept cfg t (set_pump_pc k pc u)"
    if s: "hub_send (pu_sess p) f t = SendOk u" and f: "\<And>t'. frames_ok cfg t' [f]" for f pc u
    using s
  proof (cases rule: hub_send_OkE)
    case (1 se ch)
    show ?thesis
      by (rule frames_kept_sent [OF s 1(1) f, where g = "\<lambda>se. se"])
        (simp_all add: set_pump_pc_def 1(4) option.map_ident)
  qed
  have close: "frames_kept cfg t t'" if "pu_send_close k p (client_close (pu_sid p) half r) t = Some t'" for half r
  proof (cases "hub_send (pu_sess p) (client_close (pu_sid p) half r) t")
    case (SendOk u)
    with that send [OF SendOk, of RRemove] show ?thesis by (simp add: pu_send_close_def)
  qed (use that in \<open>auto simp: pu_send_close_def set_pump_pc_def intro!: pc\<close>)
  show ?thesis
  proof (cases "pu_pc p")
    case (RDial target)
    with st p show ?thesis
      by (auto simp: pu_step_def pu_dial_def set_pump_pc_def intro!: pc split: pump_event.splits dial_outcome.splits)
  next
    case (RRefuse reason)
    with st p close show ?thesis by (auto simp: pu_step_def split: pump_event.splits)
  next
    case RLoop
    with st p show ?thesis
      by (auto simp: pu_step_def pu_got_def pu_recv_def set_pump_pc_def intro!: pc
          split: pump_event.splits option.splits prod.splits if_splits)
  next
    case (RSendData bs)
    with st p have st: "pu_send_data k p bs t = Some t'" by (auto simp: pu_step_def split: pump_event.splits)
    show ?thesis
    proof (cases "hub_send (pu_sess p) (client_data (pu_sid p) bs) t")
      case (SendOk u)
      with st send [OF SendOk, of RLoop] show ?thesis by (simp add: pu_send_data_def)
    qed (use st in \<open>auto simp: pu_send_data_def set_pump_pc_def intro!: pc\<close>)
  next
    case RSendEof
    with st p close show ?thesis by (auto simp: pu_step_def split: pump_event.splits)
  next
    case RRemove
    with st p have t': "t' = pu_remove k p t" by (auto simp: pu_step_def split: pump_event.splits)
    show ?thesis
    proof (cases "cl_sess t (pu_sess p)")
      case None
      with t' show ?thesis
        by (intro frames_kept_same) (auto simp: pu_remove_def streams_remove_def upd_session_def)
    next
      case (Some se)
      show ?thesis
        by (rule frames_kept_session [OF Some, where se' = "se\<lparr>se_streams := (se_streams se)(pu_sid p := None)\<rparr>"])
          (use t' Some in \<open>simp_all add: pu_remove_def streams_remove_def upd_session_def\<close>)
    qed
  next
    case RDone
    with st p show ?thesis by (simp add: pu_step_def)
  qed
qed

lemma frames_kept_env:
  "cl_take c t = Some t' \<Longrightarrow> frames_kept cfg t t'" "cl_drop_rx c t = Some t' \<Longrightarrow> frames_kept cfg t t'"
  "se_start c t = Some t' \<Longrightarrow> frames_kept cfg t t'"
proof -
  assume "cl_take c t = Some t'"
  then obtain se f ch where se: "cl_sess t c = Some se" "chan_recv (se_chan se) = Some (f, ch)"
    "t' = upd_session c (\<lambda>se. se\<lparr>se_chan := ch, se_sent := se_sent se @ [f]\<rparr>) t"
    by (auto simp: cl_take_def split: option.splits prod.splits if_splits)
  then have "outbound (se\<lparr>se_chan := ch, se_sent := se_sent se @ [f]\<rparr>) = outbound se"
    using mpsc.recv_takes [OF se(2)] by (simp add: outbound_def)
  with se show "frames_kept cfg t t'"
    by (intro frames_kept_session [OF se(1), where se' = "se\<lparr>se_chan := ch, se_sent := se_sent se @ [f]\<rparr>"])
      (simp_all add: sess_upd)
next
  assume "cl_drop_rx c t = Some t'"
  then obtain se where se: "cl_sess t c = Some se"
    "t' = upd_session c (\<lambda>se. se\<lparr>se_chan := chan_drop_rx (se_chan se)\<rparr>) t"
    by (auto simp: cl_drop_rx_def split: if_splits)
  then show "frames_kept cfg t t'"
    by (intro frames_kept_session [OF se(1), where se' = "se\<lparr>se_chan := chan_drop_rx (se_chan se)\<rparr>"])
      (simp_all add: sess_upd outbound_def chan_drop_rx_def)
next
  assume "se_start c t = Some t'"
  then show "frames_kept cfg t t'"
    unfolding frames_kept_def
    by (auto simp: se_start_def outbound_def channel_def intro!: exI [of _ "[]"] split: if_splits)
qed

lemma handlers_kept:
  assumes "cl_step cfg lib e t = Some t'" "\<And>h req. e \<noteq> CvRequest h req" "\<And>h inp. e \<noteq> CvHandler h inp"
    "\<And>h. e \<noteq> CvCancel h"
  shows "map_option (\<lambda>x. (hd_pc x, hd_req x, hd_sid x)) (cl_handlers t' h) =
    map_option (\<lambda>x. (hd_pc x, hd_req x, hd_sid x)) (cl_handlers t h)"
proof (cases e)
  case (CvSess c inp)
  with assms(1) have "se_step cfg lib c inp t = Some t'" by simp
  then show ?thesis
  proof (cases rule: se_step_cases)
    case Kept
    then show ?thesis by (simp add: kept_def proxy_same_def)
  next
    case (Response f r)
    then show ?thesis
      by (auto simp: se_response_def upd_handler_def oneshot_send_def log_inbound_def upd_session_def
          pending_remove_def option.map_comp comp_def split: option.splits)
  next
    case (Flush r)
    then show ?thesis
      by (cases "cl_handlers t h")
        (auto simp: se_flush_def flush_pending_def set_sess_pc_def upd_session_def oneshot_send_def)
  qed
next
  case (CvPump k ev)
  with assms(1) kept_pump_step show ?thesis by (fastforce simp: kept_def proxy_same_def)
next
  case (CvStart c)
  with assms(1) kept_start show ?thesis by (fastforce simp: kept_def proxy_same_def)
next
  case (CvTake c)
  with assms(1) kept_env(1) show ?thesis by (fastforce simp: kept_def proxy_same_def)
next
  case (CvDropRx c)
  with assms(1) kept_env(2) show ?thesis by (fastforce simp: kept_def proxy_same_def)
qed (use assms(2-4) in simp_all)

lemma inv_requests_cancel:
  assumes inv: "inv_requests cfg t" and st: "hd_cancel h t = Some t'"
  shows "inv_requests cfg t'"
proof -
  from st obtain x where x: "cl_handlers t h = Some x" "t' = set_handler_pc h HDropped t"
    by (auto simp: hd_cancel_def split: option.splits handler_pc.splits)
  show ?thesis
    by (rule inv_requests_handler [OF inv x(1), where y = "x\<lparr>hd_pc := HDropped\<rparr>"])
      (use x numbered_ok_move [OF inv_requestsD(3) [OF inv x(1)], of HDropped] in
        \<open>auto simp: set_handler_pc_def upd_handler_def intro: frames_kept_same\<close>)
qed

lemma inv_requests_step:
  assumes inv: "inv_requests cfg t" and st: "cl_step cfg lib e t = Some t'"
  shows "inv_requests cfg t'"
proof -
  have frames: "inv_requests cfg t'"
    if "frames_kept cfg t t'" "\<And>h req. e \<noteq> CvRequest h req" "\<And>h inp. e \<noteq> CvHandler h inp" "\<And>h. e \<noteq> CvCancel h"
    by (rule inv_requests_frames [OF inv that(1) handlers_kept [OF st that(2-4)]])
  show ?thesis
  proof (cases e)
    case (CvRequest h req)
    with st inv_requests_open [OF inv] show ?thesis by simp
  next
    case (CvHandler h inp)
    with st inv_requests_hd_step [OF inv] show ?thesis by simp
  next
    case (CvCancel h)
    with st inv_requests_cancel [OF inv] show ?thesis by simp
  next
    case (CvStart c)
    with st frames_kept_env(3) show ?thesis by (intro frames) simp_all
  next
    case (CvSess c inp)
    with st frames_kept_se_step [OF inv] show ?thesis by (intro frames) simp_all
  next
    case (CvPump k ev)
    with st frames_kept_pu_step show ?thesis by (intro frames) simp_all
  next
    case (CvTake c)
    with st frames_kept_env(1) show ?thesis by (intro frames) simp_all
  next
    case (CvDropRx c)
    with st frames_kept_env(2) show ?thesis by (intro frames) simp_all
  qed
qed

lemma inv_requests_reach: "cl_reach cfg lib n t \<Longrightarrow> inv_requests cfg t"
proof (induction rule: cl_reach.induct)
  case cl_reach_init
  show ?case by (simp add: inv_requests_def client_init_def)
next
  case (cl_reach_step n s e s')
  from inv_requests_step [OF cl_reach_step(3,2)] show ?case .
qed

text \<open>A request frame on the wire is the request of the one handler that owns its identifier.\<close>

lemma request_frame_owner:
  assumes "cl_reach cfg lib n t" "n < 2 ^ 63"
    and "cl_sess t c = Some se" "f \<in> set (outbound se)" "cf_kind f = Some (CHttpRequest req)"
    and "cl_handlers t h = Some x" "hd_sid x = Some (cf_stream_id f)"
  shows "hd_req x = Some req"
proof -
  have "frames_ok cfg t (outbound se)" by (rule inv_requestsD(1) [OF inv_requests_reach [OF assms(1)] assms(3)])
  with assms(4,5) obtain g y where y: "cl_handlers t g = Some y" "hd_req y = Some req"
    "hd_sid y = Some (cf_stream_id f)"
    by (fastforce simp: frames_ok_def asks_def hd_view_def)
  have "sid_of_handler t g = Some (cf_stream_id f)" "sid_of_handler t h = Some (cf_stream_id f)"
    using y assms(6,7) by (simp_all add: sid_of_handler_def)
  with inv_proxyD(4) [OF inv_proxy_reach [OF assms(1,2)]] have "g = h" by blast
  with y assms(6) show ?thesis by simp
qed

text \<open>The spoke presents its own id and token.\<close>

lemma handshake_frame:
  assumes "cl_reach cfg lib n t" "cl_sess t c = Some se" "f \<in> set (outbound se)" "cf_kind f = Some (Handshake hs)"
  shows "hs_spoke_id hs = cc_spoke_id cfg" "hs_signature hs = as_bytes (cc_token cfg)"
proof -
  have "frames_ok cfg t (outbound se)" by (rule inv_requestsD(1) [OF inv_requests_reach [OF assms(1)] assms(2)])
  with assms(3,4) have "f = client_handshake (cc_spoke_id cfg) (cc_token cfg)"
    unfolding frames_ok_def by blast
  with assms(4) show "hs_spoke_id hs = cc_spoke_id cfg" "hs_signature hs = as_bytes (cc_token cfg)"
    by (auto simp: client_handshake_def)
qed

end
