(* ===== verification/Tunnel_System.thy ===== *)
theory Tunnel_System
  imports Server_Replies Server_Delivery Client_Requests "HOL-Library.Sublist"
begin

text \<open>
  The hub and one spoke together: the two programs run side by side, joined by one gRPC stream that
  delivers, in each direction, a prefix of what the other side put on it. Shown end to end: the bytes
  of a TCP connection arrive at the target as they were read, the bytes of the target arrive at the
  TCP connection as they were read, and an HTTP response answers the very request it belongs to.
\<close>

section \<open>The two programs and the stream between them\<close>

text \<open>What tonic took from the two outbound channels, and what the two receive loops got.\<close>

definition hub_sent :: "server \<Rightarrow> nat \<Rightarrow> server_frame list" where
  "hub_sent s c = (case outs s c of None \<Rightarrow> [] | Some ot \<Rightarrow> ot_sent ot)"

definition hub_rcvd :: "server \<Rightarrow> nat \<Rightarrow> client_frame list" where
  "hub_rcvd s c = (case rcvd_of s c of None \<Rightarrow> [] | Some fs \<Rightarrow> fs)"

definition spoke_sent :: "client \<Rightarrow> nat \<Rightarrow> client_frame list" where
  "spoke_sent t d = (case cl_sess t d of None \<Rightarrow> [] | Some se \<Rightarrow> se_sent se)"

definition spoke_rcvd :: "client \<Rightarrow> nat \<Rightarrow> server_frame list" where
  "spoke_rcvd t d = (case cl_sess t d of None \<Rightarrow> [] | Some se \<Rightarrow> se_rcvd se)"

text \<open>
  HTTP/2 delivers the messages of a stream in order and without loss, so what one side received is a
  prefix of what the other side sent: connection \<open>c\<close> of the hub and session \<open>d\<close> of the spoke.
\<close>

definition coupled :: "nat \<Rightarrow> nat \<Rightarrow> server \<times> client \<Rightarrow> bool" where
  "coupled c d st \<longleftrightarrow>
     prefix (hub_rcvd (fst st) c) (spoke_sent (snd st) d) \<and>
     prefix (spoke_rcvd (snd st) d) (hub_sent (fst st) c)"

datatype joint_event = AtHub event | AtSpoke cl_event

text \<open>One step of either program, if the stream can have delivered what the step receives.\<close>

definition joint_step ::
  "server_config \<Rightarrow> client_config \<Rightarrow> http_lib \<Rightarrow> nat \<Rightarrow> nat \<Rightarrow> joint_event \<Rightarrow> server \<times> client \<Rightarrow>
   (server \<times> client) option" where
  "joint_step cfg cc lib c d e st =
     (case (case e of
              AtHub ev \<Rightarrow> map_option (\<lambda>s. (s, snd st)) (step cfg ev (fst st))
            | AtSpoke ev \<Rightarrow> map_option (\<lambda>t. (fst st, t)) (cl_step cc lib ev (snd st))) of
        None \<Rightarrow> None
      | Some st' \<Rightarrow> if coupled c d st' then Some st' else None)"

fun joint_run ::
  "server_config \<Rightarrow> client_config \<Rightarrow> http_lib \<Rightarrow> nat \<Rightarrow> nat \<Rightarrow> joint_event list \<Rightarrow> server \<times> client \<Rightarrow>
   (server \<times> client) option" where
  "joint_run cfg cc lib c d [] st = Some st"
| "joint_run cfg cc lib c d (e # es) st =
     Option.bind (joint_step cfg cc lib c d e st) (joint_run cfg cc lib c d es)"

inductive linked ::
  "server_config \<Rightarrow> client_config \<Rightarrow> http_lib \<Rightarrow> nat \<Rightarrow> nat \<Rightarrow> nat \<Rightarrow> server \<times> client \<Rightarrow> bool"
  for cfg cc lib c d where
  linked_init: "linked cfg cc lib c d 0 (server_init, client_init)"
| linked_step: "linked cfg cc lib c d n st \<Longrightarrow> joint_step cfg cc lib c d e st = Some st' \<Longrightarrow>
    linked cfg cc lib c d (Suc n) st'"

lemma joint_stepE:
  assumes "joint_step cfg cc lib c d e (s, t) = Some st'"
  obtains (Hub) ev s' where "e = AtHub ev" "step cfg ev s = Some s'" "st' = (s', t)" "coupled c d (s', t)"
  | (Spoke) ev t' where "e = AtSpoke ev" "cl_step cc lib ev t = Some t'" "st' = (s, t')" "coupled c d (s, t')"
  using assms by (auto simp: joint_step_def split: joint_event.splits option.splits if_splits)

interpretation pair: machine "joint_step cfg cc lib c d" "joint_run cfg cc lib c d" "linked cfg cc lib c d"
    "(server_init, client_init)" for cfg cc lib c d
  by unfold_locales (auto intro: linked_init linked_step elim: linked.cases)

lemma joint_run_obtains:
  assumes "map_option (\<lambda>(s, t). P s t) (joint_run cfg cc lib c d es (server_init, client_init)) = Some True"
  obtains s t where "linked cfg cc lib c d (length es) (s, t)" "P s t"
  by (rule pair.run_obtains [OF assms]) (auto intro: that)

text \<open>Each program runs on its own, and the stream couples them.\<close>

lemma linked_parts:
  "linked cfg cc lib c d n st \<Longrightarrow>
     (\<exists>m \<le> n. reach cfg m (fst st)) \<and> (\<exists>m \<le> n. cl_reach cc lib m (snd st)) \<and> coupled c d st"
proof (induction rule: linked.induct)
  case linked_init
  have "coupled c d (server_init, client_init)"
    by (simp add: coupled_def hub_rcvd_def spoke_rcvd_def rcvd_of_def server_init_def client_init_def)
  then show ?case using reach_init cl_reach_init by auto
next
  case (linked_step n st e st')
  obtain s t where st: "st = (s, t)" by (cases st)
  from linked_step(3) st obtain m m' where m: "m \<le> n" "reach cfg m s" "m' \<le> n" "cl_reach cc lib m' t" by auto
  from linked_step(2) [unfolded st] show ?case
  proof (cases rule: joint_stepE)
    case (Hub ev s')
    from reach_step [OF m(2) Hub(2)] m(1) have "\<exists>i \<le> Suc n. reach cfg i s'" by (meson Suc_le_mono)
    moreover from m(3,4) have "\<exists>i \<le> Suc n. cl_reach cc lib i t" by (meson le_SucI)
    ultimately show ?thesis using Hub by simp
  next
    case (Spoke ev t')
    from cl_reach_step [OF m(4) Spoke(2)] m(3) have "\<exists>i \<le> Suc n. cl_reach cc lib i t'" by (meson Suc_le_mono)
    moreover from m(1,2) have "\<exists>i \<le> Suc n. reach cfg i s" by (meson le_SucI)
    ultimately show ?thesis using Spoke by simp
  qed
qed

lemma linkedD:
  assumes "linked cfg cc lib c d n (s, t)"
  obtains m m' where "m \<le> n" "reach cfg m s" "m' \<le> n" "cl_reach cc lib m' t" "coupled c d (s, t)"
  using linked_parts [OF assms] by auto

section \<open>What the spoke heard of a stream\<close>

lemma hub_sent_prefix: "prefix (hub_sent s c) (out_frames s c)"
  by (auto simp: hub_sent_def out_frames_def split: option.splits)

lemma prefix_filter: "prefix xs ys \<Longrightarrow> prefix (filter P xs) (filter P ys)"
  by (auto simp: prefix_def)

lemma heard_append: "\<forall>f \<in> set gs. \<not> is_open sid f \<Longrightarrow> heard sid (fs @ gs) = heard sid fs @ server_payloads sid gs"
proof (induction gs rule: rev_induct)
  case (snoc f gs)
  then show ?case
    using heard_snoc [of sid "fs @ gs" f] by (simp del: server_payloads.simps frame_kinds)
qed simp

text \<open>Frames of other streams and of other kinds do not count.\<close>

lemma other_frame:
  "\<not> (stream_frame f \<and> sf_stream_id f = sid) \<Longrightarrow> \<not> is_open sid f \<and> server_payloads sid [f] = []"
  by (auto simp: stream_frame_def is_open_def split: option.splits server_kind.splits)

lemma opens_filter: "opens sid fs = opens sid (filter (\<lambda>f. stream_frame f \<and> sf_stream_id f = sid) fs)"
proof -
  have "filter (is_open sid) (filter (\<lambda>f. stream_frame f \<and> sf_stream_id f = sid) fs) = filter (is_open sid) fs"
    unfolding filter_filter by (rule filter_cong [OF refl]) (metis other_frame)
  then show ?thesis by (simp add: opens_def)
qed

lemma heard_filter: "heard sid fs = heard sid (filter (\<lambda>f. stream_frame f \<and> sf_stream_id f = sid) fs)"
proof (induction fs rule: rev_induct)
  case (snoc f fs)
  then show ?case
    using other_frame [of f sid] by (simp add: heard_snoc del: server_payloads.simps frame_kinds)
qed simp

definition wire_shape :: "u64 \<Rightarrow> bytes list \<Rightarrow> server_frame list \<Rightarrow> bool" where
  "wire_shape sid sent fs \<longleftrightarrow>
     (\<exists>tgt close. fs = open_frame sid tgt # map (data_frame sid) sent @ close \<and>
        (close = [] \<or> close = [eof_frame sid]))"

lemma open_frame_kinds [simp]:
  "is_open sid (open_frame sid tgt)" "\<not> is_open sid (data_frame i p)" "\<not> is_open sid (eof_frame i)"
  "server_payloads sid (map (data_frame sid) sent) = sent" "server_payloads sid [eof_frame i] = []"
  by (induction sent) (simp_all add: open_frame_def data_frame_def eof_frame_def)

lemma wire_shape_prefix:
  assumes "wire_shape sid sent fs" "prefix gs fs"
  shows "opens sid gs \<le> 1" "prefix (heard sid gs) sent"
proof -
  from assms(1) obtain tgt close where fs: "fs = open_frame sid tgt # map (data_frame sid) sent @ close"
    "close = [] \<or> close = [eof_frame sid]"
    by (auto simp: wire_shape_def)
  have tail: "\<forall>f \<in> set (map (data_frame sid) sent @ close). \<not> is_open sid f"
    using fs(2) by (auto simp del: frame_kinds)
  show "opens sid gs \<le> 1"
  proof -
    have "opens sid fs = 1" using tail by (simp add: fs(1) opens_def filter_empty_conv del: frame_kinds)
    with assms(2) show ?thesis by (auto simp: prefix_def opens_def)
  qed
  show "prefix (heard sid gs) sent"
  proof (cases gs)
    case (Cons f gs')
    with assms(2) fs(1) obtain rest where gs: "f = open_frame sid tgt"
      "gs' @ rest = map (data_frame sid) sent @ close" by (auto simp: prefix_def)
    have "\<forall>f \<in> set (gs' @ rest). \<not> is_open sid f" using tail gs(2) by simp
    then have "heard sid ([f] @ gs') = heard sid [f] @ server_payloads sid gs'"
      by (intro heard_append) (simp del: frame_kinds)
    moreover have "heard sid [f] = []" by (simp add: heard_def gs(1) del: frame_kinds)
    moreover have "server_payloads sid gs' @ server_payloads sid rest = sent"
    proof -
      have "server_payloads sid (gs' @ rest) = sent" unfolding gs(2) using fs(2) by (elim disjE) (simp_all del: server_payloads.simps(2))
      then show ?thesis by simp
    qed
    ultimately show ?thesis using Cons by (auto simp: prefix_def)
  qed simp
qed

lemma spoke_heard:
  assumes "reach cfg m s" "m < 2 ^ 63" "strms s k = Some v" "vs_sess v = c"
    and "prefix fs (out_frames s c)"
  shows "opens (vs_sid v) fs \<le> 1" "prefix (heard (vs_sid v) fs) (vs_read v)"
    "vs_up v = UpIdle \<Longrightarrow> opens (vs_sid v) fs = 0"
proof -
  let ?P = "\<lambda>f. stream_frame f \<and> sf_stream_id f = vs_sid v"
  have pre: "prefix (filter ?P fs) (on_wire s c (vs_sid v))"
    unfolding on_wire_def by (rule prefix_filter [OF assms(5)])
  have "on_wire s c (vs_sid v) = [] \<or>
      (\<exists>sent unsent. vs_read v = sent @ unsent \<and> wire_shape (vs_sid v) sent (on_wire s c (vs_sid v)))"
  proof -
    have "up_view s k = Some (c, vs_sid v, vs_up v, vs_read v)"
      using assms(3,4) by (simp add: up_view_def)
    then have "wire_ok (vs_sid v) (vs_up v) (vs_read v) (on_wire s c (vs_sid v))"
      using inv_wireD(2) inv_wire_reach [OF assms(1)] assms(2) by simp
    from wire_ok_shape [OF this] show ?thesis unfolding wire_shape_def by blast
  qed
  then have both: "opens (vs_sid v) (filter ?P fs) \<le> 1 \<and> prefix (heard (vs_sid v) (filter ?P fs)) (vs_read v)"
  proof
    assume "on_wire s c (vs_sid v) = []"
    with pre show ?thesis by simp
  next
    assume "\<exists>sent unsent. vs_read v = sent @ unsent \<and> wire_shape (vs_sid v) sent (on_wire s c (vs_sid v))"
    then obtain sent unsent where w: "vs_read v = sent @ unsent"
      "wire_shape (vs_sid v) sent (on_wire s c (vs_sid v))" by blast
    from wire_shape_prefix [OF w(2) pre] w(1) show ?thesis by (metis prefix_prefix)
  qed
  then show "opens (vs_sid v) fs \<le> 1" "prefix (heard (vs_sid v) fs) (vs_read v)"
    by (simp_all only: opens_filter [of "vs_sid v" fs] heard_filter [of "vs_sid v" fs])
  assume "vs_up v = UpIdle"
  then have "up_view s k = Some (c, vs_sid v, UpIdle, vs_read v)"
    using assms(3,4) by (simp add: up_view_def)
  moreover have "inv_wire s" using inv_wire_reach [OF assms(1)] assms(2) by simp
  ultimately have "wire_ok (vs_sid v) UpIdle (vs_read v) (on_wire s c (vs_sid v))"
    by (intro inv_wireD(2))
  with pre have "filter ?P fs = []" by simp
  then show "opens (vs_sid v) fs = 0" using opens_filter [of "vs_sid v" fs] by simp
qed

section \<open>From the TCP connection to the target\<close>

lemma spoke_rcvd_prefix:
  assumes "coupled c d (s, t)" "cl_sess t d = Some se"
  shows "prefix (se_rcvd se) (out_frames s c)"
  using assms prefix_order.trans [OF _ hub_sent_prefix] by (auto simp: coupled_def spoke_rcvd_def)

lemma hub_rcvd_prefix:
  assumes "coupled c d (s, t)" "cl_sess t d = Some se" "rcvd_of s c = Some fs"
  shows "prefix fs (outbound se)"
proof -
  have "prefix fs (se_sent se)" using assms by (simp add: coupled_def hub_rcvd_def spoke_sent_def)
  moreover have "prefix (se_sent se) (outbound se)" by (simp add: outbound_def)
  ultimately show ?thesis by (rule prefix_order.trans)
qed

lemma pump_opened_once:
  assumes re: "reach cfg m s" "m < 2 ^ 63" and ct: "cl_reach cc lib m' t" and co: "coupled c d (s, t)"
    and v: "strms s k = Some v" "vs_sess v = c"
    and p: "cl_pumps t j = Some p" "pu_sess p = d" "pu_sid p = vs_sid v"
  obtains se where "cl_sess t (pu_sess p) = Some se" "opens (pu_sid p) (se_rcvd se) = 1"
proof -
  from inv_streamsD(1) [OF inv_streams_reach [OF ct] p(1)] obtain se
    where se: "cl_sess t (pu_sess p) = Some se" "1 \<le> opens (pu_sid p) (se_rcvd se)"
    by (auto simp: pump_ok_def)
  with spoke_heard(1) [OF re v spoke_rcvd_prefix [OF co]] p(2,3)
  have "opens (pu_sid p) (se_rcvd se) \<le> 1" by simp
  with se that show thesis by simp
qed

text \<open>
  C4. End to end, hub to spoke: for every interleaving of the two programs, what the spoke's pump wrote
  to the target of a stream is a prefix of what the hub read from the TCP connection of that stream,
  chunk by chunk and in order. Nothing is altered, reordered, repeated or taken from another stream.
\<close>
theorem tcp_bytes_reach_target:
  assumes "linked cfg cc lib c d n (s, t)" and "n < 2 ^ 63"
    and "strms s k = Some v" and "vs_sess v = c"
    and "cl_pumps t j = Some p" and "pu_sess p = d" and "pu_sid p = vs_sid v"
  shows "prefix (pu_written p) (vs_read v)"
proof -
  from assms(1) obtain m m' where m: "m \<le> n" "reach cfg m s" "cl_reach cc lib m' t" "coupled c d (s, t)"
    by (rule linkedD)
  then have "m < 2 ^ 63" using assms(2) by simp
  note re = m(2) this
  from pump_opened_once [OF re m(3,4) assms(3-7)] obtain se
    where se: "cl_sess t (pu_sess p) = Some se" "opens (pu_sid p) (se_rcvd se) = 1" .
  have "prefix (pu_written p) (heard (pu_sid p) (se_rcvd se))"
    using down_ok_prefix [OF pump_ok_reach(1) [OF m(3) assms(5) se]] by (auto simp: prefix_def)
  also have "prefix (heard (pu_sid p) (se_rcvd se)) (vs_read v)"
    using spoke_heard(2) [OF re assms(3,4) spoke_rcvd_prefix [OF m(4)]] se(1) assms(6,7) by simp
  finally show ?thesis .
qed

section \<open>From the target to the TCP connection\<close>

text \<open>
  A stream the hub has not announced yet has nothing from the spoke: the spoke sends data for an
  identifier only after its \<open>Open\<close>.
\<close>

lemma nothing_before_open:
  assumes re: "reach cfg m s" "m < 2 ^ 63" and ct: "cl_reach cc lib m' t" and co: "coupled c d (s, t)"
    and v: "strms s k = Some v" "vs_sess v = c" "vs_up v = UpIdle" and fs: "rcvd_of s c = Some fs"
  shows "client_payloads (vs_sid v) fs = []"
proof (cases "cl_sess t d")
  case None
  with co fs show ?thesis by (simp add: coupled_def hub_rcvd_def spoke_sent_def)
next
  case (Some se)
  have "opens (vs_sid v) (se_rcvd se) = 0"
    using spoke_heard(3) [OF re v(1,2) spoke_rcvd_prefix [OF co Some] v(3)] .
  then have "key t j \<noteq> Some (d, vs_sid v)" for j
    using inv_streamsD(1) [OF inv_streams_reach [OF ct], of j] Some by (fastforce simp: key_def pump_ok_def)
  with inv_streamsD(3) [OF inv_streams_reach [OF ct] Some] have "client_payloads (vs_sid v) (outbound se) = []"
    by (auto simp: sess_ok_def)
  moreover from hub_rcvd_prefix [OF co Some fs] obtain gs where "outbound se = fs @ gs" by (auto simp: prefix_def)
  ultimately show ?thesis by simp
qed

text \<open>Every stream of the connection is unregistered, or delivers from the first payload on.\<close>

definition inv_delivers :: "nat \<Rightarrow> server \<Rightarrow> bool" where
  "inv_delivers c s \<longleftrightarrow>
     (\<forall>k sid. sid_of s k = Some (c, sid) \<longrightarrow>
        (\<exists>a. at_insert s a = Some (c, sid, k)) \<or> delivery [] k c sid s)"

lemma at_insert_stays:
  assumes "step cfg e s = Some s'" "at_insert s a = Some x" "\<And>r. e \<noteq> EvAcc a r" "e \<noteq> EvCancel a"
  shows "at_insert s' a = Some x"
proof -
  from assms(2) obtain ac sid k where ac: "accs s a = Some ac" "ac_pc ac = AInsert sid k" "x = (ac_sess ac, sid, k)"
    by (auto simp: at_insert_def split: option.splits acc_pc.splits)
  have "\<exists>ac'. accs s' a = Some ac' \<and> ac_pc ac' = ac_pc ac \<and> ac_sess ac' = ac_sess ac"
  proof (cases e)
    case (EvConn y inp)
    with assms(1) ac(1) show ?thesis
      by (auto elim!: conn_stepE simp: conn_ops conn_first_def state_ops log_frame_def dest!: session_send_frame
          split: op_splits sum.splits)
  next
    case (EvAcc b r)
    with assms(3) [of r] have "b \<noteq> a" by blast
    with assms(1) EvAcc ac(1) show ?thesis
      by (auto simp: acc_ops state_ops dest!: session_send_frame elim!: acc_stepE split: op_splits)
  next
    case (EvCancel b)
    with assms(4) have "b \<noteq> a" by blast
    with assms(1) EvCancel ac(1) show ?thesis
      by (auto simp: acc_ops state_ops split: op_splits acc_pc.splits)
  qed (use assms(1) ac(1) in \<open>auto simp: connect_def http_run_def http_send_def out_take_def out_drop_def
      acc_ops state_ops dest!: session_send_frame elim!: acc_stepE up_stepE dn_stepE
      split: option.splits http_pc.splits sent.splits acc_pc.splits prod.splits if_splits op_splits\<close>)
  with ac show ?thesis by (auto simp: at_insert_def)
qed

lemma at_insert_idle:
  assumes "reach cfg m s" "m < 2 ^ 63" "at_insert s a = Some (c, sid, k)"
  obtains v where "strms s k = Some v" "vs_sess v = c" "vs_sid v = sid" "vs_up v = UpIdle"
    "vs_written v = []"
proof -
  have m: "m \<le> 2 ^ 63" using assms(2) by simp
  have "up_view s k = Some (c, sid, UpIdle, [])"
    by (rule inv_wireD(3) [OF inv_wire_reach [OF assms(1) m] at_insert_task [OF assms(3)]])
  moreover have "dn_view s k = Some (c, sid, DnIdle, [], [])"
    using inv_freshD(2) [OF inv_fresh_reach [OF assms(1) m] assms(3)] by blast
  ultimately show thesis using that by (auto simp: up_view_def dn_view_def)
qed

lemma inv_delivers_hub:
  assumes re: "reach cfg m s" "m < 2 ^ 63" and ct: "cl_reach cc lib m' t" and co: "coupled c d (s, t)"
    and inv: "inv_delivers c s" and st: "step cfg e s = Some s'"
  shows "inv_delivers c s'"
  unfolding inv_delivers_def
proof (intro allI impI)
  have m: "m \<le> 2 ^ 63" using re(2) by simp
  note ids = inv_ids_reach [OF re(1) m]
  fix k sid
  assume sid': "sid_of s' k = Some (c, sid)"
  show "(\<exists>a. at_insert s' a = Some (c, sid, k)) \<or> delivery [] k c sid s'"
  proof (cases "sid_of s k")
    case None
    from st show ?thesis
    proof (cases rule: step_ids_cases)
      case Kept
      with None sid' show ?thesis by (simp add: ids_kept_def)
    next
      case (Accept a ac i)
      with None sid' have "i = k" by (auto split: if_splits)
      with Accept sid' have "at_insert s' a = Some (c, sid, k)"
        by (auto simp: accepts_def at_insert_def upd_acc_def vstream_new_def sid_of_def)
      then show ?thesis by blast
    qed
  next
    case (Some x)
    have sid: "sid_of s k = Some (c, sid)"
      using st
    proof (cases rule: step_ids_cases)
      case Kept
      with sid' show ?thesis by (simp add: ids_kept_def)
    next
      case (Accept a ac i)
      with Some have "i \<noteq> k" by (auto simp: accepts_def sid_of_def)
      with Accept sid' show ?thesis by (simp add: sid_of_def upd_acc_def)
    qed
    with inv consider a where "at_insert s a = Some (c, sid, k)" | "delivery [] k c sid s"
      unfolding inv_delivers_def by blast
    then show ?thesis
    proof cases
      case (1 a)
      from at_insert_idle [OF re 1] obtain v where v: "strms s k = Some v" "vs_sess v = c" "vs_sid v = sid"
        "vs_up v = UpIdle" .
      from at_insert_rcvd [OF re(1) 1] obtain fs where fs: "rcvd_of s c = Some fs" by blast
      have none: "client_payloads sid fs = []"
        using nothing_before_open [OF re ct co v(1,2,4) fs] v(3) by simp
      show ?thesis
      proof (cases "(\<exists>r. e = EvAcc a r) \<or> e = EvCancel a")
        case False
        with at_insert_stays [OF st 1] show ?thesis by blast
      next
        case True
        have other: "at_insert s b \<noteq> Some (i, e, k)" if "b \<noteq> a" for b i e
          using inv_idsD(5) [OF ids at_insert_task [OF 1] at_insert_task] that by blast
        from True show ?thesis
        proof
          assume "\<exists>r. e = EvAcc a r"
          then obtain r where r: "e = EvAcc a r" by blast
          from 1 obtain ac where ac: "accs s a = Some ac" "ac_pc ac = AInsert sid k" "ac_sess ac = c"
            by (auto simp: at_insert_def split: option.splits acc_pc.splits)
          from delivery_starts [OF re(1) m ac(1,2) st [unfolded r]] ac(3) fs none show ?thesis by auto
        next
          assume e: "e = EvCancel a"
          then have ca: "acc_cancel a s = Some s'" using st by simp
          have "pc_of s' = pc_of s" "rcvd_of s' = rcvd_of s" "dn_view s' k = dn_view s k"
            using ca by (auto simp: acc_cancel_def acc_finish_def fun_eq_iff split: option.splits if_splits acc_pc.splits)
          moreover have "at_insert s' b \<noteq> Some (i, e, k)" for b i e
            using ca other [of b i e]
            by (cases "b = a") (auto simp: acc_cancel_def acc_finish_def at_insert_def state_ops
                split: option.splits if_splits acc_pc.splits)
          ultimately have "delivery (client_payloads sid fs) k c sid s'"
            by (intro delivery_fresh [OF re(1) m 1 fs]) simp_all
          with none show ?thesis by simp
        qed
      qed
    next
      case 2
      from delivery_step [OF inv_auth_reach [OF re(1)] ids inv_fresh_reach [OF re(1) m] 2 st] show ?thesis by blast
    qed
  qed
qed

lemma inv_delivers_linked:
  assumes "linked cfg cc lib c d n st" "n \<le> 2 ^ 63"
  shows "inv_delivers c (fst st)"
  using assms
proof (induction rule: linked.induct)
  case linked_init
  show ?case by (simp add: inv_delivers_def server_init_def sid_of_def)
next
  case (linked_step n st e st')
  obtain s t where st: "st = (s, t)" by (cases st)
  from linked_step(1) [unfolded st] obtain m m' where m: "m \<le> n" "reach cfg m s" "cl_reach cc lib m' t"
    "coupled c d (s, t)" by (rule linkedD)
  have n: "n \<le> 2 ^ 63" "m < 2 ^ 63" using linked_step(4) m(1) by simp_all
  from linked_step(2) [unfolded st] show ?case
  proof (cases rule: joint_stepE)
    case (Hub ev s')
    from inv_delivers_hub [OF m(2) n(2) m(3,4) _ Hub(2)] linked_step(3) n(1) Hub(3) show ?thesis by (simp add: st)
  next
    case (Spoke ev t')
    with linked_step(3) n(1) show ?thesis by (simp add: st)
  qed
qed

text \<open>
  C5. End to end, spoke to hub: for every interleaving of the two programs, what the hub wrote to the
  TCP connection of a stream is a prefix of what the spoke's pump read from the target of that stream,
  chunk by chunk and in order.
\<close>
theorem target_bytes_reach_tcp:
  assumes "linked cfg cc lib c d n (s, t)" and "n < 2 ^ 63"
    and "strms s k = Some v" and "vs_sess v = c"
    and "cl_pumps t j = Some p" and "pu_sess p = d" and "pu_sid p = vs_sid v"
  shows "prefix (vs_written v) (pu_read p)"
proof -
  from assms(1) obtain m m' where m: "m \<le> n" "reach cfg m s" "cl_reach cc lib m' t" "coupled c d (s, t)"
    by (rule linkedD)
  then have mn: "m < 2 ^ 63" using assms(2) by simp
  from pump_opened_once [OF m(2) mn m(3,4) assms(3-7)] obtain se
    where se: "cl_sess t (pu_sess p) = Some se" "opens (pu_sid p) (se_rcvd se) = 1" .
  from up_ok_cases [OF pump_ok_reach(2) [OF m(3) assms(5) se]] obtain lost
    where rd: "pu_read p = client_payloads (vs_sid v) (outbound se) @ lost" by (auto simp: assms(7))
  have "sid_of s k = Some (c, vs_sid v)" using assms(3,4) by (simp add: sid_of_def)
  moreover have "inv_delivers c s" using inv_delivers_linked [OF assms(1)] assms(2) by simp
  ultimately consider a where "at_insert s a = Some (c, vs_sid v, k)" | "delivery [] k c (vs_sid v) s"
    unfolding inv_delivers_def by blast
  then show ?thesis
  proof cases
    case (1 a)
    from at_insert_idle [OF m(2) mn 1] obtain u where "strms s k = Some u" "vs_written u = []" .
    with assms(3) show ?thesis by simp
  next
    case 2
    then obtain d w q fs where dn: "dn_view s k = Some (c, vs_sid v, d, w, q)" "rcvd_of s c = Some fs"
      "delivered [] (vs_sid v) fs d w q (pend_of (pc_of s c) k) (is_live s c (vs_sid v) k)"
      unfolding delivery_def by blast
    have w: "w = vs_written v" using dn(1) assms(3) by (auto simp: dn_view_def)
    from dn(3) obtain rest where "client_payloads (vs_sid v) fs = vs_written v @ rest"
      unfolding delivered_def w by (cases "in_flight d q") auto
    note fs = dn(2) this
    moreover from hub_rcvd_prefix [OF m(4) se(1) [unfolded assms(6)] fs(1)] obtain gs where "outbound se = fs @ gs"
      by (auto simp: prefix_def)
    ultimately show ?thesis using rd by simp
  qed
qed

section \<open>A proxied request\<close>

text \<open>A joint run is a run of the hub and a run of the spoke, interleaved.\<close>

fun hub_events :: "joint_event list \<Rightarrow> event list" where
  "hub_events [] = []"
| "hub_events (AtHub e # es) = e # hub_events es"
| "hub_events (AtSpoke e # es) = hub_events es"

lemma set_hub_events: "set (hub_events es) = {e. AtHub e \<in> set es}"
  by (induction es rule: hub_events.induct) auto

lemma joint_run_hub:
  "joint_run cfg cc lib c d es (s, t) = Some (s', t') \<Longrightarrow> run cfg (hub_events es) s = Some s'"
proof (induction es arbitrary: s t)
  case (Cons e es)
  from Cons.prems obtain u v where st: "joint_step cfg cc lib c d e (s, t) = Some (u, v)"
    "joint_run cfg cc lib c d es (u, v) = Some (s', t')"
    by (auto split: Option.bind_splits)
  from st(1) Cons.IH [OF st(2)] show ?case by (cases rule: joint_stepE) auto
qed simp

text \<open>The spoke a connection authenticated is the one the coupled spoke is configured as.\<close>

lemma authenticated_spoke:
  assumes "cl_reach cc lib m t" "coupled c d (s, t)" "cl_sess t d = Some se" "rcvd_of s c = Some fs"
    and "authenticated cfg fs sp sc"
  shows "sp = cc_spoke_id cc" "as_bytes (sc_token sc) = as_bytes (cc_token cc)"
proof -
  from assms(5) obtain f hs rest where f: "fs = f # rest" "cf_kind f = Some (Handshake hs)" "hs_spoke_id hs = sp"
    "hs_signature hs = as_bytes (sc_token sc)"
    by (auto simp: authenticated_def)
  with hub_rcvd_prefix [OF assms(2-4)] have "f \<in> set (outbound se)" by (auto simp: prefix_def)
  from handshake_frame [OF assms(1,3) this f(2)] f(3,4)
  show "sp = cc_spoke_id cc" "as_bytes (sc_token sc) = as_bytes (cc_token cc)" by simp_all
qed

text \<open>
  C6. End to end, HTTP: when a response frame reaches the spoke under the identifier of a request it
  proxies, then it answers exactly this request (method, path, headers and body as the local caller
  sent them) in the name of this spoke, which presented the token the hub has for it: it is the refusal
  of the kind if the spoke is not an application spoke, and otherwise the verdict, under the same
  identifier, of one of the kernels \<open>Ks\<close> the run talks to. Neither another request nor another spoke's name
  can stand behind it.
\<close>
theorem response_answers_own_request:
  assumes "joint_run cfg cc lib c d es (server_init, client_init) = Some (s, t)" and "length es < 2 ^ 63"
    and "\<forall>g env. AtHub (EvHttp g env) \<in> set es \<longrightarrow> env \<in> Ks"
    and "cl_sess t d = Some se" and "f \<in> set (se_rcvd se)" and "sf_kind f = Some (SHttpResponse r)"
    and "cl_handlers t h = Some x" and "hd_sid x = Some (sf_stream_id f)"
  shows "\<exists>sc fs req. hd_req x = Some req \<and> rcvd_of s c = Some fs \<and>
    authenticated cfg fs (cc_spoke_id cc) sc \<and>
    hub_answer cfg Ks (cc_spoke_id cc) sc (sf_stream_id f) req f"
proof -
  have linked: "linked cfg cc lib c d (length es) (s, t)"
    using pair.run_reaches [OF assms(1) linked_init] by simp
  then obtain m' where m: "m' \<le> length es" "cl_reach cc lib m' t" "coupled c d (s, t)" by (rule linkedD)
  have "\<forall>e \<in> set (hub_events es). kernel_from Ks e"
    using assms(3) by (auto simp: set_hub_events kernel_from_def split: event.splits)
  note rep = inv_replies_run [OF joint_run_hub [OF assms(1)] this]
  have "f \<in> set (out_frames s c)"
    using spoke_rcvd_prefix [OF m(3) assms(4)] assms(5) by (auto simp: prefix_def)
  moreover have "is_response f" using assms(6) by (simp add: is_response_def)
  ultimately have "answered cfg Ks s c f" by (rule inv_repliesD(1) [OF rep])
  then obtain sp sc req fs where ans: "hub_answer cfg Ks sp sc (sf_stream_id f) req f" "rcvd_of s c = Some fs"
    "authenticated cfg fs sp sc" "request_frame (sf_stream_id f) req \<in> set fs"
    by (auto simp: answered_def asked_def owner_def)
  have "request_frame (sf_stream_id f) req \<in> set (outbound se)"
    using hub_rcvd_prefix [OF m(3) assms(4) ans(2)] ans(4) by (auto simp: prefix_def)
  moreover have "m' < 2 ^ 63" using m(1) assms(2) by simp
  ultimately have "hd_req x = Some req"
    using request_frame_owner [OF m(2) _ assms(4), of "request_frame (sf_stream_id f) req" req h x] assms(7,8)
    by (simp add: request_frame_def)
  moreover have "sp = cc_spoke_id cc" by (rule authenticated_spoke(1) [OF m(2,3) assms(4) ans(2,3)])
  ultimately show ?thesis using ans by blast
qed

text \<open>
  C21. What the local caller of the proxy sees of the hub's verdict: 403 for a path outside the allowlist,
  502 when the kernel cannot be reached or its body cannot be read, and otherwise the kernel's own
  status (502 if it has not three digits), its headers and its body; the hub never turns a refusal
  into a success.
\<close>
theorem proxied_status:
  assumes "handle_http_request cfg env sid req sp m = (f, m')" and "sf_kind f = Some (SHttpResponse r)"
  shows "response_parts r =
    (if rq_path req \<notin> allowed_paths cfg
     then (403, [], as_bytes (''path not allowed: '' @ rq_path req))
     else case he_send env (kernel_request_of cfg env sp req) of
       Inl e \<Rightarrow> (502, [], as_bytes (''upstream error: '' @ e))
     | Inr resp \<Rightarrow>
         (case kp_body resp of
            Inl e \<Rightarrow> (502, [], as_bytes (''upstream body error: '' @ e))
          | Inr body \<Rightarrow>
              (if 100 \<le> unat (kp_status resp) \<and> unat (kp_status resp) \<le> 999 then kp_status resp else 502,
               collect_headers (kp_headers resp) [], body)))"
proof -
  have cast: "(ucast (ucast w :: i32) :: u16) = w" for w :: u16
    by (simp add: ucast_up_ucast_id is_up)
  have refused: "response_parts \<lparr>rs_status = 403, rs_headers = [],
      rs_body = as_bytes (''path not allowed: '' @ rq_path req), rs_error = ''rejected_path''\<rparr> =
    (403, [], as_bytes (''path not allowed: '' @ rq_path req))"
    by (simp add: response_parts_def status_of_def)
  have failed: "response_parts \<lparr>rs_status = 0, rs_headers = [], rs_body = [], rs_error = ''upstream '' @ e\<rparr> =
    (502, [], as_bytes (''upstream '' @ e))" for e
    by (simp add: response_parts_def)
  have passed: "response_parts \<lparr>rs_status = word_of_nat (unat st), rs_headers = hs, rs_body = body, rs_error = []\<rparr> =
    (if 100 \<le> unat st \<and> unat st \<le> 999 then st else 502, hs, body)" for st hs body
    by (simp add: response_parts_def status_of_def cast Let_def)
  show ?thesis
  proof (cases "rq_path req \<in> allowed_paths cfg")
    case False
    with assms refused show ?thesis by (auto simp: handle_http_request_def http_response_frame_def)
  next
    case allowed: True
    show ?thesis
    proof (cases "he_send env (kernel_request_of cfg env sp req)")
      case (Inl e)
      with assms allowed failed [of "''error: '' @ e"] show ?thesis
        by (auto simp: handle_http_request_def http_response_frame_def)
    next
      case (Inr resp)
      show ?thesis
      proof (cases "kp_body resp")
        case (Inl e)
        with assms allowed \<open>he_send _ _ = _\<close> failed [of "''body error: '' @ e"] show ?thesis
          by (auto simp: handle_http_request_def http_response_frame_def Let_def)
      next
        case (Inr body)
        with assms allowed \<open>he_send _ _ = _\<close> passed [of "kp_status resp" "collect_headers (kp_headers resp) []" body]
        show ?thesis by (auto simp: handle_http_request_def http_response_frame_def Let_def)
      qed
    qed
  qed
qed

text \<open>The refusal of a spoke that is not an application spoke reaches the caller as 403.\<close>

lemma rejected_kind_status:
  "sf_kind (reject_kind_frame sid) = Some (SHttpResponse r) \<Longrightarrow>
   response_parts r = (403, [], as_bytes ''application spoke required'')"
  by (auto simp: reject_kind_frame_def http_response_frame_def response_parts_def status_of_def)

section \<open>A run of both programs\<close>

text \<open>
  The spoke authenticates, the hub accepts a TCP connection, one chunk travels each way; then, for the
  application spoke, one HTTP request and its answer.
\<close>

definition pair_client :: client_config where
  "pair_client = demo_client\<lparr>cc_spoke_id := ''spoke-a'', cc_token := ''s3:cret''\<rparr>"

definition greeting_events :: "string \<Rightarrow> string \<Rightarrow> joint_event list" where
  "greeting_events sp tok =
     [AtHub (EvConnect 0 (replicate 32 0) 0), AtHub (EvTake 0)] @ map AtSpoke (online_events 0) @
     [AtSpoke (CvSess 0 (InHub (InFrame (challenge_frame (replicate 32 0) 0) 9))),
      AtSpoke (CvSess 0 InNext), AtSpoke (CvTake 0),
      AtHub (EvConn 0 (InRecv (Frame (client_handshake sp tok)) 0)),
      AtHub (EvConn 0 InStep), AtHub (EvConn 0 InStep)]"

definition pair_events :: "joint_event list" where
  "pair_events = greeting_events ''spoke-a'' ''s3:cret'' @
     [AtHub (EvConn 0 (InBind (BindOk 0))), AtHub (EvAcc 0 AcceptErr), AtHub (EvAcc 0 (AcceptOk 5)),
      AtHub (EvAcc 0 AcceptErr), AtHub (EvAcc 0 AcceptErr), AtHub (EvUp 5 (ReadBytes [7, 8])),
      AtHub (EvUp 5 ReadEof), AtHub (EvTake 0), AtHub (EvTake 0),
      AtSpoke (CvSess 0 (InHub (InFrame (open_frame 1 ''default'') 3))), AtSpoke (CvPump 3 (PuDial DialOk)),
      AtSpoke (CvSess 0 (InHub (InFrame (data_frame 1 [7, 8]) 4))), AtSpoke (CvSess 0 InNext),
      AtSpoke (CvPump 3 (PuRecv True)), AtSpoke (CvPump 3 (PuReadBytes [9])), AtSpoke (CvPump 3 PuGo),
      AtSpoke (CvTake 0),
      AtHub (EvConn 0 (InBind (BindOk 1))), AtHub (EvConn 0 InStep),
      AtHub (EvConn 0 (InRecv (Frame (client_data 1 [9])) 0)), AtHub (EvConn 0 InStep),
      AtHub (EvDn 5 WriteOk), AtHub (EvDn 5 WriteOk)]"

definition carried :: "server \<Rightarrow> client \<Rightarrow> bool" where
  "carried s t \<longleftrightarrow>
     (case (strms s 5, cl_pumps t 3) of
        (Some v, Some p) \<Rightarrow> vs_sess v = 0 \<and> pu_sess p = 0 \<and> pu_sid p = vs_sid v \<and>
          vs_read v = [[7, 8]] \<and> pu_written p = [[7, 8]] \<and> pu_read p = [[9]] \<and> vs_written v = [[9]]
      | _ \<Rightarrow> False)"

lemma pair_run:
  "map_option (\<lambda>(s, t). carried s t)
     (joint_run demo_cfg pair_client demo_lib 0 0 pair_events (server_init, client_init)) = Some True"
  by code_simp

lemma pair_linked:
  obtains s t v p where
    "linked demo_cfg pair_client demo_lib 0 0 (length pair_events) (s, t)"
    "strms s 5 = Some v" "vs_sess v = 0" "cl_pumps t 3 = Some p" "pu_sess p = 0" "pu_sid p = vs_sid v"
    "vs_read v = [[7, 8]]" "pu_written p = [[7, 8]]" "pu_read p = [[9]]" "vs_written v = [[9]]"
  by (rule joint_run_obtains [OF pair_run]) (auto simp: carried_def split: option.splits)

lemma pair_length: "length pair_events < 2 ^ 63"
  by (simp add: pair_events_def greeting_events_def online_events_def)

theorem tcp_bytes_reach_target_witness:
  "\<exists>n s t v p. linked demo_cfg pair_client demo_lib 0 0 n (s, t) \<and> strms s 5 = Some v \<and>
     cl_pumps t 3 = Some p \<and> pu_written p = [[7, 8]] \<and> prefix (pu_written p) (vs_read v)"
proof -
  obtain s t v p where run: "linked demo_cfg pair_client demo_lib 0 0 (length pair_events) (s, t)"
    and v: "strms s 5 = Some v" "vs_sess v = 0"
    and p: "cl_pumps t 3 = Some p" "pu_sess p = 0" "pu_sid p = vs_sid v" "pu_written p = [[7, 8]]"
    by (rule pair_linked)
  from tcp_bytes_reach_target [OF run pair_length v p(1-3)] run v p show ?thesis by blast
qed

theorem target_bytes_reach_tcp_witness:
  "\<exists>n s t v p. linked demo_cfg pair_client demo_lib 0 0 n (s, t) \<and> strms s 5 = Some v \<and>
     cl_pumps t 3 = Some p \<and> vs_written v = [[9]] \<and> prefix (vs_written v) (pu_read p)"
proof -
  obtain s t v p where run: "linked demo_cfg pair_client demo_lib 0 0 (length pair_events) (s, t)"
    and v: "strms s 5 = Some v" "vs_sess v = 0"
    and p: "cl_pumps t 3 = Some p" "pu_sess p = 0" "pu_sid p = vs_sid v" and w: "vs_written v = [[9]]"
    by (rule pair_linked)
  from target_bytes_reach_tcp [OF run pair_length v p] run v p w show ?thesis by blast
qed

text \<open>The application spoke: a local caller asks, the kernel answers 200 with one byte.\<close>

definition answering_env :: http_env where
  "answering_env = \<lparr>he_method_ok = (\<lambda>_. True),
     he_send = (\<lambda>_. Inr \<lparr>kp_status = 200, kp_headers = [], kp_body = Inr [1]\<rparr>)\<rparr>"

definition triage_request :: http_request where
  "triage_request = \<lparr>rq_method = ''POST'', rq_path = ''/core/orchestrator/triage'',
     rq_headers = [(''accept'', ''*/*'')], rq_body = []\<rparr>"

definition ask_events :: "joint_event list" where
  "ask_events = greeting_events ''app-b'' ''t'' @
     [AtHub (EvConn 0 InStep)] @ map AtSpoke (sent_events 7) @
     [AtSpoke (CvTake 0),
      AtHub (EvConn 0 (InRecv (Frame (client_http_request (2 ^ 63) triage_request)) 6)),
      AtHub (EvHttp 6 answering_env), AtHub (EvHttpSend 6), AtHub (EvTake 0),
      AtSpoke (CvSess 0 (InHub (InFrame reply_frame 3)))]"

definition answered_run :: "server \<Rightarrow> client \<Rightarrow> bool" where
  "answered_run s t \<longleftrightarrow>
     (case (cl_sess t 0, cl_handlers t 7) of
        (Some se, Some x) \<Rightarrow> reply_frame \<in> set (se_rcvd se) \<and> hd_sid x = Some (2 ^ 63) \<and>
          hd_req x = Some triage_request \<and> hd_slot x = Some reply
      | _ \<Rightarrow> False)"

lemma ask_run:
  "map_option (\<lambda>(s, t). answered_run s t)
     (joint_run demo_cfg demo_client demo_lib 0 0 ask_events (server_init, client_init)) = Some True"
  by code_simp

lemma ask_runs:
  obtains s t se x where
    "joint_run demo_cfg demo_client demo_lib 0 0 ask_events (server_init, client_init) = Some (s, t)"
    "cl_sess t 0 = Some se" "cl_handlers t 7 = Some x" "reply_frame \<in> set (se_rcvd se)"
    "hd_sid x = Some (2 ^ 63)" "hd_req x = Some triage_request"
  by (rule pair.run_obtains [OF ask_run]) (auto simp: answered_run_def split: option.splits)

lemma ask_kernels: "AtHub (EvHttp g env) \<in> set ask_events \<Longrightarrow> env = answering_env"
  by (auto simp: ask_events_def greeting_events_def online_events_def sent_events_def request_events_def)

lemma ask_length: "length ask_events < 2 ^ 63"
  by (simp add: ask_events_def greeting_events_def online_events_def sent_events_def request_events_def)

theorem response_answers_own_request_witness:
  "\<exists>s t fs sc. joint_run demo_cfg demo_client demo_lib 0 0 ask_events (server_init, client_init) = Some (s, t) \<and>
     rcvd_of s 0 = Some fs \<and> authenticated demo_cfg fs ''app-b'' sc \<and>
     hub_answer demo_cfg {answering_env} ''app-b'' sc (2 ^ 63) triage_request reply_frame"
proof -
  obtain s t se x where
    run: "joint_run demo_cfg demo_client demo_lib 0 0 ask_events (server_init, client_init) = Some (s, t)"
    and se: "cl_sess t 0 = Some se" "reply_frame \<in> set (se_rcvd se)"
    and x: "cl_handlers t 7 = Some x" "hd_sid x = Some (2 ^ 63)" "hd_req x = Some triage_request"
    by (rule ask_runs) blast
  have f: "sf_kind reply_frame = Some (SHttpResponse reply)" "sf_stream_id reply_frame = 2 ^ 63"
    by (simp_all add: reply_frame_def)
  have Ks: "\<forall>g env. AtHub (EvHttp g env) \<in> set ask_events \<longrightarrow> env \<in> {answering_env}"
    using ask_kernels by blast
  have "hd_sid x = Some (sf_stream_id reply_frame)" using x(2) f(2) by simp
  from response_answers_own_request [OF run ask_length Ks se f(1) x(1) this] f(2) x(3) run
  show ?thesis by (auto simp: demo_client_def)
qed

theorem proxied_status_witness:
  "\<exists>f m r. handle_http_request demo_cfg answering_env (2 ^ 63)
       (triage_request\<lparr>rq_path := ''/core/orchestrator/triage?x=1''\<rparr>) ''app-b'' metrics_new = (f, m) \<and>
     sf_kind f = Some (SHttpResponse r) \<and> fst (response_parts r) = 403"
proof -
  let ?req = "triage_request\<lparr>rq_path := ''/core/orchestrator/triage?x=1''\<rparr>"
  obtain f m where f: "handle_http_request demo_cfg answering_env (2 ^ 63) ?req ''app-b'' metrics_new = (f, m)"
    by (rule prod.exhaust)
  then obtain r where r: "sf_kind f = Some (SHttpResponse r)"
    by (auto simp: handle_http_request_def http_response_frame_def Let_def split: if_splits sum.splits)
  have "rq_path ?req \<notin> allowed_paths demo_cfg"
    by (simp add: demo_cfg_def default_allowed_paths_def)
  with proxied_status [OF f r] f r show ?thesis by auto
qed

end
