(* ===== verification/Spec2Isabelle.thy ===== *)
theory Spec2Isabelle
  imports Server_Registry Server_Gauge Server_Liveness Server_Traces Server_Startup Client_Liveness Client_Traces
    Client_Startup Client_Reconnect Sysml_Validator Tunnel_System
begin

text \<open>
  Verification of the Rust programs of OpenSpoke: the reverse tunnel and the SysML validator.

  The system. A hub runs \<open>tunnel-server\<close> (\<open>hub/images/tunnel-server/src/main.rs\<close>), every spoke runs
  \<open>tunnel-client\<close> (\<open>spoke/images/tunnel-client/src/main.rs\<close>). A spoke opens one bidirectional gRPC
  stream to the hub and authenticates with a token. Through it the hub opens virtual TCP streams: it
  listens on the ports configured for the spoke, announces each accepted connection with \<open>Open\<close>, and
  both sides pump bytes as \<open>Data\<close> until a \<open>Close\<close>. In the other direction an application spoke sends
  HTTP requests as frames, which the hub forwards to its kernel. \<open>sysml-validator\<close>
  (\<open>hub/images/sysml-validator/src/main.rs\<close>) is an HTTP service of its own that checks SysML texts.

  How the programs are modelled. A task of the async runtime is a program counter with its locals, and
  one definition per segment between two suspension points (an \<open>await\<close>); what a shared \<open>Arc\<close> points to
  is an entry of a store indexed by numbers. A program is a partial step function on events: an event
  names the task that runs its next segment, and what the outside world answers (the bytes a socket
  read, the outcome of a bind, the reply of the kernel). \<open>None\<close> means that the segment is not enabled:
  the task waits. Every interleaving of the tasks is a list of events, so a statement about every
  reachable state (\<open>reach\<close>, \<open>cl_reach\<close>, \<open>linked\<close>) covers them all. \<open>Machines\<close> states once, as the
  locale \<open>machine\<close>, what holds of such programs, and interprets it for the hub, the spoke and the pair.
  Integers keep their width (\<open>u64\<close> stream identifiers wrap around), except the metrics, which are
  floating point in the code and integers here. Strings are UTF-8 byte sequences.

  The theories.
    \<^item> \<open>Tunnel_Prelude\<close>, \<open>Rust_Std\<close>, \<open>Rust_Net\<close>: types, results, and the functions of the Rust standard
      library that the sources call on strings, integers and socket addresses, executable.
    \<^item> \<open>Tunnel_Proto\<close>: the messages of \<open>proto/tunnel.proto\<close>. \<open>Channels\<close>: the bounded \<open>mpsc\<close> channel and
      its contract, the locale \<open>fifo_channel\<close>. \<open>Machines\<close>: the locales \<open>machine\<close> and \<open>winding_down\<close>.
    \<^item> \<open>Server_Config\<close>: \<open>load_config\<close> of the hub. \<open>Server_State\<close>: \<open>Metrics\<close>, \<open>SpokeSession\<close>, the
      registry, the tasks. \<open>Server_Http\<close>: \<open>handle_http_request\<close>. \<open>Server_Conn\<close>: \<open>connect\<close>,
      \<open>handle_connection\<close>, \<open>recv_loop\<close>, \<open>cleanup_session\<close>. \<open>Server_Accept\<close>: \<open>accept_loop\<close> and the two
      pumps of a stream. \<open>Server_System\<close>: the whole hub. \<open>Server_Startup\<close>: \<open>main\<close>, \<open>Metrics::encode\<close>.
    \<^item> \<open>Client_Config\<close>: \<open>load_config\<close> of the spoke. \<open>Client_State\<close>: \<open>SharedProxyState\<close>, frames, tasks.
      \<open>Client_Proxy\<close>: \<open>handle_http_proxy\<close>. \<open>Client_Session\<close>: \<open>run_session\<close>, \<open>run_session_impl\<close>,
      \<open>run_stream\<close>, and the whole spoke. \<open>Client_Reconnect\<close>: the loop of \<open>main\<close>. \<open>Client_Startup\<close>: the
      rest of \<open>main\<close>, \<open>run_http_proxy\<close>, and the endpoint a session dials.
    \<^item> \<open>Sysml_Validator\<close>: the validator service.
    \<^item> \<open>Server_Demo\<close>, \<open>Client_Demo\<close>: a concrete deployment and runs, for the witnesses.

  What is shown.
    \<^item> \<open>Server_Config\<close>, \<open>Client_Config\<close>: an accepted configuration is well formed and comes from the items of
      its variables; printed configurations are read back. \<open>Server_Http\<close>: what the hub asks the kernel and
      answers the spoke, as a verdict on each request that does not refer to the code's own helpers.
    \<^item> \<open>Server_Safety\<close>: who may hold a session, a listening port, a forwarding task. \<open>Server_Registry\<close>:
      the registry never points to a connection that cleaned up; the gauge \<open>connected\<close> counts
      displacements too many. \<open>Server_Gauge\<close>: the gauge \<open>streams_open\<close> counts the registered streams and
      all that were registered when a session closed. \<open>Server_Streams\<close>: identifiers are unique.
      \<open>Server_Wire\<close>: what the frames of a stream look like on the wire. \<open>Server_Delivery\<close>: what reaches a
      TCP connection. \<open>Server_Replies\<close>: which request a response frame answers, in whose name, and with
      which kernel's verdict. \<open>Server_Liveness\<close>: the clean-up of a connection and the downstream pump of an
      abandoned stream end, under every interleaving. \<open>Server_Traces\<close>: a listener that outlives its
      connection, two live sessions of one spoke, and the empty token.
    \<^item> \<open>Client_Safety\<close>: a caller gets the answer to its own request; the flush releases all waiters; a
      request can precede the handshake. \<open>Client_Streams\<close>: the pumps are faithful. \<open>Client_Requests\<close>: which
      handler a request frame belongs to, and whose handshake is sent. \<open>Client_Liveness\<close>: the end of a
      session cannot be held up. \<open>Client_Traces\<close>: what a session leaves behind when it is over.
      \<open>Client_Reconnect\<close>: the delays in closed form.
    \<^item> \<open>Tunnel_System\<close>: both programs joined by a stream that delivers a prefix of what was sent: the
      bytes of a TCP connection arrive at the target and back, a response answers its own request.
    \<^item> This theory: the two configurations together.

  Bounds. Statements that depend on identifiers being fresh hold for the first \<open>2 ^ 63\<close> events: the hub
  allocates from 1 and the spoke from \<open>2 ^ 63\<close>, at most one identifier per event, so within this bound
  neither counter leaves its half of the \<open>u64\<close> space or repeats. No definition uses fuel: all recursion
  is structural or on a decreasing length. Reads return at most the buffer of the code (32 KiB), the
  request body of the proxy at most 32 MiB, that of the validator at most 2 MiB.

  Granularity. Two segments are coarser than the suspension points of the code: the spoke's pump receives
  a payload and writes it to the target in one step (\<open>pu_recv\<close>), whose failure is an outcome; and a
  handler of the hub's HTTP proxy sends its request and reads the reply's body in one step (\<open>http_run\<close>).
  Neither touches shared state in between. A write on a socket takes all its bytes or fails.

  Not modelled. The generated protobuf encoding, HTTP/2 and TLS (assumed: a stream delivers messages in
  order and without loss, as gRPC documents), the sockets, \<open>reqwest\<close>, \<open>axum\<close>, the JSON library, the
  Prometheus text encoder and the two SysML checkers, which are parameters (\<open>http_env\<close>, \<open>http_lib\<close>,
  \<open>transport\<close>, \<open>sysml_lib\<close>) or events; logging (\<open>tracing\<close>); the build scripts, which only generate the
  protobuf code; the hub's kernel, the front ends and the manifests, which are not Rust.
\<close>

section \<open>The two configurations together\<close>

lemma handshake_admitted_iff:
  "check_handshake cfg (client_handshake sp tok) = Inr ctx \<longleftrightarrow>
     (\<exists>sc. spokes cfg sp = Some sc \<and> sc_token sc = tok \<and> ctx = \<lparr>cx_id = sp, cx_sc = sc\<rparr>)"
  by (auto simp: check_handshake_def client_handshake_def split: option.splits if_splits)

text \<open>
  C9. The hub, configured with a printed list of spokes, admits a spoke started with an identifier and a
  token exactly when the list has this identifier with this very token, and then runs it with the
  listed configuration.
\<close>
theorem configured_spoke_is_admitted:
  assumes "scs \<noteq> []" and "\<forall>sc \<in> set scs. printable sc" and "distinct (map sc_spoke_id scs)"
    and "load_client_config env = Inr cc"
    and "env ''SPOKE_ID'' = Some sp" and "env ''TUNNEL_TOKEN'' = Some tok"
  shows "\<exists>cfg. load_config [''TUNNEL_SPOKES'' \<mapsto> print_spokes scs] = Inr cfg \<and>
    (\<forall>ctx. check_handshake cfg (client_handshake (cc_spoke_id cc) (cc_token cc)) = Inr ctx \<longleftrightarrow>
      (\<exists>sc \<in> set scs. sc_spoke_id sc = sp \<and> sc_token sc = tok \<and> ctx = \<lparr>cx_id = sp, cx_sc = sc\<rparr>))"
proof -
  have cc: "cc_spoke_id cc = sp" "cc_token cc = tok"
    using assms(4-6) by (auto simp: load_client_config_def env_or_default_def Let_def bind_result_Inr_iff
        split: if_splits)
  obtain cfg where cfg: "load_config [''TUNNEL_SPOKES'' \<mapsto> print_spokes scs] = Inr cfg"
    "spokes cfg = map_of (map (\<lambda>sc. (sc_spoke_id sc, sc)) scs)"
    using load_config_printed [OF assms(1-3)] by simp
  then have "spokes cfg sp = Some sc \<longleftrightarrow> sc \<in> set scs \<and> sc_spoke_id sc = sp" for sc
    by (simp add: map_of_spokes_iff [OF assms(3)])
  with cfg(1) show ?thesis by (auto simp: cc handshake_admitted_iff)
qed

theorem configured_spoke_is_admitted_witness:
  "\<exists>cfg ctx. load_config [''TUNNEL_SPOKES'' \<mapsto> print_spokes sample_spokes] = Inr cfg \<and>
     check_handshake cfg (client_handshake ''app-b'' ''t'') = Inr ctx \<and> cx_id ctx = ''app-b''"
proof -
  let ?env = "[''HUB_URL'' \<mapsto> ''hub:443'', ''SPOKE_ID'' \<mapsto> ''app-b'', ''TUNNEL_TOKEN'' \<mapsto> ''t'']"
  obtain cc where cc: "load_client_config ?env = Inr cc" "cc_spoke_id cc = ''app-b''" "cc_token cc = ''t''"
    by (simp add: load_client_config_def load_targets_def env_or_default_def starts_with_def Let_def)
  from configured_spoke_is_admitted [OF sample_spokes_printable cc(1), of "''app-b''" "''t''"] cc(2,3)
  obtain cfg where cfg: "load_config [''TUNNEL_SPOKES'' \<mapsto> print_spokes sample_spokes] = Inr cfg"
    "check_handshake cfg (client_handshake ''app-b'' ''t'') = Inr \<lparr>cx_id = ''app-b'', cx_sc = sample_spokes ! 1\<rparr>"
    by (auto simp: sample_spokes_def)
  then show ?thesis by auto
qed

end
